(* ===== verification/Go_Prelude.thy ===== *)
theory Go_Prelude
  imports Main "HOL-Library.Word"
begin

unbundle bit_operations_syntax

text \<open>
  Shared vocabulary of the development: Go's error values and \<^verbatim>\<open>errors.Is\<close>, the
  bytes of \<^verbatim>\<open>encoding/binary\<close>, the built-in \<^verbatim>\<open>copy\<close> on a slice of an array,
  generic runs of a labelled step relation, and the \<^verbatim>\<open>named_theorems\<close>
  collections that the component theories fill.
\<close>

named_theorems go_string_simps \<open>evaluation rules for the string library\<close>
named_theorems go_bytes \<open>facts on byte lists, copies and big-endian integers\<close>
named_theorems go_err \<open>facts on error values\<close>

section \<open>Types\<close>

type_synonym byte = "8 word"
type_synonym bytes = "byte list"
type_synonym uint16 = "16 word"

section \<open>Error values\<close>

text \<open>
  An operand of a \<^verbatim>\<open>fmt.Errorf\<close> call. The rendered text is not modelled, only the
  format and its operands.
\<close>

datatype fmt_arg = ArgStr string | ArgInt int

text \<open>
  The error values the code creates or tests for. \<open>ErrorfW\<close> is \<^verbatim>\<open>fmt.Errorf\<close>
  with a \<^verbatim>\<open>%w\<close> verb and \<open>OpError\<close> is \<^verbatim>\<open>net.OpError\<close>: both have an
  \<^verbatim>\<open>Unwrap\<close> method. \<open>AcceptError\<close> is \<^verbatim>\<open>*proxy.acceptError\<close>: it embeds the
  interface \<^verbatim>\<open>error\<close>, whose only method is \<^verbatim>\<open>Error\<close>, so no \<^verbatim>\<open>Unwrap\<close>
  is promoted. \<open>SysError\<close> is any other error of the operating system or of the
  standard library.
\<close>

datatype go_error =
    NetErrClosed
  | IoEOF
  | IoErrUnexpectedEOF
  | IoErrClosedPipe
  | SysError string
  | ErrorsNew string
  | Errorf string "fmt_arg list"
  | ErrorfW string "fmt_arg list" go_error
  | OpError string go_error
  | AcceptError go_error bool

fun errors_unwrap :: "go_error \<Rightarrow> go_error option" where
  "errors_unwrap (ErrorfW _ _ e) = Some e"
| "errors_unwrap (OpError _ e) = Some e"
| "errors_unwrap _ = None"

text \<open>\<^verbatim>\<open>errors.Is\<close>: the target is the error or one of those it wraps.\<close>

fun errors_Is :: "go_error \<Rightarrow> go_error \<Rightarrow> bool" where
  "errors_Is (ErrorfW f as e) t \<longleftrightarrow> ErrorfW f as e = t \<or> errors_Is e t"
| "errors_Is (OpError op e) t \<longleftrightarrow> OpError op e = t \<or> errors_Is e t"
| "errors_Is e t \<longleftrightarrow> e = t"

lemma errors_Is_refl [simp, go_err]: "errors_Is e e"
  by (cases e) simp_all

lemma errors_Is_unwrap [go_err]:
  "errors_unwrap e = Some e' \<Longrightarrow> errors_Is e' t \<Longrightarrow> errors_Is e t"
  by (cases e) simp_all

text \<open>The run-time panics that the code can reach.\<close>

datatype go_panic =
    TypeAssertionPanic
  | PanicMsg string
  | CloseOfClosedChannel
  | NilDereference

text \<open>A call that gives no result: it panicked, or it returned an error.\<close>

datatype failure =
    Panics go_panic
  | Fails go_error

section \<open>Bytes\<close>

definition be_Uint16 :: "bytes \<Rightarrow> uint16" where
  "be_Uint16 b = ucast (b ! 1) OR push_bit 8 (ucast (b ! 0))"

definition be_PutUint16 :: "uint16 \<Rightarrow> bytes" where
  "be_PutUint16 v = [ucast (drop_bit 8 v), ucast v]"

text \<open>\<^verbatim>\<open>copy(buf[lo:hi], src)\<close>: as many bytes as both sides have.\<close>

definition go_copy :: "bytes \<Rightarrow> nat \<Rightarrow> nat \<Rightarrow> bytes \<Rightarrow> bytes" where
  "go_copy buf lo hi src =
     (let n = min (hi - lo) (length src)
      in take lo buf @ take n src @ drop (lo + n) buf)"

text \<open>\<^verbatim>\<open>buf[lo:hi]\<close>.\<close>

definition go_slice :: "'a list \<Rightarrow> nat \<Rightarrow> nat \<Rightarrow> 'a list" where
  "go_slice xs lo hi = take (hi - lo) (drop lo xs)"

lemma length_be_PutUint16 [simp, go_bytes]: "length (be_PutUint16 v) = 2"
  by (simp add: be_PutUint16_def)

lemma be_Uint16_PutUint16 [simp, go_bytes]: "be_Uint16 (be_PutUint16 v) = v"
  unfolding be_Uint16_def be_PutUint16_def
  by (rule bit_word_eqI) (auto simp: bit_simps)

lemma be_PutUint16_be_Uint16 [simp, go_bytes]: "be_PutUint16 (be_Uint16 [a, b]) = [a, b]"
  by (simp add: be_Uint16_def be_PutUint16_def) (intro conjI; rule bit_word_eqI; auto simp: bit_simps dest: bit_imp_le_length)

lemma length_go_copy [simp, go_bytes]:
  "lo \<le> hi \<Longrightarrow> hi \<le> length buf \<Longrightarrow> length (go_copy buf lo hi src) = length buf"
  by (simp add: go_copy_def Let_def)

text \<open>
  A buffer of zeros filled from the front, one write after the other (rewriting with
  \<open>append_assoc\<close> switched off keeps the filled part on the left).
\<close>

lemma go_copy_fill:
  "lo = length pre \<Longrightarrow> lo \<le> hi \<Longrightarrow> length src = hi - lo \<Longrightarrow> hi - lo \<le> k \<Longrightarrow>
     go_copy (pre @ replicate k 0) lo hi src = (pre @ src) @ replicate (k - (hi - lo)) 0"
  by (simp add: go_copy_def Let_def)

lemma go_copy_fill_first:
  "length src = hi \<Longrightarrow> hi \<le> k \<Longrightarrow>
     go_copy (replicate k 0) 0 hi src = src @ replicate (k - hi) 0"
  using go_copy_fill [of 0 "[]" hi src k] by simp

lemma update_fill:
  "i = length pre \<Longrightarrow> 0 < k \<Longrightarrow>
     (pre @ replicate k 0)[i := x] = (pre @ [x]) @ replicate (k - 1) 0"
  by (cases k) (simp_all add: list_update_append)

lemmas fill_simps = go_copy_fill go_copy_fill_first update_fill

lemma length_go_slice [simp, go_bytes]:
  "hi \<le> length xs \<Longrightarrow> length (go_slice xs lo hi) = hi - lo"
  by (simp add: go_slice_def)

lemma go_slice_append_left [go_bytes]:
  "hi \<le> length xs \<Longrightarrow> go_slice (xs @ ys) lo hi = go_slice xs lo hi"
  by (auto simp: go_slice_def)

lemma go_slice_append_right [go_bytes]:
  "length xs \<le> lo \<Longrightarrow> go_slice (xs @ ys) lo hi = go_slice ys (lo - length xs) (hi - length xs)"
  by (auto simp: go_slice_def)

lemma go_slice_all [simp, go_bytes]: "length xs \<le> hi \<Longrightarrow> go_slice xs 0 hi = xs"
  by (simp add: go_slice_def)

section \<open>Runs of a labelled step relation\<close>

text \<open>
  \<open>run step s ls t\<close>: the steps labelled \<open>ls\<close>, in this order, lead from \<open>s\<close> to
  \<open>t\<close>. \<open>reach\<close> forgets the labels.
\<close>

inductive run :: "('l \<Rightarrow> 's \<Rightarrow> 's \<Rightarrow> bool) \<Rightarrow> 's \<Rightarrow> 'l list \<Rightarrow> 's \<Rightarrow> bool"
  for step :: "'l \<Rightarrow> 's \<Rightarrow> 's \<Rightarrow> bool"
where
  run_Nil: "run step s [] s"
| run_Cons: "step l s t \<Longrightarrow> run step t ls u \<Longrightarrow> run step s (l # ls) u"

inductive_cases run_NilE [elim!]: "run step s [] t"
inductive_cases run_ConsE [elim!]: "run step s (l # ls) t"

inductive_simps run_Nil_iff [simp]: "run step s [] t"
inductive_simps run_Cons_iff: "run step s (l # ls) t"

lemma run_append: "run step s ls t \<Longrightarrow> run step t ls' u \<Longrightarrow> run step s (ls @ ls') u"
  by (induction rule: run.induct) (auto intro: run_Cons)

lemma run_mono: "run step s ls t \<Longrightarrow> (\<And>l s t. step l s t \<Longrightarrow> step' l s t) \<Longrightarrow> run step' s ls t"
  by (induction rule: run.induct) (auto intro: run_Nil run_Cons)

text \<open>If steps are deterministic, every run is a beginning of one that cannot go on.\<close>

lemma run_deterministic:
  assumes "run step s ls t" and "\<And>l u. \<not> step l t u"
    and "\<And>l l' s t t'. step l s t \<Longrightarrow> step l' s t' \<Longrightarrow> l = l' \<and> t = t'"
    and "run step s ls' s'"
  shows "\<exists>ls''. ls = ls' @ ls'' \<and> run step s' ls'' t"
  using assms(1,2,4)
proof (induction arbitrary: ls' s' rule: run.induct)
  case (run_Nil s)
  then have "ls' = []" by (cases ls') auto
  then show ?case using run_Nil run.run_Nil by auto
next
  case (run_Cons l s t ls u)
  show ?case
  proof (cases ls')
    case Nil
    then show ?thesis using run_Cons run.run_Cons [of step l s t ls u] by auto
  next
    case (Cons k ks)
    then obtain v where v: "step k s v" "run step v ks s'" using run_Cons.prems(2) by auto
    then have "k = l" "v = t" using assms(3) [OF run_Cons.hyps(1), of k v] by simp_all
    then show ?thesis using run_Cons.IH [OF run_Cons.prems(1)] v(2) Cons by simp
  qed
qed

text \<open>An invariant of every step is an invariant of every run.\<close>

lemma run_invariant:
  assumes "run step s ls t" and "I s"
    and "\<And>l s t. step l s t \<Longrightarrow> I s \<Longrightarrow> I t"
  shows "I t"
  using assms by (induction rule: run.induct) auto

end
