(* ===== verification/Go_Io.thy ===== *)
theory Go_Io
  imports Go_Prelude
begin

text \<open>
  The part of package \<^verbatim>\<open>io\<close> the code uses. A reader is a state with a read
  function: \<open>rd s n\<close> is \<^verbatim>\<open>Read\<close> on a buffer of \<open>n\<close> bytes and gives the bytes
  stored, the error and the next state. The locale \<open>stream_reader\<close> is the contract
  of \<^verbatim>\<open>io.Reader\<close> that the clients use; its lemmas say what \<^verbatim>\<open>io.ReadFull\<close>
  returns on any reader, and the last one says that \<^verbatim>\<open>io.MultiReader\<close> keeps the
  contract. The providers are the model of a network connection, \<open>conn_Read\<close>, and the
  readers built from it.
\<close>

section \<open>Readers\<close>

type_synonym 's reader = "'s \<Rightarrow> nat \<Rightarrow> (bytes \<times> go_error option) \<times> 's"

text \<open>
  The loop of \<^verbatim>\<open>io.ReadAtLeast\<close> on a buffer of exactly the wanted size: read into
  the rest of the buffer until it is full or an error is returned. A reader that always
  returns no bytes and no error keeps it from returning: that is \<open>None\<close>.
\<close>

partial_function (option) read_loop ::
  "'s reader \<Rightarrow> 's \<Rightarrow> nat \<Rightarrow> bytes \<Rightarrow> ((bytes \<times> go_error option) \<times> 's) option"
where
  "read_loop rd s n acc =
     (if n \<le> length acc then Some ((acc, None), s)
      else (case rd s (n - length acc) of ((bs, e), s') \<Rightarrow>
        (case e of
           None \<Rightarrow> read_loop rd s' n (acc @ bs)
         | Some err \<Rightarrow> Some ((acc @ bs, Some err), s'))))"

declare read_loop.simps [code]

text \<open>
  \<^verbatim>\<open>io.ReadFull\<close>: the error is dropped when the buffer is full, and an end of file
  in the middle is \<^verbatim>\<open>io.ErrUnexpectedEOF\<close>.
\<close>

definition ReadFull ::
  "'s reader \<Rightarrow> 's \<Rightarrow> nat \<Rightarrow> ((bytes \<times> go_error option) \<times> 's) option"
where
  "ReadFull rd s n =
     (case read_loop rd s n [] of
        None \<Rightarrow> None
      | Some ((bs, e), s') \<Rightarrow>
          Some ((bs, if n \<le> length bs then None
                     else if bs \<noteq> [] \<and> e = Some IoEOF then Some IoErrUnexpectedEOF
                     else e), s'))"

definition short_read_error :: "bytes \<Rightarrow> go_error \<Rightarrow> go_error" where
  "short_read_error bs fin = (if bs \<noteq> [] \<and> fin = IoEOF then IoErrUnexpectedEOF else fin)"

text \<open>
  \<^verbatim>\<open>io.MultiReader\<close> over buffers (\<^verbatim>\<open>*bytes.Buffer\<close>) and readers: a reader that
  answers \<^verbatim>\<open>io.EOF\<close> is dropped and the next one is asked, within the same call if no
  byte was read.
\<close>

datatype 's source = SrcBuffer bytes | SrcReader 's

definition buffer_Read :: "bytes reader" where
  "buffer_Read b n =
     (if b = [] then (([], if n = 0 then None else Some IoEOF), [])
      else ((take n b, None), drop n b))"

definition source_Read :: "'s reader \<Rightarrow> 's source reader" where
  "source_Read rd src n =
     (case src of
        SrcBuffer b \<Rightarrow> (case buffer_Read b n of (r, b') \<Rightarrow> (r, SrcBuffer b'))
      | SrcReader s \<Rightarrow> (case rd s n of (r, s') \<Rightarrow> (r, SrcReader s')))"

fun multi_Read :: "'s reader \<Rightarrow> 's source list reader" where
  "multi_Read rd [] n = (([], Some IoEOF), [])"
| "multi_Read rd (r # rs) n =
     (case source_Read rd r n of ((bs, e), r') \<Rightarrow>
        if e = Some IoEOF then
          (if bs \<noteq> [] then ((bs, if rs = [] then Some IoEOF else None), rs)
           else multi_Read rd rs n)
        else ((bs, e), r' # rs))"

text \<open>
  \<^verbatim>\<open>io.TeeReader\<close> into a \<^verbatim>\<open>*bytes.Buffer\<close>, whose \<^verbatim>\<open>Write\<close> never fails:
  the bytes read are also appended to the buffer.
\<close>

definition tee_Read :: "'s reader \<Rightarrow> ('s \<times> bytes) reader" where
  "tee_Read rd sb n =
     (case sb of (s, buf) \<Rightarrow>
        (case rd s n of ((bs, e), s') \<Rightarrow> ((bs, e), (s', buf @ bs))))"

section \<open>The contract of a reader\<close>

text \<open>
  \<open>content s\<close> are the bytes the reader still has to deliver, \<open>final s\<close> the error it
  reports after them, and \<open>fuel s\<close> bounds how many reads can succeed.
\<close>

locale stream_reader =
  fixes rd :: "'s reader"
    and content :: "'s \<Rightarrow> bytes"
    and final :: "'s \<Rightarrow> go_error"
    and fuel :: "'s \<Rightarrow> nat"
  assumes read_length: "rd s n = ((bs, e), s') \<Longrightarrow> length bs \<le> n"
    and read_content: "rd s n = ((bs, e), s') \<Longrightarrow> content s = bs @ content s'"
    and read_final: "rd s n = ((bs, e), s') \<Longrightarrow> final s' = final s"
    and read_error: "rd s n = ((bs, Some err), s') \<Longrightarrow> content s' = [] \<and> err = final s"
    and read_progress: "rd s n = ((bs, None), s') \<Longrightarrow> 0 < n \<Longrightarrow> fuel s' < fuel s"
begin

text \<open>The loop returns, with as much of the stream as was asked for and is there.\<close>

lemma read_loop_full:
  assumes "n \<le> length (acc @ content s)" and "length acc \<le> n"
  shows "\<exists>e s'. read_loop rd s n acc = Some ((take n (acc @ content s), e), s')
           \<and> content s' = drop (n - length acc) (content s) \<and> final s' = final s"
  using assms
proof (induction "fuel s" arbitrary: s acc rule: less_induct)
  case less
  show ?case
  proof (cases "n \<le> length acc")
    case True
    with less.prems show ?thesis by (auto simp: read_loop.simps [of rd s n acc])
  next
    case False
    obtain bs e s' where r: "rd s (n - length acc) = ((bs, e), s')"
      by (metis prod.exhaust)
    note c = read_content [OF r] read_length [OF r] read_final [OF r]
    show ?thesis
    proof (cases e)
      case None
      have "fuel s' < fuel s" using read_progress r None False by simp
      moreover have "n \<le> length ((acc @ bs) @ content s')" "length (acc @ bs) \<le> n"
        using less.prems c False by auto
      ultimately obtain e2 s2 where
        "read_loop rd s' n (acc @ bs) = Some ((take n ((acc @ bs) @ content s'), e2), s2)"
        "content s2 = drop (n - length (acc @ bs)) (content s')" "final s2 = final s'"
        using less.hyps by blast
      moreover have "drop (n - length acc) (bs @ content s')
          = drop (n - length (acc @ bs)) (content s')"
        using c(2) by (simp add: diff_diff_eq)
      ultimately show ?thesis
        using False r None c by (auto simp: read_loop.simps [of rd s n acc])
    next
      case (Some err)
      have e: "content s' = []" using read_error r Some by blast
      have l: "read_loop rd s n acc = Some ((acc @ bs, Some err), s')"
        using False r Some by (simp add: read_loop.simps [of rd s n acc])
      have "n = length (acc @ bs)" using c e less.prems False by auto
      then show ?thesis using l c e by simp
    qed
  qed
qed

lemma read_loop_short:
  assumes "length (acc @ content s) < n"
  shows "\<exists>s'. read_loop rd s n acc = Some ((acc @ content s, Some (final s)), s')
           \<and> content s' = [] \<and> final s' = final s"
  using assms
proof (induction "fuel s" arbitrary: s acc rule: less_induct)
  case less
  then have F: "\<not> n \<le> length acc" by simp
  obtain bs e s' where r: "rd s (n - length acc) = ((bs, e), s')"
    by (metis prod.exhaust)
  note c = read_content [OF r] read_length [OF r] read_final [OF r]
  show ?case
  proof (cases e)
    case None
    have "fuel s' < fuel s" using read_progress r None F by simp
    moreover have "length ((acc @ bs) @ content s') < n"
      using less.prems c by auto
    ultimately obtain s2 where
      "read_loop rd s' n (acc @ bs) = Some (((acc @ bs) @ content s', Some (final s')), s2)"
      "content s2 = []" "final s2 = final s'"
      using less.hyps by blast
    then show ?thesis using F r None c by (auto simp: read_loop.simps [of rd s n acc])
  next
    case (Some err)
    then have "content s' = []" "err = final s" using read_error r by blast+
    then show ?thesis using F r Some c by (simp add: read_loop.simps [of rd s n acc])
  qed
qed

lemma ReadFull_full:
  assumes "n \<le> length (content s)"
  obtains s' where "ReadFull rd s n = Some ((take n (content s), None), s')"
    and "content s' = drop n (content s)" and "final s' = final s"
  using read_loop_full [of n "[]" s] assms by (auto simp: ReadFull_def)

lemma ReadFull_short:
  assumes "length (content s) < n"
  obtains s' where
    "ReadFull rd s n = Some ((content s, Some (short_read_error (content s) (final s))), s')"
    and "content s' = []" and "final s' = final s"
  using read_loop_short [of "[]" s n] assms by (auto simp: ReadFull_def short_read_error_def)

text \<open>A tee keeps what was read and what is left together.\<close>

lemma tee_Read_content:
  "tee_Read rd (s, buf) n = ((bs, e), (s', buf')) \<Longrightarrow> buf' @ content s' = buf @ content s"
  by (auto simp: tee_Read_def read_content split: prod.splits)

end

section \<open>MultiReader keeps the contract\<close>

fun source_content :: "('s \<Rightarrow> bytes) \<Rightarrow> 's source \<Rightarrow> bytes" where
  "source_content ct (SrcBuffer b) = b"
| "source_content ct (SrcReader s) = ct s"

fun source_final :: "('s \<Rightarrow> go_error) \<Rightarrow> 's source \<Rightarrow> go_error" where
  "source_final fn (SrcBuffer b) = IoEOF"
| "source_final fn (SrcReader s) = fn s"

fun source_fuel :: "('s \<Rightarrow> nat) \<Rightarrow> 's source \<Rightarrow> nat" where
  "source_fuel fu (SrcBuffer b) = length b"
| "source_fuel fu (SrcReader s) = fu s"

text \<open>A source that ends with an error other than end of file hides those after it.\<close>

fun multi_content :: "('s \<Rightarrow> bytes) \<Rightarrow> ('s \<Rightarrow> go_error) \<Rightarrow> 's source list \<Rightarrow> bytes" where
  "multi_content ct fn [] = []"
| "multi_content ct fn (r # rs) =
     source_content ct r @ (if source_final fn r = IoEOF then multi_content ct fn rs else [])"

fun multi_final :: "('s \<Rightarrow> go_error) \<Rightarrow> 's source list \<Rightarrow> go_error" where
  "multi_final fn [] = IoEOF"
| "multi_final fn (r # rs) =
     (if source_final fn r = IoEOF then multi_final fn rs else source_final fn r)"

definition multi_fuel :: "('s \<Rightarrow> nat) \<Rightarrow> 's source list \<Rightarrow> nat" where
  "multi_fuel fu rs = sum_list (map (\<lambda>r. Suc (source_fuel fu r)) rs)"

context stream_reader
begin

lemma source_Read_facts:
  assumes "source_Read rd r n = ((bs, e), r')"
  shows "length bs \<le> n" "source_content content r = bs @ source_content content r'"
    and "source_final final r' = source_final final r"
    and "e = Some err \<Longrightarrow> source_content content r' = [] \<and> err = source_final final r"
    and "e = None \<Longrightarrow> 0 < n \<Longrightarrow> source_fuel fuel r' < source_fuel fuel r"
  using assms
  by (auto simp: source_Read_def buffer_Read_def
      split: source.splits prod.splits if_splits
      dest: read_length read_content read_final read_error read_progress)

lemma multi_Read_facts:
  assumes "multi_Read rd rs n = ((bs, e), rs')"
  shows "length bs \<le> n \<and> multi_content content final rs = bs @ multi_content content final rs'
     \<and> multi_final final rs' = multi_final final rs
     \<and> (\<forall>err. e = Some err \<longrightarrow> multi_content content final rs' = [] \<and> err = multi_final final rs)
     \<and> (e = None \<longrightarrow> 0 < n \<longrightarrow> multi_fuel fuel rs' < multi_fuel fuel rs)"
  using assms
proof (induction rs)
  case Nil
  then show ?case by auto
next
  case (Cons r rs)
  obtain bs1 e1 r1 where r: "source_Read rd r n = ((bs1, e1), r1)"
    by (metis prod.exhaust)
  note f = source_Read_facts [OF r]
  show ?case
  proof (cases "e1 = Some IoEOF")
    case True
    then have end_r: "source_content content r = bs1" "source_final final r = IoEOF"
      using f(2) f(4) [of IoEOF] by simp_all
    show ?thesis
    proof (cases "bs1 = []")
      case True
      then have "multi_Read rd rs n = ((bs, e), rs')"
        using Cons.prems r \<open>e1 = Some IoEOF\<close> by simp
      then show ?thesis using Cons.IH end_r True by (auto simp: multi_fuel_def)
    next
      case False
      then show ?thesis using Cons.prems r \<open>e1 = Some IoEOF\<close> end_r f(1)
        by (auto simp: multi_fuel_def split: if_splits)
    qed
  next
    case False
    then have "bs = bs1" "e = e1" "rs' = r1 # rs" using Cons.prems r by auto
    then show ?thesis using f False by (cases e1) (auto simp: multi_fuel_def)
  qed
qed

text \<open>
  A reader built from readers that keep the contract keeps it. (A \<^verbatim>\<open>sublocale\<close>
  would interpret itself for ever; a provider interprets this lemma instead.)
\<close>

lemma stream_reader_multi:
  "stream_reader (multi_Read rd) (multi_content content final) (multi_final final) (multi_fuel fuel)"
proof unfold_locales
  fix rs rs' n bs e err
  show "multi_Read rd rs n = ((bs, e), rs') \<Longrightarrow> length bs \<le> n"
    and "multi_Read rd rs n = ((bs, e), rs') \<Longrightarrow>
      multi_content content final rs = bs @ multi_content content final rs'"
    and "multi_Read rd rs n = ((bs, e), rs') \<Longrightarrow> multi_final final rs' = multi_final final rs"
    by (blast dest: multi_Read_facts)+
  show "multi_Read rd rs n = ((bs, Some err), rs') \<Longrightarrow>
      multi_content content final rs' = [] \<and> err = multi_final final rs"
    and "multi_Read rd rs n = ((bs, None), rs') \<Longrightarrow> 0 < n \<Longrightarrow>
      multi_fuel fuel rs' < multi_fuel fuel rs"
    by (blast dest: multi_Read_facts)+
qed

end

end
