(* ===== verification/Go_Net.thy ===== *)
theory Go_Net
  imports Go_Io
begin

text \<open>
  The part of package \<^verbatim>\<open>net\<close> that both the PROXY protocol and the listeners use:
  IP addresses as byte slices with \<^verbatim>\<open>IP.To4\<close>, and the dynamic types of
  \<^verbatim>\<open>net.Addr\<close>.
\<close>

section \<open>IP addresses\<close>

text \<open>A \<^verbatim>\<open>net.IP\<close> is a byte slice of length 4 or 16; the nil slice is \<open>[]\<close>.\<close>

type_synonym ip = bytes

definition v4InV6Prefix :: bytes where
  "v4InV6Prefix = replicate 10 0 @ [0xff, 0xff]"

text \<open>\<^verbatim>\<open>IP.To4\<close>; \<open>None\<close> is the nil slice it returns for an address that is not IPv4.\<close>

definition To4 :: "ip \<Rightarrow> ip option" where
  "To4 i = (if length i = 4 then Some i
            else if length i = 16 \<and> take 12 i = v4InV6Prefix then Some (drop 12 i)
            else None)"

lemma length_v4InV6Prefix [simp]: "length v4InV6Prefix = 12"
  by (simp add: v4InV6Prefix_def)

lemma To4_length [go_bytes]: "To4 i = Some j \<Longrightarrow> length j = 4"
  by (auto simp: To4_def split: if_splits)

lemma To4_4 [simp, go_bytes]: "length i = 4 \<Longrightarrow> To4 i = Some i"
  by (simp add: To4_def)

lemma To4_mapped [simp]: "length i = 4 \<Longrightarrow> To4 (v4InV6Prefix @ i) = Some i"
  by (simp add: To4_def)

section \<open>Addresses\<close>

text \<open>
  The dynamic values of \<^verbatim>\<open>net.Addr\<close>: \<^verbatim>\<open>*net.TCPAddr\<close> and
  \<^verbatim>\<open>*net.UDPAddr\<close> (IP, port, zone; a port is a Go \<^verbatim>\<open>int\<close>),
  \<^verbatim>\<open>*net.UnixAddr\<close>, the placeholder \<^verbatim>\<open>multiAddr\<close> of \<^verbatim>\<open>multi.go\<close>,
  the nil interface, and any other type.
\<close>

datatype addr =
    TCPAddr ip int string
  | UDPAddr ip int string
  | UnixAddr string string
  | MultiAddr
  | NilAddr
  | OtherAddr string string



section \<open>A connection as a reader\<close>

text \<open>
  A \<^verbatim>\<open>net.Conn\<close> is a reader with two addresses that reading does not change.
\<close>

locale conn_reader = stream_reader +
  fixes laddr raddr :: "'s \<Rightarrow> addr"
  assumes read_laddr: "rd s n = (r, s') \<Longrightarrow> laddr s' = laddr s"
    and read_raddr: "rd s n = (r, s') \<Longrightarrow> raddr s' = raddr s"
begin

lemma read_loop_addrs:
  assumes "read_loop rd s n acc = Some (r, s')"
  shows "laddr s' = laddr s \<and> raddr s' = raddr s"
  using assms
proof (induction "fuel s" arbitrary: s acc rule: less_induct)
  case less
  show ?case
  proof (cases "n \<le> length acc")
    case True
    with less.prems show ?thesis by (simp add: read_loop.simps [of rd s n acc])
  next
    case False
    obtain bs e s1 where r1: "rd s (n - length acc) = ((bs, e), s1)"
      by (metis prod.exhaust)
    note keep = read_laddr [OF r1] read_raddr [OF r1]
    show ?thesis
    proof (cases e)
      case None
      with less.prems False r1 have "read_loop rd s1 n (acc @ bs) = Some (r, s')"
        by (simp add: read_loop.simps [of rd s n acc])
      moreover have "fuel s1 < fuel s" using read_progress r1 None False by simp
      ultimately show ?thesis using less.hyps keep by metis
    next
      case (Some err)
      with less.prems False r1 keep show ?thesis
        by (auto simp: read_loop.simps [of rd s n acc])
    qed
  qed
qed

lemma ReadFull_addrs:
  "ReadFull rd s n = Some (r, s') \<Longrightarrow> laddr s' = laddr s \<and> raddr s' = raddr s"
  by (auto simp: ReadFull_def dest: read_loop_addrs split: option.splits)

end

section \<open>Connections\<close>

text \<open>
  The reading side of a \<^verbatim>\<open>net.Conn\<close>: the segments still to arrive, the error
  after them (\<^verbatim>\<open>io.EOF\<close> when the peer closes, a timeout when the deadline passes
  first), and its two addresses. A read takes a segment, or the part of it that fits.
\<close>

record net_conn =
  rd_segments :: "bytes list"
  rd_final :: go_error
  conn_LocalAddr :: addr
  conn_RemoteAddr :: addr

definition conn_Read :: "net_conn \<Rightarrow> nat \<Rightarrow> (bytes \<times> go_error option) \<times> net_conn" where
  "conn_Read c n =
     (if n = 0 then (([], None), c)
      else case rd_segments c of
             [] \<Rightarrow> (([], Some (rd_final c)), c)
           | sg # sgs \<Rightarrow>
               ((take n sg, None),
                c\<lparr>rd_segments := (if length sg \<le> n then sgs else drop n sg # sgs)\<rparr>))"

definition conn_content :: "net_conn \<Rightarrow> bytes" where
  "conn_content c = concat (rd_segments c)"

definition conn_fuel :: "net_conn \<Rightarrow> nat" where
  "conn_fuel c = length (concat (rd_segments c)) + length (rd_segments c)"




lemma conn_Read_addrs:
  "conn_Read c n = (r, c') \<Longrightarrow>
     conn_LocalAddr c' = conn_LocalAddr c \<and> conn_RemoteAddr c' = conn_RemoteAddr c"
  by (auto simp: conn_Read_def split: if_splits list.splits)

interpretation cr: conn_reader conn_Read conn_content rd_final conn_fuel
  conn_LocalAddr conn_RemoteAddr
  by unfold_locales
    (auto simp: conn_Read_def conn_content_def conn_fuel_def split: if_splits list.splits)

end
