(* ===== verification/Proxy_Header.thy ===== *)
theory Proxy_Header
  imports Go_Net
begin

text \<open>
  \<^verbatim>\<open>proxy/header.go\<close>: the binary header of version 2 of the PROXY protocol.
  \<open>ReadHeader\<close> and \<open>parseProxyHeader\<close> read it from a connection, \<open>Format\<close> and its
  three helpers write it. The lemmas state what each family parses to, on every length,
  that \<open>ReadHeader\<close> consumes exactly the header, and when parsing undoes formatting.
\<close>

section \<open>Constants\<close>

definition protocolSignature :: bytes where
  "protocolSignature =
     [0x0D, 0x0A, 0x0D, 0x0A, 0x00, 0x0D, 0x0A, 0x51, 0x55, 0x49, 0x54, 0x0A]"

definition protocolVersion :: byte where "protocolVersion = 2"

definition commandLocal :: byte where "commandLocal = 0x00"
definition commandProxy :: byte where "commandProxy = 0x01"

definition familyUnspecified :: byte where "familyUnspecified = 0x00"
definition familyTCP4 :: byte where "familyTCP4 = 0x11"
definition familyUDP4 :: byte where "familyUDP4 = 0x12"
definition familyTCP6 :: byte where "familyTCP6 = 0x21"
definition familyUDP6 :: byte where "familyUDP6 = 0x22"

lemmas proxy_consts =
  protocolVersion_def commandLocal_def commandProxy_def familyUnspecified_def
  familyTCP4_def familyUDP4_def familyTCP6_def familyUDP6_def

lemma length_protocolSignature [simp]: "length protocolSignature = 12"
  by (simp add: protocolSignature_def)

section \<open>Parsing\<close>

record Header =
  RemoteAddr :: addr
  LocalAddr :: addr

text \<open>\<^verbatim>\<open>int(binary.BigEndian.Uint16(payload[lo:hi]))\<close>.\<close>

definition read_port :: "bytes \<Rightarrow> nat \<Rightarrow> nat \<Rightarrow> int" where
  "read_port payload lo hi = uint (be_Uint16 (go_slice payload lo hi))"

definition parseProxyHeader :: "byte \<Rightarrow> bytes \<Rightarrow> go_error + Header" where
  "parseProxyHeader family payload =
     (if family = familyTCP4 then
        if length payload < 12 then Inl (ErrorsNew ''header too short for TCP over IPv4'')
        else Inr \<lparr>RemoteAddr = TCPAddr (go_slice payload 0 4) (read_port payload 8 10) [],
                  LocalAddr = TCPAddr (go_slice payload 4 8) (read_port payload 10 12) []\<rparr>
      else if family = familyUDP4 then
        if length payload < 12 then Inl (ErrorsNew ''header too short for UDP over IPv4'')
        else Inr \<lparr>RemoteAddr = UDPAddr (go_slice payload 0 4) (read_port payload 8 10) [],
                  LocalAddr = UDPAddr (go_slice payload 4 8) (read_port payload 10 12) []\<rparr>
      else if family = familyTCP6 then
        if length payload < 36 then Inl (ErrorsNew ''header too short for TCP over IPv6'')
        else Inr \<lparr>RemoteAddr = TCPAddr (go_slice payload 0 16) (read_port payload 32 34) [],
                  LocalAddr = TCPAddr (go_slice payload 16 32) (read_port payload 34 36) []\<rparr>
      else if family = familyUDP6 then
        if length payload < 36 then Inl (ErrorsNew ''header too short for UDP over IPv6'')
        else Inr \<lparr>RemoteAddr = UDPAddr (go_slice payload 0 16) (read_port payload 32 34) [],
                  LocalAddr = UDPAddr (go_slice payload 16 32) (read_port payload 34 36) []\<rparr>
      else Inl (Errorf ''unsupported address family %x'' [ArgInt (uint family)]))"

text \<open>
  \<open>ReadHeader\<close> on any connection, given by its \<^verbatim>\<open>Read\<close>, \<^verbatim>\<open>LocalAddr\<close> and
  \<^verbatim>\<open>RemoteAddr\<close>. \<open>None\<close>: a read never returns.
\<close>

definition ReadHeader ::
  "'s reader \<Rightarrow> ('s \<Rightarrow> addr) \<Rightarrow> ('s \<Rightarrow> addr) \<Rightarrow> 's \<Rightarrow> ((go_error + Header) \<times> 's) option"
where
  "ReadHeader rd laddr raddr conn =
     (case ReadFull rd conn 16 of
        None \<Rightarrow> None
      | Some ((preamble, Some err), conn) \<Rightarrow> Some (Inl err, conn)
      | Some ((preamble, None), conn) \<Rightarrow>
          (let signature = go_slice preamble 0 12;
               version = drop_bit 4 (preamble ! 12);
               command = preamble ! 12 AND 0xF;
               family = preamble ! 13;
               len = be_Uint16 (go_slice preamble 14 16)
           in if signature \<noteq> protocolSignature
                then Some (Inl (ErrorsNew ''not a proxied connection''), conn)
              else if version \<noteq> protocolVersion
                then Some (Inl (ErrorsNew ''unsupported proxy protocol version''), conn)
              else
                (case ReadFull rd conn (unat len) of
                   None \<Rightarrow> None
                 | Some ((payload, Some err), conn) \<Rightarrow> Some (Inl err, conn)
                 | Some ((payload, None), conn) \<Rightarrow>
                     if command = commandLocal then
                       Some (Inr \<lparr>RemoteAddr = raddr conn, LocalAddr = laddr conn\<rparr>, conn)
                     else if command = commandProxy then
                       Some (parseProxyHeader family payload, conn)
                     else Some (Inl (Errorf ''unsupported proxy command %x''
                                       [ArgInt (uint command)]), conn))))"

section \<open>Formatting\<close>

definition formatIPv4Header :: "byte \<Rightarrow> ip \<Rightarrow> ip \<Rightarrow> int \<Rightarrow> int \<Rightarrow> bytes" where
  "formatIPv4Header family remoteIP localIP remotePort localPort =
     (let header = replicate 28 0;
          header = go_copy header 0 12 protocolSignature;
          header = header[12 := push_bit 4 protocolVersion OR commandProxy];
          header = header[13 := family];
          header = go_copy header 14 16 (be_PutUint16 12);
          header = go_copy header 16 20 (case To4 remoteIP of None \<Rightarrow> [] | Some i \<Rightarrow> i);
          header = go_copy header 20 24 (case To4 localIP of None \<Rightarrow> [] | Some i \<Rightarrow> i);
          header = go_copy header 24 26 (be_PutUint16 (word_of_int remotePort));
          header = go_copy header 26 28 (be_PutUint16 (word_of_int localPort))
      in header)"

definition formatIPv6Header :: "byte \<Rightarrow> ip \<Rightarrow> ip \<Rightarrow> int \<Rightarrow> int \<Rightarrow> bytes" where
  "formatIPv6Header family remoteIP localIP remotePort localPort =
     (let header = replicate 52 0;
          header = go_copy header 0 12 protocolSignature;
          header = header[12 := push_bit 4 protocolVersion OR commandProxy];
          header = header[13 := family];
          header = go_copy header 14 16 (be_PutUint16 36);
          header = go_copy header 16 32 remoteIP;
          header = go_copy header 32 48 localIP;
          header = go_copy header 48 50 (be_PutUint16 (word_of_int remotePort));
          header = go_copy header 50 52 (be_PutUint16 (word_of_int localPort))
      in header)"

definition formatUnspecifiedHeader :: bytes where
  "formatUnspecifiedHeader =
     (let header = replicate 16 0;
          header = go_copy header 0 12 protocolSignature;
          header = header[12 := push_bit 4 protocolVersion OR commandProxy];
          header = header[13 := familyUnspecified]
      in header)"

definition Format :: "Header \<Rightarrow> go_panic + bytes" where
  "Format header =
     (case RemoteAddr header of
        TCPAddr rip rport _ \<Rightarrow>
          (case LocalAddr header of
             TCPAddr lip lport _ \<Rightarrow>
               if To4 rip \<noteq> None then Inr (formatIPv4Header familyTCP4 rip lip rport lport)
               else Inr (formatIPv6Header familyTCP6 rip lip rport lport)
           | _ \<Rightarrow> Inl TypeAssertionPanic)
      | UDPAddr rip rport _ \<Rightarrow>
          (case LocalAddr header of
             UDPAddr lip lport _ \<Rightarrow>
               if To4 rip \<noteq> None then Inr (formatIPv4Header familyUDP4 rip lip rport lport)
               else Inr (formatIPv6Header familyUDP6 rip lip rport lport)
           | _ \<Rightarrow> Inl TypeAssertionPanic)
      | _ \<Rightarrow> Inr formatUnspecifiedHeader)"

section \<open>What a stream decodes to\<close>

text \<open>
  The reference: the header at the front of a byte stream, as a function of the bytes
  that will ever arrive (\<open>bs\<close>), the error that follows them (\<open>fin\<close>), and the two
  addresses of the connection. The second component is what is left unread.
\<close>

definition decode_body :: "addr \<Rightarrow> addr \<Rightarrow> byte \<Rightarrow> byte \<Rightarrow> bytes \<Rightarrow> go_error + Header" where
  "decode_body la ra vc family payload =
     (if vc AND 0xF = commandLocal then Inr \<lparr>RemoteAddr = ra, LocalAddr = la\<rparr>
      else if vc AND 0xF = commandProxy then parseProxyHeader family payload
      else Inl (Errorf ''unsupported proxy command %x'' [ArgInt (uint (vc AND 0xF))]))"

definition decode_stream :: "addr \<Rightarrow> addr \<Rightarrow> go_error \<Rightarrow> bytes \<Rightarrow> (go_error + Header) \<times> bytes" where
  "decode_stream la ra fin bs =
     (if length bs < 16 then (Inl (short_read_error bs fin), [])
      else let body = drop 16 bs; n = unat (be_Uint16 (take 2 (drop 14 bs)))
           in if take 12 bs \<noteq> protocolSignature
                then (Inl (ErrorsNew ''not a proxied connection''), body)
              else if drop_bit 4 (bs ! 12) \<noteq> protocolVersion
                then (Inl (ErrorsNew ''unsupported proxy protocol version''), body)
              else if length body < n then (Inl (short_read_error body fin), [])
              else (decode_body la ra (bs ! 12) (bs ! 13) (take n body), drop n body))"

context conn_reader
begin

text \<open>
  On every connection, however its bytes are split into segments, \<open>ReadHeader\<close>
  returns what the stream decodes to and leaves the rest of the stream unread.
\<close>

lemma ReadHeader_decode:
  obtains s' where "ReadHeader rd laddr raddr s =
      Some (fst (decode_stream (laddr s) (raddr s) (final s) (content s)), s')"
    and "content s' = snd (decode_stream (laddr s) (raddr s) (final s) (content s))"
proof (cases "length (content s) < 16")
  case True
  then obtain s1 where "ReadFull rd s 16 = Some ((content s,
      Some (short_read_error (content s) (final s))), s1)" "content s1 = []"
    using ReadFull_short [of s 16] by blast
  then show thesis using that True by (simp add: ReadHeader_def decode_stream_def)
next
  case False
  then obtain s1 where r1: "ReadFull rd s 16 = Some ((take 16 (content s), None), s1)"
    and c1: "content s1 = drop 16 (content s)" and f1: "final s1 = final s"
    using ReadFull_full [of 16 s] by (metis not_less)
  have a1: "laddr s1 = laddr s" "raddr s1 = raddr s" using ReadFull_addrs r1 by blast+
  define n where "n = unat (be_Uint16 (take 2 (drop 14 (content s))))"
  have slices: "go_slice (take 16 (content s)) 0 12 = take 12 (content s)"
    "go_slice (take 16 (content s)) 14 16 = take 2 (drop 14 (content s))"
    by (simp_all add: go_slice_def drop_take min_def)
  have nth: "take 16 (content s) ! 12 = content s ! 12" "take 16 (content s) ! 13 = content s ! 13"
    by simp_all
  let ?sig = "take 12 (content s) = protocolSignature"
  let ?ver = "drop_bit 4 (content s ! 12) = protocolVersion"
  show thesis
  proof (cases "?sig \<and> ?ver")
    case False
    then show thesis using that [of s1] r1 c1 slices \<open>\<not> length (content s) < 16\<close>
      by (auto simp: ReadHeader_def decode_stream_def Let_def)
  next
    case sv: True
    show thesis
    proof (cases "length (content s1) < n")
      case True
      then obtain s2 where "ReadFull rd s1 n = Some ((content s1,
          Some (short_read_error (content s1) (final s1))), s2)" "content s2 = []"
        using ReadFull_short [of s1 n] by blast
      then show thesis
        using that [of s2] False r1 c1 f1 True sv slices
        by (simp add: ReadHeader_def decode_stream_def Let_def n_def)
    next
      case False
      then obtain s2 where r2: "ReadFull rd s1 n = Some ((take n (content s1), None), s2)"
        and c2: "content s2 = drop n (content s1)"
        using ReadFull_full [of n s1] by (metis not_less)
      have a2: "laddr s2 = laddr s" "raddr s2 = raddr s" using ReadFull_addrs r2 a1 by metis+
      let ?body = "decode_body (laddr s) (raddr s) (content s ! 12) (content s ! 13)
        (take n (content s1))"
      have "ReadHeader rd laddr raddr s = Some (?body, s2)"
        using r1 r2 a2 sv slices nth
        by (simp add: ReadHeader_def decode_body_def Let_def n_def [symmetric])
      moreover have "decode_stream (laddr s) (raddr s) (final s) (content s)
          = (?body, drop n (content s1))"
        using c1 False sv \<open>\<not> length (content s) < 16\<close>
        by (simp add: decode_stream_def Let_def n_def [symmetric])
      ultimately show thesis using that [of s2] c2 by simp
    qed
  qed
qed

end

section \<open>The wire layout\<close>

definition wire :: "byte \<Rightarrow> byte \<Rightarrow> bytes \<Rightarrow> bytes" where
  "wire vc family payload =
     protocolSignature @ [vc, family] @ be_PutUint16 (word_of_nat (length payload)) @ payload"

lemma formatIPv4Header_wire:
  assumes "To4 rip = Some r" and "To4 lip = Some l"
  shows "formatIPv4Header f rip lip rp lp =
    wire 0x21 f (r @ l @ be_PutUint16 (word_of_int rp) @ be_PutUint16 (word_of_int lp))"
proof -
  note len = To4_length [OF assms(1)] To4_length [OF assms(2)]
  have "formatIPv4Header f rip lip rp lp =
    protocolSignature @ [0x21, f] @ be_PutUint16 12 @ r @ l
      @ be_PutUint16 (word_of_int rp) @ be_PutUint16 (word_of_int lp)"
    using assms len
    by (simp add: formatIPv4Header_def Let_def fill_simps proxy_consts del: append_assoc)
  then show ?thesis using len by (simp add: wire_def)
qed

lemma formatIPv6Header_wire:
  assumes "length rip = 16" and "length lip = 16"
  shows "formatIPv6Header f rip lip rp lp =
    wire 0x21 f (rip @ lip @ be_PutUint16 (word_of_int rp) @ be_PutUint16 (word_of_int lp))"
proof -
  have "formatIPv6Header f rip lip rp lp =
    protocolSignature @ [0x21, f] @ be_PutUint16 36 @ rip @ lip
      @ be_PutUint16 (word_of_int rp) @ be_PutUint16 (word_of_int lp)"
    using assms
    by (simp add: formatIPv6Header_def Let_def fill_simps proxy_consts del: append_assoc)
  then show ?thesis using assms by (simp add: wire_def)
qed

lemma formatUnspecifiedHeader_wire: "formatUnspecifiedHeader = wire 0x21 0 []"
proof -
  have "formatUnspecifiedHeader = protocolSignature @ [0x21, 0] @ replicate 2 0"
    by (simp add: formatUnspecifiedHeader_def Let_def fill_simps proxy_consts del: append_assoc)
  then show ?thesis by (simp add: wire_def be_PutUint16_def numeral_2_eq_2)
qed

lemma decode_stream_wire:
  assumes "length payload < 2 ^ 16" and "drop_bit 4 vc = protocolVersion"
  shows "decode_stream la ra fin (wire vc family payload @ rest) =
           (decode_body la ra vc family payload, rest)"
proof -
  have "unat (word_of_nat (length payload) :: uint16) = length payload"
    using assms(1) by (simp add: unat_of_nat take_bit_eq_mod)
  then show ?thesis using assms(2)
    by (simp add: decode_stream_def wire_def Let_def nth_append)
qed

section \<open>Parsing\<close>

text \<open>The length of the address block of a family; \<open>None\<close> for a family the code rejects.\<close>

definition block_length :: "byte \<Rightarrow> nat option" where
  "block_length family =
     (if family = familyTCP4 \<or> family = familyUDP4 then Some 12
      else if family = familyTCP6 \<or> family = familyUDP6 then Some 36 else None)"

lemma read_port_PutUint16 [simp]:
  "go_slice payload lo hi = be_PutUint16 v \<Longrightarrow> read_port payload lo hi = uint v"
  by (simp add: read_port_def)

lemma uint_word_of_int_port: "uint (word_of_int p :: uint16) = p mod 65536"
  by (simp add: uint_word_of_int)

lemma parseProxyHeader_ok_iff:
  "(\<exists>h. parseProxyHeader family payload = Inr h) \<longleftrightarrow>
     (\<exists>n. block_length family = Some n \<and> n \<le> length payload)"
  by (auto simp: parseProxyHeader_def block_length_def proxy_consts)

lemma parseProxyHeader_append:
  assumes "block_length family = Some n" and "n \<le> length payload"
  shows "parseProxyHeader family (payload @ extra) = parseProxyHeader family payload"
  using assms
  by (auto simp: parseProxyHeader_def block_length_def read_port_def go_slice_append_left
      split: if_splits)

text \<open>Four bytes of one address family and their ports, read back from a block.\<close>

lemma parse_block4:
  assumes "length r = 4" and "length l = 4"
  shows "go_slice (r @ l @ be_PutUint16 x @ be_PutUint16 y) 0 4 = r"
    and "go_slice (r @ l @ be_PutUint16 x @ be_PutUint16 y) 4 8 = l"
    and "read_port (r @ l @ be_PutUint16 x @ be_PutUint16 y) 8 10 = uint x"
    and "read_port (r @ l @ be_PutUint16 x @ be_PutUint16 y) 10 12 = uint y"
  using assms by (simp_all add: read_port_def go_slice_def)

lemma parse_block6:
  assumes "length r = 16" and "length l = 16"
  shows "go_slice (r @ l @ be_PutUint16 x @ be_PutUint16 y) 0 16 = r"
    and "go_slice (r @ l @ be_PutUint16 x @ be_PutUint16 y) 16 32 = l"
    and "read_port (r @ l @ be_PutUint16 x @ be_PutUint16 y) 32 34 = uint x"
    and "read_port (r @ l @ be_PutUint16 x @ be_PutUint16 y) 34 36 = uint y"
  using assms by (simp_all add: read_port_def go_slice_def)

section \<open>Round trips\<close>

text \<open>
  The headers the format can carry: both addresses TCP or both UDP, and both IPv4 or the
  remote one a real IPv6 address. \<open>canonical_header\<close> is what arrives: IPv4 addresses as
  four bytes, ports modulo \<open>2 ^ 16\<close>, no zone.
\<close>

definition ips_ok :: "ip \<Rightarrow> ip \<Rightarrow> bool" where
  "ips_ok r l \<longleftrightarrow> To4 r \<noteq> None \<and> To4 l \<noteq> None
     \<or> To4 r = None \<and> length r = 16 \<and> length l = 16"

fun proxyable :: "addr \<Rightarrow> addr \<Rightarrow> bool" where
  "proxyable (TCPAddr r _ _) (TCPAddr l _ _) = ips_ok r l"
| "proxyable (UDPAddr r _ _) (UDPAddr l _ _) = ips_ok r l"
| "proxyable _ _ = False"

definition wire_ip :: "ip \<Rightarrow> ip \<Rightarrow> ip" where
  "wire_ip r i = (if To4 r = None then i else the (To4 i))"

fun canonical_header :: "addr \<Rightarrow> addr \<Rightarrow> Header" where
  "canonical_header (TCPAddr r rp _) (TCPAddr l lp _) =
     \<lparr>RemoteAddr = TCPAddr (wire_ip r r) (rp mod 65536) [],
      LocalAddr = TCPAddr (wire_ip r l) (lp mod 65536) []\<rparr>"
| "canonical_header (UDPAddr r rp _) (UDPAddr l lp _) =
     \<lparr>RemoteAddr = UDPAddr (wire_ip r r) (rp mod 65536) [],
      LocalAddr = UDPAddr (wire_ip r l) (lp mod 65536) []\<rparr>"
| "canonical_header ra la = \<lparr>RemoteAddr = ra, LocalAddr = la\<rparr>"

lemma ips_ok_cases:
  assumes "ips_ok r l"
  obtains (v4) r4 l4 where "To4 r = Some r4" "To4 l = Some l4" "length r4 = 4" "length l4 = 4"
  | (v6) "To4 r = None" "length r = 16" "length l = 16"
  using assms To4_length by (auto simp: ips_ok_def)

definition addr_block :: "ip \<Rightarrow> ip \<Rightarrow> int \<Rightarrow> int \<Rightarrow> bytes" where
  "addr_block r l rp lp =
     r @ l @ be_PutUint16 (word_of_int rp) @ be_PutUint16 (word_of_int lp)"

lemma length_addr_block [simp]: "length (addr_block r l rp lp) = length r + length l + 4"
  by (simp add: addr_block_def)

lemmas block_simps = proxy_consts uint_word_of_int_port
  formatIPv4Header_wire [folded addr_block_def] formatIPv6Header_wire [folded addr_block_def]
  parse_block4 [where x = "word_of_int x" and y = "word_of_int y" for x y, folded addr_block_def]
  parse_block6 [where x = "word_of_int x" and y = "word_of_int y" for x y, folded addr_block_def]

text \<open>The formatted header is the proxy command with an address block that parses back.\<close>

lemma Format_wire:
  assumes "proxyable (RemoteAddr h) (LocalAddr h)"
  obtains family block where "Format h = Inr (wire 0x21 family block)" "length block < 2 ^ 16"
    and "parseProxyHeader family block = Inr (canonical_header (RemoteAddr h) (LocalAddr h))"
proof -
  have *: "\<exists>family block. Format h = Inr (wire 0x21 family block) \<and> length block < 2 ^ 16
      \<and> parseProxyHeader family block = Inr (canonical_header (RemoteAddr h) (LocalAddr h))"
  proof (cases "(RemoteAddr h, LocalAddr h)" rule: proxyable.cases)
    case (1 r rp rz l lp lz)
    then have "ips_ok r l" using assms by simp
    then show ?thesis
    proof (cases rule: ips_ok_cases)
      case (v4 r4 l4)
      then show ?thesis using 1
        by (intro exI [of _ familyTCP4] exI [of _ "addr_block r4 l4 rp lp"])
          (simp add: Format_def parseProxyHeader_def wire_ip_def block_simps)
    next
      case v6
      then show ?thesis using 1
        by (intro exI [of _ familyTCP6] exI [of _ "addr_block r l rp lp"])
          (simp add: Format_def parseProxyHeader_def wire_ip_def block_simps)
    qed
  next
    case (2 r rp rz l lp lz)
    then have "ips_ok r l" using assms by simp
    then show ?thesis
    proof (cases rule: ips_ok_cases)
      case (v4 r4 l4)
      then show ?thesis using 2
        by (intro exI [of _ familyUDP4] exI [of _ "addr_block r4 l4 rp lp"])
          (simp add: Format_def parseProxyHeader_def wire_ip_def block_simps)
    next
      case v6
      then show ?thesis using 2
        by (intro exI [of _ familyUDP6] exI [of _ "addr_block r l rp lp"])
          (simp add: Format_def parseProxyHeader_def wire_ip_def block_simps)
    qed
  qed (use assms in auto)
  then show thesis using that by blast
qed

text \<open>Formatting panics in no other way than on the assertion on the local address.\<close>

fun is_TCPAddr :: "addr \<Rightarrow> bool" where
  "is_TCPAddr (TCPAddr _ _ _) = True" | "is_TCPAddr _ = False"

fun is_UDPAddr :: "addr \<Rightarrow> bool" where
  "is_UDPAddr (UDPAddr _ _ _) = True" | "is_UDPAddr _ = False"

lemma Format_unspecified:
  "\<not> is_TCPAddr (RemoteAddr h) \<Longrightarrow> \<not> is_UDPAddr (RemoteAddr h) \<Longrightarrow>
     Format h = Inr (wire 0x21 familyUnspecified [])"
  by (cases "RemoteAddr h") (simp_all add: Format_def formatUnspecifiedHeader_wire proxy_consts)

section \<open>Properties\<close>

text \<open>
  C1: On every connection, whatever its segments, its end and its addresses,
  \<^verbatim>\<open>ReadHeader\<close> returns, its result is the one the byte stream decodes to, on
  every branch, and the bytes after the header are still to be read.
\<close>

theorem ReadHeader_decodes_stream:
  "\<exists>c'. ReadHeader conn_Read conn_LocalAddr conn_RemoteAddr c =
      Some (fst (decode_stream (conn_LocalAddr c) (conn_RemoteAddr c) (rd_final c) (conn_content c)), c')
    \<and> conn_content c' =
      snd (decode_stream (conn_LocalAddr c) (conn_RemoteAddr c) (rd_final c) (conn_content c))"
  by (rule cr.ReadHeader_decode [of c]) blast

text \<open>What \<open>ReadHeader\<close> does on a stream that starts with a well-formed version 2 header.\<close>

lemma ReadHeader_wire:
  assumes "conn_content c = wire vc family payload @ rest"
    and "length payload < 2 ^ 16" and "drop_bit 4 vc = protocolVersion"
  shows "\<exists>c'. ReadHeader conn_Read conn_LocalAddr conn_RemoteAddr c =
      Some (decode_body (conn_LocalAddr c) (conn_RemoteAddr c) vc family payload, c')
    \<and> conn_content c' = rest"
  by (rule cr.ReadHeader_decode [of c]) (auto simp: assms(1) decode_stream_wire [OF assms(2,3)])

lemma Format_ReadHeader_roundtrip_lemma:
  assumes "proxyable (RemoteAddr h) (LocalAddr h)"
  shows "\<exists>w. Format h = Inr w \<and> (\<forall>c rest. conn_content c = w @ rest \<longrightarrow>
    (\<exists>c'. ReadHeader conn_Read conn_LocalAddr conn_RemoteAddr c =
        Some (Inr (canonical_header (RemoteAddr h) (LocalAddr h)), c')
      \<and> conn_content c' = rest))"
proof -
  obtain f b where w: "Format h = Inr (wire 0x21 f b)" "length b < 2 ^ 16"
    and p: "parseProxyHeader f b = Inr (canonical_header (RemoteAddr h) (LocalAddr h))"
    using Format_wire [OF assms] by blast
  have "decode_body la ra 0x21 f b = parseProxyHeader f b" for la ra
    by (simp add: decode_body_def proxy_consts)
  then show ?thesis using ReadHeader_wire [of _ "0x21" f b] w p
    by (auto simp: protocolVersion_def)
qed

text \<open>
  C13: Round trip. For a pair of TCP or of UDP addresses whose IPs are both IPv4, or whose
  remote IP is IPv6, \<^verbatim>\<open>Format\<close> does not panic, and \<^verbatim>\<open>ReadHeader\<close> on any
  connection that carries the formatted bytes returns the same addresses (IPv4 as four
  bytes, ports modulo 65536) and leaves exactly the bytes behind the header.
\<close>

theorem Format_ReadHeader_roundtrip:
  assumes "proxyable (RemoteAddr h) (LocalAddr h)"
  shows "\<exists>w. Format h = Inr w \<and> (\<forall>c rest. conn_content c = w @ rest \<longrightarrow>
    (\<exists>c'. ReadHeader conn_Read conn_LocalAddr conn_RemoteAddr c =
        Some (Inr (canonical_header (RemoteAddr h) (LocalAddr h)), c')
      \<and> conn_content c' = rest))"
  using Format_ReadHeader_roundtrip_lemma [OF assms] .

theorem Format_ReadHeader_roundtrip_witness:
  "\<exists>w. Format \<lparr>RemoteAddr = TCPAddr [192, 0, 2, 1] 4242 [], LocalAddr = TCPAddr [10, 0, 0, 1] 443 []\<rparr> = Inr w
    \<and> (\<forall>c rest. conn_content c = w @ rest \<longrightarrow>
    (\<exists>c'. ReadHeader conn_Read conn_LocalAddr conn_RemoteAddr c =
        Some (Inr \<lparr>RemoteAddr = TCPAddr [192, 0, 2, 1] 4242 [], LocalAddr = TCPAddr [10, 0, 0, 1] 443 []\<rparr>, c')
      \<and> conn_content c' = rest))"
  using Format_ReadHeader_roundtrip
    [of "\<lparr>RemoteAddr = TCPAddr [192, 0, 2, 1] 4242 [], LocalAddr = TCPAddr [10, 0, 0, 1] 443 []\<rparr>"]
  by (simp add: ips_ok_def wire_ip_def)

text \<open>
  \<^verbatim>\<open>Format\<close> panics exactly when the remote address is TCP or UDP and the local
  address is of another type, always on the unchecked type assertion.
\<close>

theorem Format_panics_iff:
  "Format h = Inl p \<longleftrightarrow> p = TypeAssertionPanic \<and>
     (is_TCPAddr (RemoteAddr h) \<and> \<not> is_TCPAddr (LocalAddr h)
      \<or> is_UDPAddr (RemoteAddr h) \<and> \<not> is_UDPAddr (LocalAddr h))"
  by (cases "RemoteAddr h"; cases "LocalAddr h") (auto simp: Format_def)

text \<open>
  \<^verbatim>\<open>parseProxyHeader\<close> succeeds exactly for the four families, on payloads at
  least as long as the address block, and whatever follows the block (the TLV vectors of
  the protocol) does not change the result.
\<close>

theorem parseProxyHeader_block:
  "(\<exists>h. parseProxyHeader family payload = Inr h) \<longleftrightarrow>
     (\<exists>n. block_length family = Some n \<and> n \<le> length payload
        \<and> parseProxyHeader family payload = parseProxyHeader family (take n payload))"
proof -
  have "parseProxyHeader family payload = parseProxyHeader family (take n payload)"
    if "block_length family = Some n" "n \<le> length payload" for n
    using parseProxyHeader_append [of family n "take n payload" "drop n payload"] that by simp
  then show ?thesis unfolding parseProxyHeader_ok_iff by blast
qed

lemma split_block:
  fixes p :: bytes
  assumes "n + n + 4 \<le> length p"
  obtains r l a b c d extra where "p = r @ l @ [a, b] @ [c, d] @ extra" "length r = n" "length l = n"
proof -
  have four: "\<exists>a b c d e. q = a # b # c # d # e" if "4 \<le> length q" for q :: bytes
    using that by (auto simp: numeral_eq_Suc Suc_le_length_iff)
  have "4 \<le> length (drop (n + n) p)" using assms by simp
  from four [OF this] obtain a b c d extra where "drop (n + n) p = a # b # c # d # extra"
    by blast
  then have "p = take n p @ take n (drop n p) @ [a, b] @ [c, d] @ extra"
    by (metis append_Cons append_Nil append_take_drop_id drop_drop)
  then show thesis using that assms by simp
qed

lemma parse_block_bytes:
  assumes "length r = n" and "length l = n"
  shows "go_slice (r @ l @ [a, b] @ [c, d] @ e) 0 n = r"
    and "go_slice (r @ l @ [a, b] @ [c, d] @ e) n (n + n) = l"
    and "read_port (r @ l @ [a, b] @ [c, d] @ e) (n + n) (n + n + 2) = uint (be_Uint16 [a, b])"
    and "read_port (r @ l @ [a, b] @ [c, d] @ e) (n + n + 2) (n + n + 4) = uint (be_Uint16 [c, d])"
  using assms by (simp_all add: read_port_def go_slice_def numeral_eq_Suc)

text \<open>
  A header that was read and is formatted again (by a proxy in front of another
  server) is, byte for byte, the header that came in without its TLV vectors; for the
  IPv6 families, when the remote address is not an IPv4-mapped one.
\<close>

theorem parse_Format:
  assumes "parseProxyHeader family payload = Inr h" and "block_length family = Some n"
    and "n = 36 \<Longrightarrow> take 12 payload \<noteq> v4InV6Prefix"
  shows "Format h = Inr (wire 0x21 family (take n payload))"
proof -
  have len: "n \<le> length payload" and n: "n = 12 \<or> n = 36"
    using assms parseProxyHeader_ok_iff [of family payload]
    by (auto simp: block_length_def split: if_splits)
  define m where "m = (n - 4) div 2"
  then have m: "n = m + m + 4" using n by auto
  obtain r l a b c d e where p: "payload = r @ l @ [a, b] @ [c, d] @ e"
    and rl: "length r = m" "length l = m"
    using split_block [of m payload] len m by metis
  note blk = parse_block_bytes [OF rl, of a b c d e, folded p]
  have take_n: "take n payload = addr_block r l (uint (be_Uint16 [a, b])) (uint (be_Uint16 [c, d]))"
    by (simp add: p addr_block_def rl m)
  show ?thesis
  proof (cases "n = 12")
    case True
    then have "m = 4" "length r = 4" "length l = 4" using m rl by auto
    then show ?thesis using assms(1,2) True blk len unfolding take_n
      by (auto simp: parseProxyHeader_def block_length_def Format_def block_simps split: if_splits)
  next
    case False
    then have "m = 16" "length r = 16" "length l = 16" using n m rl by auto
    moreover from this have "To4 r = None"
      using assms(3) n False by (auto simp: To4_def p)
    ultimately show ?thesis using assms(1,2) n False blk len unfolding take_n
      by (auto simp: parseProxyHeader_def block_length_def Format_def block_simps split: if_splits)
  qed
qed

end
