(* ===== verification/Goroutines.thy ===== *)
theory Goroutines
  imports Go_Prelude "HOL-Library.Multiset"
begin

text \<open>
  Contracts shared by the two listeners that run goroutines (\<^verbatim>\<open>proxy/listener.go\<close>
  and \<^verbatim>\<open>multi.go\<close>). Both are step relations: one rule per communication or call,
  in any order the scheduler chooses. \<open>close_contract\<close> is the pattern of
  \<^verbatim>\<open>Close\<close>: a mutex, a select on the closed channel, and the close of the inner
  listeners by the first caller only. \<open>draining\<close> is the argument that no goroutine is
  left behind: some labels are the goroutines' own steps, each lowers a measure, and
  where none is possible everything has ended.
\<close>

section \<open>Closing once\<close>

locale close_contract =
  fixes step :: "'l \<Rightarrow> 's \<Rightarrow> 's \<Rightarrow> bool"
    and is_done :: "'s \<Rightarrow> bool"
    and closing :: "'s \<Rightarrow> bool"
    and results :: "'s \<Rightarrow> go_error option list"
  assumes done_stable: "step l s t \<Longrightarrow> is_done s \<Longrightarrow> is_done t"
    and close_begins: "step l s t \<Longrightarrow> \<not> closing s \<Longrightarrow> closing t \<Longrightarrow>
      \<not> is_done s \<and> is_done t \<and> results t = results s"
    and close_ends: "step l s t \<Longrightarrow> closing s \<Longrightarrow> \<not> closing t \<Longrightarrow>
      \<exists>r. results t = results s @ [r]"
    and close_held: "step l s t \<Longrightarrow> closing s \<Longrightarrow> closing t \<Longrightarrow> results t = results s"
    and close_free: "step l s t \<Longrightarrow> \<not> closing s \<Longrightarrow> \<not> closing t \<Longrightarrow>
      is_done t = is_done s \<and>
      (results t = results s \<or> is_done s \<and> results t = results s @ [Some NetErrClosed])"
begin

text \<open>
  Nothing is returned before the channel is closed; the first result belongs to the call
  that closed it; every other call got \<^verbatim>\<open>net.ErrClosed\<close>.
\<close>

definition close_inv :: "'s \<Rightarrow> bool" where
  "close_inv s \<longleftrightarrow>
     (if \<not> is_done s then \<not> closing s \<and> results s = []
      else if closing s then results s = []
      else results s \<noteq> [] \<and> (\<forall>r \<in> set (tl (results s)). r = Some NetErrClosed))"

lemma close_inv_step:
  assumes "step l s t" and "close_inv s"
  shows "close_inv t"
proof (cases "closing s"; cases "closing t")
  assume "closing s" "closing t"
  then show ?thesis using assms close_held done_stable by (auto simp: close_inv_def split: if_splits)
next
  assume "closing s" "\<not> closing t"
  then obtain r where "results t = results s @ [r]" "results s = []" "is_done t"
    using assms close_ends [OF assms(1)] done_stable by (auto simp: close_inv_def split: if_splits)
  then show ?thesis using \<open>\<not> closing t\<close>
    by (auto simp: close_inv_def)
next
  assume "\<not> closing s" "closing t"
  then show ?thesis using assms close_begins by (auto simp: close_inv_def)
next
  assume n: "\<not> closing s" "\<not> closing t"
  consider "results t = results s" | "is_done s" "results t = results s @ [Some NetErrClosed]"
    using close_free [OF assms(1) n] by blast
  then show ?thesis
  proof cases
    case 1
    then show ?thesis using n assms close_free [OF assms(1) n] by (simp add: close_inv_def)
  next
    case 2
    then show ?thesis using n assms(2) done_stable [OF assms(1)]
      by (auto simp: close_inv_def)
  qed
qed

lemma close_inv_run: "run step s ls t \<Longrightarrow> close_inv s \<Longrightarrow> close_inv t"
  by (erule run_invariant [where I = close_inv]) (auto intro: close_inv_step)

lemma done_run: "run step s ls t \<Longrightarrow> is_done s \<Longrightarrow> is_done t"
  by (erule run_invariant [where I = is_done]) (auto intro: done_stable)

lemma close_once:
  assumes "run step s ls t" and "\<not> is_done s" and "\<not> closing s" and "results s = []"
  shows "\<forall>r \<in> set (tl (results t)). r = Some NetErrClosed"
proof -
  have "close_inv s" using assms by (simp add: close_inv_def)
  then have "close_inv t" using assms close_inv_run by blast
  then show ?thesis by (auto simp: close_inv_def split: if_splits)
qed

end

section \<open>Draining\<close>

text \<open>A run of steps with internal labels only.\<close>

inductive drain_run ::
  "('l \<Rightarrow> 's \<Rightarrow> bool) \<Rightarrow> ('l \<Rightarrow> 's \<Rightarrow> 's \<Rightarrow> bool) \<Rightarrow> 's \<Rightarrow> 'l list \<Rightarrow> 's \<Rightarrow> bool"
  for internal step
where
  drain_Nil: "drain_run internal step s [] s"
| drain_Cons: "internal l s \<Longrightarrow> step l s t \<Longrightarrow> drain_run internal step t ls u \<Longrightarrow>
    drain_run internal step s (l # ls) u"

lemma drain_run_run: "drain_run internal step s ls t \<Longrightarrow> run step s ls t"
  by (induction rule: drain_run.induct) (auto intro: run.intros)

locale draining =
  fixes step :: "'l \<Rightarrow> 's \<Rightarrow> 's \<Rightarrow> bool"
    and internal :: "'l \<Rightarrow> 's \<Rightarrow> bool"
    and ok :: "'s \<Rightarrow> bool"
    and ended :: "'s \<Rightarrow> bool"
    and work :: "'s \<Rightarrow> nat"
  assumes ok_step: "step l s t \<Longrightarrow> ok s \<Longrightarrow> ok t"
    and work_decreases: "step l s t \<Longrightarrow> ok s \<Longrightarrow> internal l s \<Longrightarrow> work t < work s"
    and progress: "ok s \<Longrightarrow> \<not> ended s \<Longrightarrow> \<exists>l t. internal l s \<and> step l s t"
begin

lemma drain_run_bound:
  "drain_run internal step s ls t \<Longrightarrow> ok s \<Longrightarrow> length ls + work t \<le> work s"
proof (induction rule: drain_run.induct)
  case (drain_Cons l s t ls u)
  then show ?case using ok_step [of l s t] work_decreases [of l s t] by simp
qed simp

lemma drain_exists: "ok s \<Longrightarrow> \<exists>ls t. drain_run internal step s ls t \<and> ended t"
proof (induction "work s" arbitrary: s rule: less_induct)
  case less
  show ?case
  proof (cases "ended s")
    case True
    then show ?thesis using drain_run.drain_Nil [of internal step s] by blast
  next
    case False
    then obtain l t where l: "internal l s" "step l s t"
      using progress less.prems by blast
    then have "work t < work s" "ok t"
      using work_decreases ok_step less.prems by blast+
    then obtain ls u where "drain_run internal step t ls u" "ended u" using less.hyps by blast
    then show ?thesis using l drain_run.drain_Cons [of internal l s step t] by blast
  qed
qed

text \<open>However the scheduler orders them, when no internal step is left all has ended.\<close>

lemma drained:
  assumes "ok s" and "run step s ls t" and "\<nexists>l u. internal l t \<and> step l t u"
  shows "ended t"
proof -
  have "ok t" using assms(2,1) by (rule run_invariant [where I = ok]) (auto intro: ok_step)
  then show ?thesis using progress assms(3) by blast
qed

end

end
