(* ===== verification/Proxy_Listener.thy ===== *)
theory Proxy_Listener
  imports Proxy_Header Goroutines
begin

text \<open>
  \<^verbatim>\<open>proxy/listener.go\<close>, \<^verbatim>\<open>proxy/conn.go\<close> and \<^verbatim>\<open>proxy/error.go\<close>: the
  listener that reads a PROXY header from every connection before it hands it out.
  Its goroutines (the accept loop, one handler for each connection, the callers of
  \<^verbatim>\<open>Accept\<close> and \<^verbatim>\<open>Close\<close>) are a step relation. A send on one of the two
  unbuffered channels is a step of the sender and of a caller blocked in
  \<^verbatim>\<open>Accept\<close> together. The lists of accepted, delivered and closed connections and
  of returned errors are histories; no guard reads them except that a connection
  accepted from the inner listener is a new one.
\<close>

section \<open>Connections and errors\<close>

text \<open>
  \<^verbatim>\<open>proxyConn\<close>: the inner connection, named by a number and with what is left to read
  from it, and the addresses of its header in place of its own. \<^verbatim>\<open>Read\<close> is that of the
  inner connection.
\<close>

type_synonym conn_id = nat

record proxyConn =
  Conn :: conn_id
  connState :: net_conn
  localAddr :: addr
  remoteAddr :: addr

definition proxyConn_LocalAddr :: "proxyConn \<Rightarrow> addr" where
  "proxyConn_LocalAddr conn = localAddr conn"

definition proxyConn_RemoteAddr :: "proxyConn \<Rightarrow> addr" where
  "proxyConn_RemoteAddr conn = remoteAddr conn"

definition proxyConn_NetConn :: "proxyConn \<Rightarrow> conn_id" where
  "proxyConn_NetConn conn = Conn conn"

definition proxyConn_Read :: "proxyConn \<Rightarrow> nat \<Rightarrow> (bytes \<times> go_error option) \<times> proxyConn" where
  "proxyConn_Read conn n =
     (case conn_Read (connState conn) n of (r, c) \<Rightarrow> (r, conn\<lparr>connState := c\<rparr>))"

text \<open>\<^verbatim>\<open>acceptError\<close> and its methods.\<close>

definition acceptError_temporary :: "go_error \<Rightarrow> go_error" where
  "acceptError_temporary err = AcceptError err True"

fun acceptError_Temporary :: "go_error \<Rightarrow> bool" where
  "acceptError_Temporary (AcceptError _ t) = t"
| "acceptError_Temporary _ = False"

fun acceptError_Timeout :: "go_error \<Rightarrow> bool" where
  "acceptError_Timeout _ = False"

section \<open>State\<close>

text \<open>
  Where a handler is: about to set the deadline, reading the header, about to clear the
  deadline (with the connection as reading the header left it), or sending its connection or
  its error.
\<close>

datatype handler =
    HSetDeadline conn_id
  | HReadHeader conn_id
  | HClearDeadline conn_id net_conn Header
  | HSendConn proxyConn
  | HSendError go_error

datatype loop_pc = LAccept | LSendError go_error | LExited

text \<open>
  \<open>p_closing\<close>: a \<^verbatim>\<open>Close\<close> call holds \<^verbatim>\<open>closeMu\<close>, has closed \<^verbatim>\<open>done\<close>
  and is about to close the inner listener.
\<close>

record proxy_state =
  p_done :: bool
  p_closing :: bool
  p_inner_closes :: nat
  p_loop :: loop_pc
  p_handlers :: "handler multiset"
  p_callers :: nat
  p_accepted :: "conn_id list"
  p_delivered :: "proxyConn list"
  p_closed :: "conn_id list"
  p_errors :: "go_error list"
  p_close_results :: "go_error option list"

text \<open>\<^verbatim>\<open>NewListener\<close>: channels open, accept loop started.\<close>

definition NewListener :: proxy_state where
  "NewListener = \<lparr>p_done = False, p_closing = False, p_inner_closes = 0, p_loop = LAccept,
     p_handlers = {#}, p_callers = 0, p_accepted = [], p_delivered = [], p_closed = [],
     p_errors = [], p_close_results = []\<rparr>"

section \<open>Steps\<close>

datatype proxy_label =
    PAcceptCall | PAcceptDone
  | PCloseFirst | PCloseInner "go_error option" | PCloseAgain
  | PInnerConn conn_id | PInnerError go_error
  | PLoopSent | PLoopDone
  | PSetDeadline conn_id "go_error option"
  | PReadHeader conn_id
  | PClearDeadline conn_id Header "go_error option"
  | PConnSent proxyConn | PConnDone proxyConn
  | PErrorSent go_error | PErrorDone go_error

text \<open>
  The two receive branches of \<^verbatim>\<open>Accept\<close>, taken together with the send branch of
  \<open>sendConn\<close> and \<open>sendError\<close>: one blocked caller returns.
\<close>

definition Accept_conn :: "proxyConn \<Rightarrow> proxy_state \<Rightarrow> proxy_state" where
  "Accept_conn conn s =
     s\<lparr>p_callers := p_callers s - 1, p_delivered := p_delivered s @ [conn]\<rparr>"

definition Accept_error :: "go_error \<Rightarrow> proxy_state \<Rightarrow> proxy_state" where
  "Accept_error err s =
     s\<lparr>p_callers := p_callers s - 1, p_errors := p_errors s @ [err]\<rparr>"

text \<open>\<^verbatim>\<open>sendConn\<close> and \<^verbatim>\<open>sendError\<close>: the result, and the state after a
  successful send. Where both branches of the select are possible, either is.\<close>

inductive sendConn :: "proxyConn \<Rightarrow> proxy_state \<Rightarrow> bool \<Rightarrow> proxy_state \<Rightarrow> bool" where
  "0 < p_callers s \<Longrightarrow> sendConn conn s True (Accept_conn conn s)"
| "p_done s \<Longrightarrow> sendConn conn s False s"

inductive sendError :: "go_error \<Rightarrow> proxy_state \<Rightarrow> bool \<Rightarrow> proxy_state \<Rightarrow> bool" where
  "0 < p_callers s \<Longrightarrow> sendError err s True (Accept_error err s)"
| "p_done s \<Longrightarrow> sendError err s False s"

text \<open>\<^verbatim>\<open>Accept\<close>: a call blocks; once \<^verbatim>\<open>done\<close> is closed it may return.\<close>

inductive Accept_step :: "proxy_label \<Rightarrow> proxy_state \<Rightarrow> proxy_state \<Rightarrow> bool" where
  "Accept_step PAcceptCall s (s\<lparr>p_callers := Suc (p_callers s)\<rparr>)"
| "0 < p_callers s \<Longrightarrow> p_done s \<Longrightarrow> Accept_step PAcceptDone s (Accept_error NetErrClosed s)"

text \<open>
  \<^verbatim>\<open>Close\<close>, in two steps for the first caller: other goroutines may see \<^verbatim>\<open>done\<close>
  closed while the inner listener is still open, other closers wait for the mutex.
\<close>

inductive Close_step :: "proxy_label \<Rightarrow> proxy_state \<Rightarrow> proxy_state \<Rightarrow> bool" where
  "\<not> p_closing s \<Longrightarrow> \<not> p_done s \<Longrightarrow>
     Close_step PCloseFirst s (s\<lparr>p_done := True, p_closing := True\<rparr>)"
| "p_closing s \<Longrightarrow>
     Close_step (PCloseInner r) s
       (s\<lparr>p_closing := False, p_inner_closes := Suc (p_inner_closes s),
          p_close_results := p_close_results s @ [r]\<rparr>)"
| "\<not> p_closing s \<Longrightarrow> p_done s \<Longrightarrow>
     Close_step PCloseAgain s (s\<lparr>p_close_results := p_close_results s @ [Some NetErrClosed]\<rparr>)"

text \<open>\<^verbatim>\<open>handleAccepts\<close>. The result of the inner \<^verbatim>\<open>Accept\<close> is the environment's.\<close>

inductive handleAccepts_step :: "proxy_label \<Rightarrow> proxy_state \<Rightarrow> proxy_state \<Rightarrow> bool" where
  "p_loop s = LAccept \<Longrightarrow> errors_Is err NetErrClosed \<Longrightarrow>
     handleAccepts_step (PInnerError err) s (s\<lparr>p_loop := LExited\<rparr>)"
| "p_loop s = LAccept \<Longrightarrow> \<not> errors_Is err NetErrClosed \<Longrightarrow>
     handleAccepts_step (PInnerError err) s (s\<lparr>p_loop := LSendError err\<rparr>)"
| "p_loop s = LSendError err \<Longrightarrow> sendError err s True t \<Longrightarrow>
     handleAccepts_step PLoopSent s (t\<lparr>p_loop := LAccept\<rparr>)"
| "p_loop s = LSendError err \<Longrightarrow> sendError err s False t \<Longrightarrow>
     handleAccepts_step PLoopDone s (t\<lparr>p_loop := LExited\<rparr>)"
| "p_loop s = LAccept \<Longrightarrow> c \<notin> set (p_accepted s) \<Longrightarrow>
     handleAccepts_step (PInnerConn c) s
       (s\<lparr>p_accepted := p_accepted s @ [c],
          p_handlers := add_mset (HSetDeadline c) (p_handlers s)\<rparr>)"

text \<open>A handler moves on, or ends.\<close>

definition handler_to :: "handler \<Rightarrow> handler \<Rightarrow> proxy_state \<Rightarrow> proxy_state" where
  "handler_to h h' s = s\<lparr>p_handlers := add_mset h' (p_handlers s - {#h#})\<rparr>"

definition handler_end :: "handler \<Rightarrow> proxy_state \<Rightarrow> proxy_state" where
  "handler_end h s = s\<lparr>p_handlers := p_handlers s - {#h#}\<rparr>"

definition conn_Close :: "conn_id \<Rightarrow> proxy_state \<Rightarrow> proxy_state" where
  "conn_Close c s = s\<lparr>p_closed := p_closed s @ [c]\<rparr>"

definition proxied :: "conn_id \<Rightarrow> net_conn \<Rightarrow> Header \<Rightarrow> proxyConn" where
  "proxied c c' header = \<lparr>Conn = c, connState = c', localAddr = LocalAddr header, remoteAddr = RemoteAddr header\<rparr>"

text \<open>
  \<^verbatim>\<open>handleConnection\<close>. \<open>net c\<close> is connection \<open>c\<close> as it was accepted; what its
  \<^verbatim>\<open>SetReadDeadline\<close> calls return is the environment's.
\<close>

inductive handleConnection_step ::
  "(conn_id \<Rightarrow> net_conn) \<Rightarrow> proxy_label \<Rightarrow> proxy_state \<Rightarrow> proxy_state \<Rightarrow> bool"
  for net
where
  "HSetDeadline c \<in># p_handlers s \<Longrightarrow>
     handleConnection_step net (PSetDeadline c (Some err)) s
       (handler_to (HSetDeadline c) (HSendError (acceptError_temporary err)) (conn_Close c s))"
| "HSetDeadline c \<in># p_handlers s \<Longrightarrow>
     handleConnection_step net (PSetDeadline c None) s
       (handler_to (HSetDeadline c) (HReadHeader c) s)"
| "HReadHeader c \<in># p_handlers s \<Longrightarrow>
   ReadHeader conn_Read conn_LocalAddr conn_RemoteAddr (net c) = Some (Inl err, c') \<Longrightarrow>
     handleConnection_step net (PReadHeader c) s
       (handler_to (HReadHeader c)
          (HSendError (acceptError_temporary (ErrorfW ''reading proxy header: %w'' [] err)))
          (conn_Close c s))"
| "HReadHeader c \<in># p_handlers s \<Longrightarrow>
   ReadHeader conn_Read conn_LocalAddr conn_RemoteAddr (net c) = Some (Inr header, c') \<Longrightarrow>
     handleConnection_step net (PReadHeader c) s
       (handler_to (HReadHeader c) (HClearDeadline c c' header) s)"
| "HClearDeadline c c' header \<in># p_handlers s \<Longrightarrow>
     handleConnection_step net (PClearDeadline c header (Some err)) s
       (handler_to (HClearDeadline c c' header) (HSendError (acceptError_temporary err)) (conn_Close c s))"
| "HClearDeadline c c' header \<in># p_handlers s \<Longrightarrow>
     handleConnection_step net (PClearDeadline c header None) s
       (handler_to (HClearDeadline c c' header) (HSendConn (proxied c c' header)) s)"
| "HSendConn conn \<in># p_handlers s \<Longrightarrow> sendConn conn s True t \<Longrightarrow>
     handleConnection_step net (PConnSent conn) s (handler_end (HSendConn conn) t)"
| "HSendConn conn \<in># p_handlers s \<Longrightarrow> sendConn conn s False t \<Longrightarrow>
     handleConnection_step net (PConnDone conn) s
       (conn_Close (Conn conn) (handler_end (HSendConn conn) t))"
| "HSendError err \<in># p_handlers s \<Longrightarrow> sendError err s True t \<Longrightarrow>
     handleConnection_step net (PErrorSent err) s (handler_end (HSendError err) t)"
| "HSendError err \<in># p_handlers s \<Longrightarrow> sendError err s False t \<Longrightarrow>
     handleConnection_step net (PErrorDone err) s (handler_end (HSendError err) t)"

inductive proxy_step ::
  "(conn_id \<Rightarrow> net_conn) \<Rightarrow> proxy_label \<Rightarrow> proxy_state \<Rightarrow> proxy_state \<Rightarrow> bool"
  for net
where
  "Accept_step l s t \<Longrightarrow> proxy_step net l s t"
| "Close_step l s t \<Longrightarrow> proxy_step net l s t"
| "handleAccepts_step l s t \<Longrightarrow> proxy_step net l s t"
| "handleConnection_step net l s t \<Longrightarrow> proxy_step net l s t"

lemmas proxy_updates = Accept_conn_def Accept_error_def handler_to_def handler_end_def
  conn_Close_def proxied_def acceptError_temporary_def

lemmas proxy_steps = Accept_step.simps Close_step.simps handleAccepts_step.simps
  handleConnection_step.simps sendConn.simps sendError.simps

inductive_simps sendConn_iff: "sendConn conn s b t"
inductive_simps sendError_iff: "sendError err s b t"
inductive_cases proxy_stepE: "proxy_step net l s t"
inductive_cases Accept_stepE: "Accept_step l s t"
inductive_cases Close_stepE: "Close_step l s t"
inductive_cases handleAccepts_stepE: "handleAccepts_step l s t"
inductive_cases handleConnection_stepE: "handleConnection_step net l s t"

lemmas proxy_step_elims = proxy_stepE Accept_stepE Close_stepE handleAccepts_stepE
  handleConnection_stepE

text \<open>A run that starts with a step of one of the functions.\<close>

lemma run_Accept: "Accept_step l s t \<Longrightarrow> run (proxy_step net) t ls u \<Longrightarrow> run (proxy_step net) s (l # ls) u"
  and run_Close: "Close_step l s t \<Longrightarrow> run (proxy_step net) t ls u \<Longrightarrow> run (proxy_step net) s (l # ls) u"
  and run_loop: "handleAccepts_step l s t \<Longrightarrow> run (proxy_step net) t ls u \<Longrightarrow>
      run (proxy_step net) s (l # ls) u"
  and run_handler: "handleConnection_step net l s t \<Longrightarrow> run (proxy_step net) t ls u \<Longrightarrow>
      run (proxy_step net) s (l # ls) u"
  by (auto intro: run_Cons proxy_step.intros)

section \<open>Closing\<close>

interpretation pc: close_contract "proxy_step net" p_done p_closing p_close_results
  by unfold_locales
    (auto elim!: proxy_step_elims simp: sendConn_iff sendError_iff proxy_updates)

lemma p_inner_closes_inv:
  assumes "run (proxy_step net) s ls t"
    and "p_inner_closes s = (if p_done s \<and> \<not> p_closing s then 1 else 0)"
    and "p_closing s \<longrightarrow> p_done s"
  shows "p_inner_closes t = (if p_done t \<and> \<not> p_closing t then 1 else 0)"
proof -
  let ?I = "\<lambda>s. p_inner_closes s = (if p_done s \<and> \<not> p_closing s then 1 else 0)
    \<and> (p_closing s \<longrightarrow> p_done s)"
  have "?I t"
    using assms(1)
  proof (rule run_invariant [where I = ?I])
    show "?I s" using assms by simp
  next
    fix l s t assume "proxy_step net l s t" and "?I s"
    then show "?I t"
      by (auto elim!: proxy_step_elims simp: sendConn_iff sendError_iff proxy_updates split: if_splits)
  qed
  then show ?thesis by simp
qed

section \<open>No connection is lost\<close>

fun handler_conns :: "handler \<Rightarrow> conn_id multiset" where
  "handler_conns (HSetDeadline c) = {#c#}"
| "handler_conns (HReadHeader c) = {#c#}"
| "handler_conns (HClearDeadline c _ _) = {#c#}"
| "handler_conns (HSendConn conn) = {#Conn conn#}"
| "handler_conns (HSendError _) = {#}"

definition in_flight :: "proxy_state \<Rightarrow> conn_id multiset" where
  "in_flight s = \<Sum>\<^sub># (image_mset handler_conns (p_handlers s))"

definition conserved :: "proxy_state \<Rightarrow> bool" where
  "conserved s \<longleftrightarrow> distinct (p_accepted s) \<and>
     mset (p_accepted s) =
       in_flight s + mset (map Conn (p_delivered s)) + mset (p_closed s)"

text \<open>One handler replaced or removed.\<close>

lemma in_flight_remove:
  "h \<in># H \<Longrightarrow> \<Sum>\<^sub># (image_mset handler_conns H) =
     handler_conns h + \<Sum>\<^sub># (image_mset handler_conns (H - {#h#}))"
  by (metis insert_DiffM image_mset_add_mset sum_mset.insert)

lemma conserved_step:
  assumes "proxy_step net l s t" and "conserved s"
  shows "conserved t"
  using assms(1)
proof cases
  case 4
  then show ?thesis using assms(2)
    by cases (auto simp: conserved_def in_flight_def proxy_updates sendConn_iff sendError_iff
        dest!: in_flight_remove)
qed (use assms(2) in \<open>auto elim!: Accept_stepE Close_stepE handleAccepts_stepE
      simp: conserved_def in_flight_def proxy_updates sendError_iff\<close>)

lemma conserved_run:
  "run (proxy_step net) NewListener ls s \<Longrightarrow> conserved s"
  by (erule run_invariant [OF _ _ conserved_step])
    (simp_all add: conserved_def in_flight_def NewListener_def)

section \<open>What a delivered connection and a returned error are\<close>

text \<open>The header at the front of connection \<open>c\<close>.\<close>

definition stream_header :: "net_conn \<Rightarrow> go_error + Header" where
  "stream_header c =
     fst (decode_stream (conn_LocalAddr c) (conn_RemoteAddr c) (rd_final c) (conn_content c))"

lemma ReadHeader_stream_header:
  "\<exists>c'. ReadHeader conn_Read conn_LocalAddr conn_RemoteAddr c = Some (stream_header c, c')"
  by (rule cr.ReadHeader_decode [of c]) (auto simp: stream_header_def)

text \<open>
  A connection handed out is as \<open>ReadHeader\<close> left it, with the addresses it returned.
\<close>

definition conn_ok :: "(conn_id \<Rightarrow> net_conn) \<Rightarrow> proxyConn \<Rightarrow> bool" where
  "conn_ok net p \<longleftrightarrow> ReadHeader conn_Read conn_LocalAddr conn_RemoteAddr (net (Conn p)) =
     Some (Inr \<lparr>RemoteAddr = remoteAddr p, LocalAddr = localAddr p\<rparr>, connState p)"

lemma conn_ok_stream:
  assumes "conn_ok net p"
  shows "stream_header (net (Conn p)) = Inr \<lparr>RemoteAddr = remoteAddr p, LocalAddr = localAddr p\<rparr>"
    and "conn_content (connState p) = snd (decode_stream (conn_LocalAddr (net (Conn p)))
      (conn_RemoteAddr (net (Conn p))) (rd_final (net (Conn p))) (conn_content (net (Conn p))))"
  using assms by (rule_tac [!] cr.ReadHeader_decode [of "net (Conn p)"]) (auto simp: conn_ok_def stream_header_def)

fun handler_ok :: "(conn_id \<Rightarrow> net_conn) \<Rightarrow> handler \<Rightarrow> bool" where
  "handler_ok net (HClearDeadline c c' h) \<longleftrightarrow>
     ReadHeader conn_Read conn_LocalAddr conn_RemoteAddr (net c) = Some (Inr h, c')"
| "handler_ok net (HSendConn p) \<longleftrightarrow> conn_ok net p"
| "handler_ok net (HSendError e) \<longleftrightarrow> acceptError_Temporary e"
| "handler_ok net _ \<longleftrightarrow> True"

lemma temporary_not_closed: "acceptError_Temporary e \<Longrightarrow> \<not> errors_Is e NetErrClosed"
  by (cases e) simp_all

text \<open>
  An error from \<^verbatim>\<open>Accept\<close> is that of \<^verbatim>\<open>Close\<close>, a temporary one about a single
  connection, or one of the inner listener that does not say it is closed.
\<close>

definition sound :: "(conn_id \<Rightarrow> net_conn) \<Rightarrow> proxy_state \<Rightarrow> bool" where
  "sound net s \<longleftrightarrow>
     (\<forall>h \<in># p_handlers s. handler_ok net h) \<and> (\<forall>p \<in> set (p_delivered s). conn_ok net p)
     \<and> (\<forall>e. p_loop s = LSendError e \<longrightarrow> \<not> errors_Is e NetErrClosed)
     \<and> (\<forall>e \<in> set (p_errors s). errors_Is e NetErrClosed \<longrightarrow> p_done s)"

lemma sound_handler_step:
  assumes "handleConnection_step net l s t" and "sound net s"
  shows "sound net t"
proof -
  note S = assms(2) [unfolded sound_def]
  have H: "h \<in># p_handlers s \<Longrightarrow> handler_ok net h" for h using S by blast
  show ?thesis using assms(1)
  proof cases
    case (3 c err c')
    then show ?thesis using S by (auto simp: sound_def proxy_updates dest: in_diffD)
  next
    case (4 c header c')
    then show ?thesis using S by (auto simp: sound_def proxy_updates dest: in_diffD)
  next
    case (6 c c' header)
    then have "conn_ok net (proxied c c' header)" using H [of "HClearDeadline c c' header"]
      by (simp add: conn_ok_def proxied_def)
    then show ?thesis using 6 S
      by (auto simp: sound_def handler_to_def dest: in_diffD)
  next
    case (7 conn)
    then have "conn_ok net conn" using H [of "HSendConn conn"] by simp
    then show ?thesis using 7 S by (auto simp: sound_def proxy_updates sendConn_iff dest: in_diffD)
  next
    case (8 conn)
    then show ?thesis using S by (auto simp: sound_def proxy_updates sendConn_iff dest: in_diffD)
  next
    case (9 err)
    then have "\<not> errors_Is err NetErrClosed" using H [of "HSendError err"] temporary_not_closed by simp
    then show ?thesis using 9 S
      by (auto simp: sound_def proxy_updates sendError_iff dest: in_diffD)
  next
    case (10 err)
    then show ?thesis using S by (auto simp: sound_def proxy_updates sendError_iff dest: in_diffD)
  qed (use S in \<open>auto simp: sound_def proxy_updates dest: in_diffD\<close>)
qed

lemma sound_step:
  assumes "proxy_step net l s t" and "sound net s"
  shows "sound net t"
  using assms(1)
proof cases
  case 4
  then show ?thesis using assms(2) by (rule sound_handler_step)
qed (use assms(2) in \<open>auto elim!: Accept_stepE Close_stepE handleAccepts_stepE
      simp: sound_def proxy_updates sendError_iff\<close>)

lemma sound_run: "run (proxy_step net) NewListener ls s \<Longrightarrow> sound net s"
  by (erule run_invariant [OF _ _ sound_step]) (simp_all add: sound_def NewListener_def)

section \<open>After Close every goroutine ends\<close>

text \<open>
  The steps the goroutines take by themselves, with the answer of the inner listener's
  \<^verbatim>\<open>Accept\<close> once it has been closed. Not internal: new calls, and connections or
  other errors that the inner listener still produces.
\<close>

fun p_internal :: "proxy_label \<Rightarrow> proxy_state \<Rightarrow> bool" where
  "p_internal PAcceptCall s = False"
| "p_internal PCloseFirst s = False"
| "p_internal PCloseAgain s = False"
| "p_internal (PInnerConn c) s = False"
| "p_internal (PInnerError e) s = (0 < p_inner_closes s \<and> errors_Is e NetErrClosed)"
| "p_internal _ s = True"

definition p_ended :: "proxy_state \<Rightarrow> bool" where
  "p_ended s \<longleftrightarrow>
     p_loop s = LExited \<and> p_handlers s = {#} \<and> p_callers s = 0 \<and> \<not> p_closing s"

definition p_close_called :: "proxy_state \<Rightarrow> bool" where
  "p_close_called s \<longleftrightarrow> p_done s \<and> (p_inner_closes s = 0 \<longrightarrow> p_closing s)"

fun handler_work :: "handler \<Rightarrow> nat" where
  "handler_work (HSetDeadline c) = 4"
| "handler_work (HReadHeader c) = 3"
| "handler_work (HClearDeadline c c' h) = 2"
| "handler_work (HSendConn p) = 1"
| "handler_work (HSendError e) = 1"

fun loop_work :: "loop_pc \<Rightarrow> nat" where
  "loop_work LAccept = 1" | "loop_work (LSendError e) = 2" | "loop_work LExited = 0"

definition p_work :: "proxy_state \<Rightarrow> nat" where
  "p_work s = \<Sum>\<^sub># (image_mset handler_work (p_handlers s)) + loop_work (p_loop s)
     + p_callers s + (if p_closing s then 1 else 0)"

lemma handler_work_remove:
  "h \<in># H \<Longrightarrow> \<Sum>\<^sub># (image_mset handler_work H) =
     handler_work h + \<Sum>\<^sub># (image_mset handler_work (H - {#h#}))"
  by (metis insert_DiffM image_mset_add_mset sum_mset.insert)

lemma p_work_step:
  assumes "proxy_step net l s t" and "p_internal l s"
  shows "p_work t < p_work s"
  using assms(1)
proof cases
  case 4
  then show ?thesis
    by cases (auto simp: p_work_def proxy_updates sendConn_iff sendError_iff
        dest!: handler_work_remove)
qed (use assms(2) in \<open>auto elim!: Accept_stepE Close_stepE handleAccepts_stepE
      simp: p_work_def proxy_updates sendError_iff\<close>)

text \<open>Every handler can move once \<^verbatim>\<open>done\<close> is closed.\<close>

lemma handler_progress:
  assumes "h \<in># p_handlers s" and "p_done s"
  shows "\<exists>l t. p_internal l s \<and> handleConnection_step net l s t"
proof (cases h)
  case (HReadHeader c)
  obtain c' where "ReadHeader conn_Read conn_LocalAddr conn_RemoteAddr (net c) =
      Some (stream_header (net c), c')"
    using ReadHeader_stream_header by blast
  then have "\<exists>t. handleConnection_step net (PReadHeader c) s t"
    using assms HReadHeader
    by (cases "stream_header (net c)") (auto intro: handleConnection_step.intros)
  then show ?thesis by (metis p_internal.simps)
next
  case (HSetDeadline c)
  then show ?thesis using assms handleConnection_step.intros(2) [of c s net]
    by (intro exI [of _ "PSetDeadline c None"]) auto
next
  case (HClearDeadline c c' header)
  then show ?thesis using assms handleConnection_step.intros(6) [of c c' header s net]
    by (intro exI [of _ "PClearDeadline c header None"]) auto
next
  case (HSendConn p)
  then show ?thesis using assms handleConnection_step.intros(8) [of p s s net]
    by (intro exI [of _ "PConnDone p"]) (auto simp: sendConn_iff)
next
  case (HSendError e)
  then show ?thesis using assms handleConnection_step.intros(10) [of e s s net]
    by (intro exI [of _ "PErrorDone e"]) (auto simp: sendError_iff)
qed

lemma p_progress:
  assumes "p_close_called s" and "\<not> p_ended s"
  shows "\<exists>l t. p_internal l s \<and> proxy_step net l s t"
proof -
  have d: "p_done s" using assms(1) by (simp add: p_close_called_def)
  consider h where "h \<in># p_handlers s" | "p_closing s" | "0 < p_callers s"
    | "p_loop s \<noteq> LExited" "\<not> p_closing s"
    using assms(2) by (auto simp: p_ended_def)
  then show ?thesis
  proof cases
    case 1
    then show ?thesis using handler_progress d proxy_step.intros(4) by blast
  next
    case 2
    then show ?thesis using Close_step.intros(2) proxy_step.intros(2)
      by (metis p_internal.simps(7))
  next
    case 3
    then show ?thesis using d Accept_step.intros(2) proxy_step.intros(1)
      by (metis p_internal.simps(6))
  next
    case 4
    then have i: "0 < p_inner_closes s" using assms(1) by (auto simp: p_close_called_def)
    show ?thesis
    proof (cases "p_loop s")
      case LAccept
      then have "handleAccepts_step (PInnerError NetErrClosed) s (s\<lparr>p_loop := LExited\<rparr>)"
        by (intro handleAccepts_step.intros(1)) simp_all
      then show ?thesis using i proxy_step.intros(3)
        by (metis errors_Is_refl p_internal.simps(5))
    next
      case (LSendError e)
      then have "handleAccepts_step PLoopDone s (s\<lparr>p_loop := LExited\<rparr>)"
        using d by (intro handleAccepts_step.intros(4)) (simp_all add: sendError_iff)
      then show ?thesis using proxy_step.intros(3) by (metis p_internal.simps(9))
    qed (use 4 in simp)
  qed
qed

interpretation pd: draining "proxy_step net" p_internal p_close_called p_ended p_work
proof unfold_locales
  fix l s t
  show "proxy_step net l s t \<Longrightarrow> p_close_called s \<Longrightarrow> p_close_called t"
    by (auto elim!: proxy_step_elims simp: sendConn_iff sendError_iff proxy_updates p_close_called_def)
qed (blast intro: p_work_step p_progress)+

section \<open>An inner listener that closes by itself\<close>

text \<open>
  The accept loop ended on \<^verbatim>\<open>net.ErrClosed\<close> from the inner listener, all handlers
  ended, and nobody has called \<^verbatim>\<open>Close\<close>.
\<close>

definition p_stalled :: "proxy_state \<Rightarrow> bool" where
  "p_stalled s \<longleftrightarrow> p_loop s = LExited \<and> p_handlers s = {#} \<and> \<not> p_done s \<and> \<not> p_closing s"

lemma p_stalled_step:
  "proxy_step net l s t \<Longrightarrow> p_stalled s \<Longrightarrow> l \<noteq> PCloseFirst \<Longrightarrow>
     p_stalled t \<and> p_delivered t = p_delivered s \<and> p_errors t = p_errors s"
  by (auto elim!: proxy_step_elims simp: p_stalled_def)

lemma p_stalled_run:
  "run (proxy_step net) s ls t \<Longrightarrow> p_stalled s \<Longrightarrow> PCloseFirst \<notin> set ls \<Longrightarrow>
     p_stalled t \<and> p_delivered t = p_delivered s \<and> p_errors t = p_errors s"
  by (induction rule: run.induct) (auto dest: p_stalled_step)

section \<open>An example run\<close>

text \<open>
  One caller, one connection from 192.0.2.1 port 258 that is delivered, a second one that
  ends early and is closed, then \<^verbatim>\<open>Close\<close>.
\<close>

definition demo_net :: "conn_id \<Rightarrow> net_conn" where
  "demo_net c =
     \<lparr>rd_segments =
        (if c = 0 then [wire 0x21 familyTCP4 [192, 0, 2, 1, 10, 0, 0, 1, 1, 2, 1, 187]] else []),
      rd_final = IoEOF, conn_LocalAddr = NilAddr, conn_RemoteAddr = NilAddr\<rparr>"

definition demo_header :: Header where
  "demo_header = \<lparr>RemoteAddr = TCPAddr [192, 0, 2, 1] 258 [], LocalAddr = TCPAddr [10, 0, 0, 1] 443 []\<rparr>"

definition demo_rest :: net_conn where
  "demo_rest = \<lparr>rd_segments = [], rd_final = IoEOF, conn_LocalAddr = NilAddr, conn_RemoteAddr = NilAddr\<rparr>"

definition demo_labels :: "proxy_label list" where
  "demo_labels = [PAcceptCall, PInnerConn 0, PInnerConn 1, PSetDeadline 0 None, PReadHeader 0,
     PClearDeadline 0 demo_header None, PConnSent (proxied 0 demo_rest demo_header),
     PSetDeadline 1 None, PReadHeader 1, PCloseFirst]"

definition demo_error :: go_error where
  "demo_error = acceptError_temporary (ErrorfW ''reading proxy header: %w'' [] IoEOF)"

definition demo_state :: proxy_state where
  "demo_state = \<lparr>p_done = True, p_closing = True, p_inner_closes = 0, p_loop = LAccept,
     p_handlers = {#HSendError demo_error#}, p_callers = 0, p_accepted = [0, 1],
     p_delivered = [proxied 0 demo_rest demo_header], p_closed = [1],
     p_errors = [], p_close_results = []\<rparr>"

lemma demo_read0:
  "ReadHeader conn_Read conn_LocalAddr conn_RemoteAddr (demo_net 0) = Some (Inr demo_header, demo_rest)"
  by code_simp

lemma demo_read1:
  "\<exists>c'. ReadHeader conn_Read conn_LocalAddr conn_RemoteAddr (demo_net 1) = Some (Inl IoEOF, c')"
  using ReadHeader_stream_header [of "demo_net 1"]
  by (auto simp: stream_header_def decode_stream_def demo_net_def conn_content_def short_read_error_def)

lemmas demo_simps = NewListener_def demo_state_def proxy_updates demo_error_def sendConn_iff

lemma demo_run: "run (proxy_step demo_net) NewListener demo_labels demo_state"
proof -
  note r0 = demo_read0
  obtain c1 where
    r1: "ReadHeader conn_Read conn_LocalAddr conn_RemoteAddr (demo_net (Suc 0)) = Some (Inl IoEOF, c1)"
    using demo_read1 by auto
  show ?thesis
    unfolding demo_labels_def
    apply (rule run_Accept, rule Accept_step.intros(1))
    apply (rule run_loop, rule handleAccepts_step.intros(5), simp_all add: demo_simps)
    apply (rule run_loop, rule handleAccepts_step.intros(5), simp_all)
    apply (rule run_handler, rule handleConnection_step.intros(2), simp_all add: demo_simps)
    apply (rule run_handler, rule handleConnection_step.intros(4) [where net = demo_net and c = 0, OF _ r0], simp_all add: demo_simps)
    apply (rule run_handler, rule handleConnection_step.intros(6), simp_all add: demo_simps)
    apply (rule run_handler, rule handleConnection_step.intros(7), simp_all add: demo_simps)
    apply (rule run_handler, rule handleConnection_step.intros(2), simp_all add: demo_simps)
    apply (rule run_handler, rule handleConnection_step.intros(3) [where net = demo_net and c = "Suc 0", OF _ r1], simp_all add: demo_simps)
    apply (rule run_Close, rule Close_step.intros(1), simp_all add: demo_simps)
    done
qed

lemma reachable_close_called:
  "run (proxy_step net) NewListener ls s \<Longrightarrow> p_done s \<Longrightarrow> p_close_called s"
  using p_inner_closes_inv [of net NewListener ls s]
  by (auto simp: p_close_called_def NewListener_def split: if_splits)

section \<open>Properties\<close>

text \<open>
  C6: No connection is lost or handed out twice. In every state the goroutines of the
  PROXY listener can reach, each connection accepted from the inner listener is, exactly
  once, with a handler, returned by \<^verbatim>\<open>Accept\<close>, or closed.
\<close>

theorem proxy_connections_conserved:
  assumes "run (proxy_step net) NewListener ls s"
  shows "distinct (p_accepted s) \<and> mset (p_accepted s) =
    in_flight s + mset (map Conn (p_delivered s)) + mset (p_closed s)"
  using conserved_run [OF assms] by (simp add: conserved_def)

theorem proxy_connections_conserved_witness:
  "distinct (p_accepted demo_state) \<and> mset (p_accepted demo_state) =
    in_flight demo_state + mset (map Conn (p_delivered demo_state)) + mset (p_closed demo_state)"
  by (rule proxy_connections_conserved [OF demo_run])

text \<open>
  C15: Every connection that \<^verbatim>\<open>Accept\<close> returns reports the two addresses that the
  PROXY header at the front of its byte stream decodes to, and what is left to read from it is
  the stream behind that header.
\<close>

theorem proxy_addresses_from_header:
  assumes "run (proxy_step net) NewListener ls s" and "p \<in> set (p_delivered s)"
  shows "stream_header (net (proxyConn_NetConn p)) =
      Inr \<lparr>RemoteAddr = proxyConn_RemoteAddr p, LocalAddr = proxyConn_LocalAddr p\<rparr>
    \<and> (let c = net (proxyConn_NetConn p) in
        conn_content (connState p) = snd (decode_stream (conn_LocalAddr c) (conn_RemoteAddr c)
          (rd_final c) (conn_content c)))"
proof -
  have "conn_ok net p" using sound_run [OF assms(1)] assms(2) by (simp add: sound_def)
  from conn_ok_stream [OF this] show ?thesis
    by (simp add: proxyConn_NetConn_def proxyConn_RemoteAddr_def proxyConn_LocalAddr_def)
qed

theorem proxy_addresses_from_header_witness:
  "stream_header (demo_net 0) = Inr demo_header"
  using proxy_addresses_from_header [OF demo_run, of "proxied 0 demo_rest demo_header"]
  by (simp add: demo_state_def proxied_def proxyConn_NetConn_def proxyConn_RemoteAddr_def
      proxyConn_LocalAddr_def)

text \<open>
  A caller of \<^verbatim>\<open>Accept\<close> sees an error that is \<^verbatim>\<open>net.ErrClosed\<close> (in
  the sense of \<^verbatim>\<open>errors.Is\<close>) only if \<^verbatim>\<open>Close\<close> was called: an error of one
  connection never looks like the end of the listener, whatever it wraps.
\<close>

theorem proxy_ErrClosed_only_after_Close:
  assumes "run (proxy_step net) NewListener ls s"
    and "e \<in> set (p_errors s)" and "errors_Is e NetErrClosed"
  shows "p_done s"
  using sound_run [OF assms(1)] assms(2,3) by (auto simp: sound_def)

text \<open>
  However many goroutines call \<^verbatim>\<open>Close\<close>, the inner listener is closed at most
  once, and every call but the one that closed it returns \<^verbatim>\<open>net.ErrClosed\<close>.
\<close>

theorem proxy_Close_once:
  assumes "run (proxy_step net) NewListener ls s"
  shows "p_inner_closes s \<le> 1 \<and> (\<forall>r \<in> set (tl (p_close_results s)). r = Some NetErrClosed)"
  using pc.close_once [OF assms] p_inner_closes_inv [OF assms] by (simp add: NewListener_def)

text \<open>
  C5: No goroutine outlives \<^verbatim>\<open>Close\<close>. From every reachable state in which
  \<^verbatim>\<open>done\<close> is closed, the goroutines' own steps end after at most \<open>p_work s\<close> of
  them, in whatever order they are taken, and in a state where none is left the accept
  loop, all handlers and all callers have ended and every accepted connection was
  delivered or closed.
\<close>

theorem proxy_Close_drains:
  assumes "run (proxy_step net) NewListener ls s" and "p_done s"
  shows "(\<forall>ls' t. drain_run p_internal (proxy_step net) s ls' t \<longrightarrow> length ls' \<le> p_work s)
    \<and> (\<exists>ls' t. drain_run p_internal (proxy_step net) s ls' t \<and> p_ended t)
    \<and> (\<forall>ls' t. run (proxy_step net) s ls' t \<longrightarrow> (\<nexists>l u. p_internal l t \<and> proxy_step net l t u) \<longrightarrow>
        p_ended t \<and> mset (p_accepted t) = mset (map Conn (p_delivered t)) + mset (p_closed t))"
proof (intro conjI allI impI)
  have ok: "p_close_called s" using reachable_close_called assms by blast
  show "\<exists>ls' t. drain_run p_internal (proxy_step net) s ls' t \<and> p_ended t"
    by (rule pd.drain_exists [OF ok])
  show "length ls' \<le> p_work s" if "drain_run p_internal (proxy_step net) s ls' t" for ls' t
    using pd.drain_run_bound [OF that ok] by simp
  fix ls' t
  assume r: "run (proxy_step net) s ls' t" and q: "\<nexists>l u. p_internal l t \<and> proxy_step net l t u"
  show e: "p_ended t" using pd.drained [OF ok r q] .
  have "conserved t" by (rule conserved_run [OF run_append [OF assms(1) r]])
  then show "mset (p_accepted t) = mset (map Conn (p_delivered t)) + mset (p_closed t)"
    using e by (simp add: conserved_def in_flight_def p_ended_def)
qed

theorem proxy_Close_drains_witness:
  "\<exists>ls t. drain_run p_internal (proxy_step demo_net) demo_state ls t \<and> length ls \<le> 3 \<and> p_ended t"
proof -
  have "p_done demo_state" "p_work demo_state = 3"
    by (simp_all add: demo_state_def p_work_def)
  then show ?thesis using proxy_Close_drains [OF demo_run] by metis
qed

end
