(* ===== verification/Proxy_Types.thy ===== *)
theory Proxy_Types
  imports Proxy_Listener
begin

text \<open>
  More on the PROXY header: the type of the addresses that are read, what \<open>Format\<close> does
  with addresses of two families, and how many reads and bytes a header costs.
\<close>

section \<open>Well-typed addresses\<close>

text \<open>
  Both TCP or both UDP, IP addresses of one family, ports of sixteen bits, no zone.
\<close>

definition port_ok :: "int \<Rightarrow> bool" where
  "port_ok p \<longleftrightarrow> 0 \<le> p \<and> p < 65536"

definition endpoints_ok :: "ip \<Rightarrow> int \<Rightarrow> string \<Rightarrow> ip \<Rightarrow> int \<Rightarrow> string \<Rightarrow> bool" where
  "endpoints_ok r rp rz l lp lz \<longleftrightarrow> length r = length l \<and> length r \<in> {4, 16}
     \<and> port_ok rp \<and> port_ok lp \<and> rz = [] \<and> lz = []"

fun well_typed :: "addr \<Rightarrow> addr \<Rightarrow> bool" where
  "well_typed (TCPAddr r rp rz) (TCPAddr l lp lz) = endpoints_ok r rp rz l lp lz"
| "well_typed (UDPAddr r rp rz) (UDPAddr l lp lz) = endpoints_ok r rp rz l lp lz"
| "well_typed _ _ = False"

lemma port_ok_read [simp]: "port_ok (read_port payload i j)"
proof -
  have "uint (v :: uint16) < 2 ^ LENGTH(16)" for v by (rule unsigned_less)
  then show ?thesis by (simp add: port_ok_def read_port_def)
qed

lemma parseProxyHeader_well_typed:
  "parseProxyHeader family payload = Inr h \<Longrightarrow> well_typed (RemoteAddr h) (LocalAddr h)"
  by (auto simp: parseProxyHeader_def endpoints_ok_def length_go_slice split: if_splits)

lemma well_typed_Format:
  "well_typed (RemoteAddr h) (LocalAddr h) \<Longrightarrow> \<exists>w. Format h = Inr w"
  by (cases "(RemoteAddr h, LocalAddr h)" rule: well_typed.cases) (auto simp: Format_def)

text \<open>The command of the header at the front of a stream: the low half of its thirteenth byte.\<close>

definition stream_command :: "net_conn \<Rightarrow> byte" where
  "stream_command c = conn_content c ! 12 AND 0xF"

lemma stream_header_well_typed:
  assumes "stream_header c = Inr h"
  shows "16 \<le> length (conn_content c) \<and>
    (stream_command c = commandLocal \<and> h = \<lparr>RemoteAddr = conn_RemoteAddr c, LocalAddr = conn_LocalAddr c\<rparr>
     \<or> stream_command c = commandProxy \<and> well_typed (RemoteAddr h) (LocalAddr h))"
  using assms parseProxyHeader_well_typed
  by (auto simp: stream_header_def decode_stream_def decode_body_def stream_command_def Let_def split: if_splits)

section \<open>Counting reads\<close>

text \<open>A reader that counts the calls of \<^verbatim>\<open>Read\<close>.\<close>

definition count_Read :: "'s reader \<Rightarrow> ('s \<times> nat) reader" where
  "count_Read rd sk n = (case sk of (s, k) \<Rightarrow> (case rd s n of (r, s') \<Rightarrow> (r, (s', Suc k))))"

lemma read_loop_full_buffer: "n \<le> length acc \<Longrightarrow> read_loop rd s n acc = Some ((acc, None), s)"
  by (simp add: read_loop.simps [of rd s n acc])

text \<open>
  Every call but the last takes a whole segment; the loop does not depend on the counting.
\<close>

lemma read_loop_count:
  "\<exists>r c' k'. read_loop conn_Read c n acc = Some (r, c')
     \<and> read_loop (count_Read conn_Read) (c, k) n acc = Some (r, (c', k'))
     \<and> k' + length (rd_segments c') \<le> k + length (rd_segments c) + 1"
proof (induction "conn_fuel c" arbitrary: c acc k rule: less_induct)
  case less
  note unfold = read_loop.simps [of conn_Read c n acc]
    read_loop.simps [of "count_Read conn_Read" "(c, k)" n acc]
  show ?case
  proof (cases "n \<le> length acc")
    case True
    then show ?thesis by (simp add: unfold)
  next
    case False
    then have pos: "0 < n - length acc" by simp
    show ?thesis
    proof (cases "rd_segments c")
      case Nil
      then show ?thesis using False by (simp add: unfold count_Read_def conn_Read_def)
    next
      case (Cons sg sgs)
      define c1 where "c1 = snd (conn_Read c (n - length acc))"
      have rd: "conn_Read c (n - length acc) = ((take (n - length acc) sg, None), c1)"
        using Cons pos by (simp add: conn_Read_def c1_def)
      have c1: "rd_segments c1 =
          (if length sg \<le> n - length acc then sgs else drop (n - length acc) sg # sgs)"
        using Cons pos by (simp add: conn_Read_def c1_def)
      have step: "read_loop conn_Read c n acc = read_loop conn_Read c1 n (acc @ take (n - length acc) sg)"
        "read_loop (count_Read conn_Read) (c, k) n acc =
          read_loop (count_Read conn_Read) (c1, Suc k) n (acc @ take (n - length acc) sg)"
        using False rd by (simp_all add: unfold count_Read_def)
      show ?thesis
      proof (cases "length sg \<le> n - length acc")
        case True
        have "conn_fuel c1 < conn_fuel c" by (rule cr.read_progress [OF rd pos])
        from less.hyps [OF this, of "acc @ take (n - length acc) sg" "Suc k"]
        show ?thesis using True c1 Cons by (auto simp: step)
      next
        case small: False
        then have "n \<le> length (acc @ take (n - length acc) sg)" by simp
        note full = read_loop_full_buffer [OF this]
        show ?thesis using small c1 Cons by (simp add: step full)
      qed
    qed
  qed
qed

lemma ReadFull_count:
  "\<exists>r c' k'. ReadFull conn_Read c n = Some (r, c')
     \<and> ReadFull (count_Read conn_Read) (c, k) n = Some (r, (c', k'))
     \<and> k' + length (rd_segments c') \<le> k + length (rd_segments c) + 1"
proof -
  obtain r c' k' where "read_loop conn_Read c n [] = Some (r, c')"
    "read_loop (count_Read conn_Read) (c, k) n [] = Some (r, (c', k'))"
    "k' + length (rd_segments c') \<le> k + length (rd_segments c) + 1"
    using read_loop_count by blast
  then show ?thesis by (cases r) (auto simp: ReadFull_def)
qed

lemma ReadHeader_count:
  "\<exists>r c' k. ReadHeader conn_Read conn_LocalAddr conn_RemoteAddr c = Some (r, c')
     \<and> ReadHeader (count_Read conn_Read) (conn_LocalAddr \<circ> fst) (conn_RemoteAddr \<circ> fst) (c, 0) =
         Some (r, (c', k))
     \<and> k \<le> length (rd_segments c) + 2"
proof -
  obtain p e c1 k1 where 1: "ReadFull conn_Read c 16 = Some ((p, e), c1)"
    "ReadFull (count_Read conn_Read) (c, 0) 16 = Some ((p, e), (c1, k1))"
    "k1 + length (rd_segments c1) \<le> length (rd_segments c) + 1"
    using ReadFull_count [of c 16 0] by auto
  define n where "n = unat (be_Uint16 (go_slice p 14 16))"
  obtain q f c2 k2 where 2: "ReadFull conn_Read c1 n = Some ((q, f), c2)"
    "ReadFull (count_Read conn_Read) (c1, k1) n = Some ((q, f), (c2, k2))"
    "k2 + length (rd_segments c2) \<le> k1 + length (rd_segments c1) + 1"
    using ReadFull_count [of c1 n k1] by (metis surj_pair)
  show ?thesis
    using 1 2 by (cases e; cases f) (auto simp: ReadHeader_def Let_def n_def [symmetric])
qed

lemma decode_stream_length:
  "length bs \<le> length (snd (decode_stream la ra fin bs)) + 16 + 65535"
proof -
  have "unat (be_Uint16 (take 2 (drop 14 bs))) < 2 ^ LENGTH(16)" by (rule unsigned_less)
  moreover define n where "n = unat (be_Uint16 (take 2 (drop 14 bs)))"
  ultimately have "n \<le> 65535" by simp
  then show ?thesis by (auto simp: decode_stream_def Let_def n_def [symmetric])
qed

section \<open>Two families in one header\<close>

lemma copy_nothing:
  "lo = length pre \<Longrightarrow> lo \<le> hi \<Longrightarrow> hi - lo \<le> k \<Longrightarrow>
     go_copy (pre @ replicate k 0) lo hi [] = (pre @ replicate (hi - lo) 0) @ replicate (k - (hi - lo)) 0"
  by (simp add: go_copy_def Let_def flip: replicate_add)

lemma formatIPv4Header_no_local:
  assumes "To4 rip = Some r" and "To4 lip = None"
  shows "formatIPv4Header f rip lip rp lp = wire 0x21 f (addr_block r [0, 0, 0, 0] rp lp)"
proof -
  note len = To4_length [OF assms(1)]
  have "formatIPv4Header f rip lip rp lp =
    protocolSignature @ [0x21, f] @ be_PutUint16 12 @ r @ replicate 4 0
      @ be_PutUint16 (word_of_int rp) @ be_PutUint16 (word_of_int lp)"
    using assms len
    by (simp add: formatIPv4Header_def Let_def fill_simps copy_nothing proxy_consts del: append_assoc)
  then show ?thesis using len by (simp add: wire_def addr_block_def numeral_eq_Suc)
qed

fun mixed_local :: "addr \<Rightarrow> addr \<Rightarrow> addr option" where
  "mixed_local (TCPAddr r _ _) (TCPAddr l lp _) =
     (if To4 r \<noteq> None \<and> To4 l = None then Some (TCPAddr [0, 0, 0, 0] (lp mod 65536) []) else None)"
| "mixed_local (UDPAddr r _ _) (UDPAddr l lp _) =
     (if To4 r \<noteq> None \<and> To4 l = None then Some (UDPAddr [0, 0, 0, 0] (lp mod 65536) []) else None)"
| "mixed_local _ _ = None"

lemma Format_mixed:
  assumes "mixed_local (RemoteAddr h) (LocalAddr h) = Some a"
  obtains f block where "Format h = Inr (wire 0x21 f block)" "length block < 2 ^ 16"
    and "parseProxyHeader f block = Inr \<lparr>RemoteAddr = RemoteAddr (canonical_header (RemoteAddr h) (LocalAddr h)),
      LocalAddr = a\<rparr>"
proof (cases "(RemoteAddr h, LocalAddr h)" rule: mixed_local.cases)
  case (1 r rp rz l lp lz)
  with assms obtain r4 where r4: "To4 r = Some r4" "To4 l = None" "length r4 = 4"
    "a = TCPAddr [0, 0, 0, 0] (lp mod 65536) []"
    using To4_length by (auto split: if_splits)
  show thesis
    by (rule that [of familyTCP4 "addr_block r4 [0, 0, 0, 0] rp lp"])
      (use 1 r4 in \<open>simp_all add: Format_def formatIPv4Header_no_local parseProxyHeader_def wire_ip_def block_simps\<close>)
next
  case (2 r rp rz l lp lz)
  with assms obtain r4 where r4: "To4 r = Some r4" "To4 l = None" "length r4 = 4"
    "a = UDPAddr [0, 0, 0, 0] (lp mod 65536) []"
    using To4_length by (auto split: if_splits)
  show thesis
    by (rule that [of familyUDP4 "addr_block r4 [0, 0, 0, 0] rp lp"])
      (use 2 r4 in \<open>simp_all add: Format_def formatIPv4Header_no_local parseProxyHeader_def wire_ip_def block_simps\<close>)
qed (use assms in auto)

section \<open>Properties\<close>

text \<open>
  C28: Type invariant of the PROXY listener, by the command of the header. Of every connection
  that \<^verbatim>\<open>Accept\<close> returns the stream begins with at least the sixteen bytes of a header. If its
  command is LOCAL, the two addresses are those of the underlying connection, whatever their
  type. Otherwise it is PROXY, and then the two addresses are both TCP or both UDP, with IP
  addresses of the same length (4 or 16), ports of sixteen bits and no zone, and the unchecked
  type assertion of \<^verbatim>\<open>Format\<close> does not panic on them.
\<close>

theorem delivered_addresses_well_typed:
  assumes "run (proxy_step net) NewListener ls s" and "p \<in> set (p_delivered s)"
  shows "let c = net (proxyConn_NetConn p); r = proxyConn_RemoteAddr p; l = proxyConn_LocalAddr p in
    16 \<le> length (conn_content c)
    \<and> (stream_command c = commandLocal \<and> r = conn_RemoteAddr c \<and> l = conn_LocalAddr c
       \<or> stream_command c = commandProxy \<and> well_typed r l
         \<and> (\<exists>w. Format \<lparr>RemoteAddr = r, LocalAddr = l\<rparr> = Inr w))"
proof -
  have "conn_ok net p" using sound_run [OF assms(1)] assms(2) by (simp add: sound_def)
  then have "stream_header (net (proxyConn_NetConn p)) =
      Inr \<lparr>RemoteAddr = proxyConn_RemoteAddr p, LocalAddr = proxyConn_LocalAddr p\<rparr>"
    using conn_ok_stream(1) by (simp add: proxyConn_NetConn_def proxyConn_RemoteAddr_def proxyConn_LocalAddr_def)
  from stream_header_well_typed [OF this] show ?thesis
    using well_typed_Format [of "\<lparr>RemoteAddr = proxyConn_RemoteAddr p, LocalAddr = proxyConn_LocalAddr p\<rparr>"]
    by auto
qed

theorem delivered_addresses_well_typed_witness:
  "stream_command (demo_net 0) = commandProxy \<and> (\<exists>w. Format demo_header = Inr w)"
proof -
  have "stream_command (demo_net 0) = commandProxy" by code_simp
  then show ?thesis
    using delivered_addresses_well_typed [OF demo_run, of "proxied 0 demo_rest demo_header"]
    by (auto simp: demo_state_def proxied_def proxyConn_NetConn_def proxyConn_RemoteAddr_def
        proxyConn_LocalAddr_def commandLocal_def commandProxy_def demo_header_def Let_def)
qed

text \<open>
  C29: Reading a header ends, whatever the peer sends and however it splits it: after at most
  two reads more than there are segments, and with at most 16 + 65535 bytes taken from the
  connection, so that a peer can make the listener hold no more than that.
\<close>

theorem ReadHeader_reads_bounded:
  "\<exists>r c' k.
     ReadHeader (count_Read conn_Read) (conn_LocalAddr \<circ> fst) (conn_RemoteAddr \<circ> fst) (c, 0) = Some (r, (c', k))
     \<and> ReadHeader conn_Read conn_LocalAddr conn_RemoteAddr c = Some (r, c')
     \<and> k \<le> length (rd_segments c) + 2
     \<and> length (conn_content c) \<le> length (conn_content c') + 16 + 65535"
proof -
  obtain r c' k where r: "ReadHeader conn_Read conn_LocalAddr conn_RemoteAddr c = Some (r, c')"
    "ReadHeader (count_Read conn_Read) (conn_LocalAddr \<circ> fst) (conn_RemoteAddr \<circ> fst) (c, 0) = Some (r, (c', k))"
    "k \<le> length (rd_segments c) + 2"
    using ReadHeader_count by blast
  have "conn_content c' = snd (decode_stream (conn_LocalAddr c) (conn_RemoteAddr c) (rd_final c) (conn_content c))"
    by (rule cr.ReadHeader_decode [of c]) (use r in auto)
  then show ?thesis using r decode_stream_length by fastforce
qed

text \<open>
  C38: Two kinds of headers do not come back as they were written. \<^verbatim>\<open>Format\<close> of addresses that
  are neither TCP nor UDP writes the unspecified family, which \<open>ReadHeader\<close> refuses. And
  \<^verbatim>\<open>Format\<close> takes the family from the remote address alone: with an IPv4 (or IPv4-mapped)
  remote address and a local one that is not, the header says that the local address is
  0.0.0.0, so that a header that \<open>ReadHeader\<close> accepted can lose its local address when it is
  passed on.
\<close>

theorem Format_not_read_back:
  assumes "Format h = Inr w" and "conn_content c = w @ rest"
  shows "(\<not> is_TCPAddr (RemoteAddr h) \<and> \<not> is_UDPAddr (RemoteAddr h) \<longrightarrow>
      (\<exists>c'. ReadHeader conn_Read conn_LocalAddr conn_RemoteAddr c =
        Some (Inl (Errorf ''unsupported address family %x'' [ArgInt 0]), c')))
    \<and> (\<forall>a. mixed_local (RemoteAddr h) (LocalAddr h) = Some a \<longrightarrow>
      (\<exists>c'. ReadHeader conn_Read conn_LocalAddr conn_RemoteAddr c =
        Some (Inr \<lparr>RemoteAddr = RemoteAddr (canonical_header (RemoteAddr h) (LocalAddr h)),
                   LocalAddr = a\<rparr>, c')))"
proof (intro conjI allI impI)
  assume "\<not> is_TCPAddr (RemoteAddr h) \<and> \<not> is_UDPAddr (RemoteAddr h)"
  then have "conn_content c = wire 0x21 familyUnspecified [] @ rest"
    using assms Format_unspecified by auto
  then show "\<exists>c'. ReadHeader conn_Read conn_LocalAddr conn_RemoteAddr c =
      Some (Inl (Errorf ''unsupported address family %x'' [ArgInt 0]), c')"
    using ReadHeader_wire [of c "0x21" familyUnspecified "[]" rest]
    by (auto simp: decode_body_def parseProxyHeader_def proxy_consts)
next
  fix a assume "mixed_local (RemoteAddr h) (LocalAddr h) = Some a"
  then obtain f block where w: "Format h = Inr (wire 0x21 f block)" "length block < 2 ^ 16"
    "parseProxyHeader f block = Inr \<lparr>RemoteAddr = RemoteAddr (canonical_header (RemoteAddr h) (LocalAddr h)),
       LocalAddr = a\<rparr>"
    by (rule Format_mixed)
  then show "\<exists>c'. ReadHeader conn_Read conn_LocalAddr conn_RemoteAddr c =
      Some (Inr \<lparr>RemoteAddr = RemoteAddr (canonical_header (RemoteAddr h) (LocalAddr h)), LocalAddr = a\<rparr>, c')"
    using ReadHeader_wire [of c "0x21" f block rest] assms
    by (auto simp: decode_body_def proxy_consts)
qed

theorem Format_not_read_back_witness:
  "\<exists>w c'. Format \<lparr>RemoteAddr = TCPAddr [192, 0, 2, 1] 4242 [],
      LocalAddr = TCPAddr (replicate 15 0 @ [1]) 443 []\<rparr> = Inr w
    \<and> ReadHeader conn_Read conn_LocalAddr conn_RemoteAddr
        \<lparr>rd_segments = [w, [7]], rd_final = IoEOF, conn_LocalAddr = NilAddr, conn_RemoteAddr = NilAddr\<rparr> =
      Some (Inr \<lparr>RemoteAddr = TCPAddr [192, 0, 2, 1] 4242 [], LocalAddr = TCPAddr [0, 0, 0, 0] 443 []\<rparr>, c')"
proof -
  let ?h = "\<lparr>RemoteAddr = TCPAddr [192, 0, 2, 1] 4242 [], LocalAddr = TCPAddr (replicate 15 0 @ [1]) 443 []\<rparr>"
  obtain w where w: "Format ?h = Inr w" using Format_panics_iff [of ?h] by (cases "Format ?h") auto
  have "mixed_local (RemoteAddr ?h) (LocalAddr ?h) = Some (TCPAddr [0, 0, 0, 0] 443 [])"
    "RemoteAddr (canonical_header (RemoteAddr ?h) (LocalAddr ?h)) = TCPAddr [192, 0, 2, 1] 4242 []"
    by code_simp+
  with Format_not_read_back [OF w, of "\<lparr>rd_segments = [w, [7]], rd_final = IoEOF,
      conn_LocalAddr = NilAddr, conn_RemoteAddr = NilAddr\<rparr>" "[7]"]
  show ?thesis using w by (simp add: conn_content_def)
qed

end
