(* ===== verification/Proxy_Delivery.thy ===== *)
theory Proxy_Delivery
  imports Proxy_Types
begin

text \<open>
  The PROXY listener end to end: what becomes of a connection that starts with a header
  written by \<open>Format\<close>, from the inner \<^verbatim>\<open>Accept\<close> to the caller of the outer one.
\<close>

section \<open>Connections with a good header are kept\<close>

fun deadline_fails :: "conn_id \<Rightarrow> proxy_label \<Rightarrow> bool" where
  "deadline_fails c (PSetDeadline c' e) \<longleftrightarrow> c = c' \<and> e \<noteq> None"
| "deadline_fails c (PClearDeadline c' h e) \<longleftrightarrow> c = c' \<and> e \<noteq> None"
| "deadline_fails c _ \<longleftrightarrow> False"

definition kept :: "conn_id \<Rightarrow> proxy_state \<Rightarrow> bool" where
  "kept c s \<longleftrightarrow> p_done s \<or> c \<notin> set (p_closed s)"

lemma kept_step:
  assumes "proxy_step net l s t" and "kept c s" and "stream_header (net c) = Inr h"
    and "\<not> deadline_fails c l"
  shows "kept c t"
  using assms(1)
proof cases
  case 4
  then show ?thesis
  proof cases
    case (3 d err c')
    then have "d \<noteq> c" using ReadHeader_stream_header [of "net d"] assms(3) by auto
    then show ?thesis using 3 assms(2) by (simp add: kept_def proxy_updates)
  qed (use assms in \<open>auto simp: kept_def proxy_updates sendConn_iff sendError_iff\<close>)
qed (use assms in \<open>auto elim!: Accept_stepE Close_stepE handleAccepts_stepE
      simp: kept_def proxy_updates sendError_iff\<close>)

lemma kept_run:
  "run (proxy_step net) s ls t \<Longrightarrow> kept c s \<Longrightarrow> stream_header (net c) = Inr h \<Longrightarrow>
     \<forall>l \<in> set ls. \<not> deadline_fails c l \<Longrightarrow> kept c t"
  by (induction rule: run.induct) (auto dest: kept_step)

section \<open>A handler can finish\<close>

text \<open>The steps that one handler and one caller of \<^verbatim>\<open>Accept\<close> take for a connection.\<close>

fun serves :: "conn_id \<Rightarrow> proxy_label \<Rightarrow> bool" where
  "serves c PAcceptCall \<longleftrightarrow> True"
| "serves c (PSetDeadline c' e) \<longleftrightarrow> c' = c \<and> e = None"
| "serves c (PReadHeader c') \<longleftrightarrow> c' = c"
| "serves c (PClearDeadline c' h e) \<longleftrightarrow> c' = c \<and> e = None"
| "serves c (PConnSent p) \<longleftrightarrow> Conn p = c"
| "serves c _ \<longleftrightarrow> False"

definition can_deliver :: "(conn_id \<Rightarrow> net_conn) \<Rightarrow> proxyConn \<Rightarrow> nat \<Rightarrow> proxy_state \<Rightarrow> bool" where
  "can_deliver net p n s \<longleftrightarrow> (\<exists>ls t. run (proxy_step net) s ls t \<and> length ls \<le> n
     \<and> list_all (serves (Conn p)) ls \<and> p \<in> set (p_delivered t))"

lemma can_deliver_mono: "can_deliver net p n s \<Longrightarrow> n \<le> m \<Longrightarrow> can_deliver net p m s"
  unfolding can_deliver_def using order_trans by blast

lemma can_deliver_step:
  assumes "handleConnection_step net l s t" and "serves (Conn p) l" and "can_deliver net p n t"
  shows "can_deliver net p (Suc n) s"
proof -
  obtain ls u where u: "run (proxy_step net) t ls u" "length ls \<le> n"
    "list_all (serves (Conn p)) ls" "p \<in> set (p_delivered u)"
    using assms(3) by (auto simp: can_deliver_def)
  have "run (proxy_step net) s (l # ls) u" by (rule run_handler [OF assms(1) u(1)])
  then show ?thesis unfolding can_deliver_def using u assms(2) by (intro exI [of _ "l # ls"] exI [of _ u]) simp
qed

lemma deliver_HSendConn:
  assumes "HSendConn p \<in># p_handlers s"
  shows "can_deliver net p 2 s"
proof -
  let ?s = "s\<lparr>p_callers := Suc (p_callers s)\<rparr>"
  let ?t = "handler_end (HSendConn p) (Accept_conn p ?s)"
  have "run (proxy_step net) s [PAcceptCall, PConnSent p] ?t"
    by (rule run_Accept, rule Accept_step.intros(1), rule run_handler,
        rule handleConnection_step.intros(7)) (use assms in \<open>simp_all add: sendConn_iff run_Nil\<close>)
  moreover have "p \<in> set (p_delivered ?t)" by (simp add: Accept_conn_def handler_end_def)
  ultimately show ?thesis unfolding can_deliver_def
    by (intro exI [of _ "[PAcceptCall, PConnSent p]"] exI [of _ ?t]) simp
qed

lemma deliver_HClearDeadline:
  assumes "HClearDeadline c c' h \<in># p_handlers s"
  shows "can_deliver net (proxied c c' h) 3 s"
  using can_deliver_step [OF handleConnection_step.intros(6) [OF assms] _ deliver_HSendConn]
  by (simp add: handler_to_def proxied_def numeral_3_eq_3 numeral_2_eq_2)

lemma deliver_HReadHeader:
  assumes "HReadHeader c \<in># p_handlers s"
    and r: "ReadHeader conn_Read conn_LocalAddr conn_RemoteAddr (net c) = Some (Inr h, c')"
  shows "can_deliver net (proxied c c' h) 4 s"
proof -
  have "can_deliver net (proxied c c' h) (Suc 3) s"
    by (rule can_deliver_step [OF handleConnection_step.intros(4) [where net = net and c = c, OF assms(1) r]
          _ deliver_HClearDeadline])
      (simp_all add: handler_to_def proxied_def)
  then show ?thesis by simp
qed

lemma deliver_HSetDeadline:
  assumes "HSetDeadline c \<in># p_handlers s"
    and "ReadHeader conn_Read conn_LocalAddr conn_RemoteAddr (net c) = Some (Inr h, c')"
  shows "can_deliver net (proxied c c' h) 5 s"
proof -
  have "can_deliver net (proxied c c' h) (Suc 4) s"
    by (rule can_deliver_step [OF handleConnection_step.intros(2) [OF assms(1)]
          _ deliver_HReadHeader [where net = net and c = c, OF _ assms(2)]])
      (simp_all add: handler_to_def proxied_def)
  then show ?thesis by simp
qed

text \<open>A delivered or deliverable connection is the one with what reading its header gave.\<close>

lemma conn_ok_proxied:
  "conn_ok net p \<Longrightarrow> ReadHeader conn_Read conn_LocalAddr conn_RemoteAddr (net (Conn p)) = Some (Inr h, c') \<Longrightarrow>
     p = proxied (Conn p) c' h"
  by (cases p) (auto simp: conn_ok_def proxied_def)

lemma in_flight_handler:
  assumes "c \<in># in_flight s"
  obtains h where "h \<in># p_handlers s" and "c \<in># handler_conns h"
  using assms by (auto simp: in_flight_def)

lemma in_flight_can_deliver:
  assumes "sound net s" and "c \<in># in_flight s"
    and h: "ReadHeader conn_Read conn_LocalAddr conn_RemoteAddr (net c) = Some (Inr h, c')"
  shows "can_deliver net (proxied c c' h) 5 s"
proof -
  obtain g where g: "g \<in># p_handlers s" "c \<in># handler_conns g"
    using in_flight_handler [OF assms(2)] .
  then have ok: "handler_ok net g" using assms(1) by (simp add: sound_def)
  show ?thesis
  proof (cases g)
    case (HSetDeadline d)
    then show ?thesis using g deliver_HSetDeadline [where net = net and c = c, OF _ h] by simp
  next
    case (HReadHeader d)
    then show ?thesis using g can_deliver_mono [OF deliver_HReadHeader [where net = net and c = c, OF _ h], of s 5] by simp
  next
    case (HClearDeadline d d' k)
    with g ok h have "HClearDeadline c c' h \<in># p_handlers s" by simp
    from can_deliver_mono [OF deliver_HClearDeadline [OF this], of 5] show ?thesis by simp
  next
    case (HSendConn p)
    with g ok have "p = proxied c c' h" using conn_ok_proxied h by auto
    with g HSendConn have "HSendConn (proxied c c' h) \<in># p_handlers s" by simp
    from can_deliver_mono [OF deliver_HSendConn [OF this], of 5] show ?thesis by simp
  qed (use g in simp)
qed

section \<open>A handler takes at most four steps, and is never stuck\<close>

text \<open>The steps of the handler of one connection, up to the end of its send.\<close>

fun handler_label :: "conn_id \<Rightarrow> proxy_label \<Rightarrow> bool" where
  "handler_label c (PSetDeadline c' e) \<longleftrightarrow> c' = c"
| "handler_label c (PReadHeader c') \<longleftrightarrow> c' = c"
| "handler_label c (PClearDeadline c' h e) \<longleftrightarrow> c' = c"
| "handler_label c (PConnSent p) \<longleftrightarrow> Conn p = c"
| "handler_label c (PConnDone p) \<longleftrightarrow> Conn p = c"
| "handler_label c _ \<longleftrightarrow> False"

definition conn_work :: "conn_id \<Rightarrow> handler \<Rightarrow> nat" where
  "conn_work c h = (if c \<in># handler_conns h then handler_work h else 0)"

definition steps_left :: "conn_id \<Rightarrow> proxy_state \<Rightarrow> nat" where
  "steps_left c s = \<Sum>\<^sub># (image_mset (conn_work c) (p_handlers s)) + (if c \<in> set (p_accepted s) then 0 else 4)"

lemma conn_work_remove:
  "h \<in># H \<Longrightarrow> \<Sum>\<^sub># (image_mset (conn_work c) H) =
     conn_work c h + \<Sum>\<^sub># (image_mset (conn_work c) (H - {#h#}))"
  by (metis insert_DiffM image_mset_add_mset sum_mset.insert)

lemma steps_left_step:
  assumes "proxy_step net l s t"
  shows "steps_left c t + (if handler_label c l then 1 else 0) \<le> steps_left c s"
  using assms
proof cases
  case 4
  then show ?thesis
    by cases (auto simp: steps_left_def proxy_updates sendConn_iff sendError_iff conn_work_def
        dest!: conn_work_remove [where c = c])
qed (auto elim!: Accept_stepE Close_stepE handleAccepts_stepE
      simp: steps_left_def proxy_updates sendError_iff conn_work_def)

lemma steps_left_run:
  "run (proxy_step net) s ls t \<Longrightarrow> steps_left c t + length (filter (handler_label c) ls) \<le> steps_left c s"
proof (induction rule: run.induct)
  case (run_Cons l s t ls u)
  then show ?case using steps_left_step [OF run_Cons(1), of c] by (simp split: if_splits)
qed simp

lemma in_flight_progress:
  assumes "c \<in># in_flight s" and "0 < p_callers s"
  shows "\<exists>l t. handler_label c l \<and> \<not> deadline_fails c l \<and> proxy_step net l s t"
proof -
  obtain g where g: "g \<in># p_handlers s" "c \<in># handler_conns g"
    using in_flight_handler [OF assms(1)] .
  have "\<exists>l t. handler_label c l \<and> \<not> deadline_fails c l \<and> handleConnection_step net l s t"
  proof (cases g)
    case (HSetDeadline d)
    then show ?thesis using g handleConnection_step.intros(2) [of c s net]
      by (intro exI [of _ "PSetDeadline c None"]) auto
  next
    case (HReadHeader d)
    then have "\<exists>t. handleConnection_step net (PReadHeader c) s t"
      using g ReadHeader_stream_header [of "net c"]
      by (cases "stream_header (net c)") (auto intro: handleConnection_step.intros)
    then show ?thesis by (intro exI [of _ "PReadHeader c"]) simp
  next
    case (HClearDeadline d d' k)
    then show ?thesis using g handleConnection_step.intros(6) [of c d' k s net]
      by (intro exI [of _ "PClearDeadline c k None"]) auto
  next
    case (HSendConn p)
    then show ?thesis using g assms(2) handleConnection_step.intros(7) [of p s _ net]
      by (intro exI [of _ "PConnSent p"]) (auto simp: sendConn_iff)
  qed (use g in simp)
  then show ?thesis using proxy_step.intros(4) by blast
qed

section \<open>Property\<close>

text \<open>
  C7: End to end. Take a connection whose bytes are a header written by \<^verbatim>\<open>Format\<close> and then
  the client's data, in any segments. The header is one for two TCP or two UDP addresses, both
  IPv4 (or IPv4-mapped) or both with sixteen bytes and the remote one not IPv4 (what
  \<^verbatim>\<open>Format\<close> writes for other addresses need not read back). No deadline call of this connection
  fails. Then in every state the listener can reach, before or after \<^verbatim>\<open>Close\<close>, if the
  connection was delivered, it was with the addresses of the header (IPv4 as four bytes, ports
  modulo 65536) and with exactly the client's data left to read. Before \<^verbatim>\<open>Close\<close> it is never
  closed: it has been delivered, or the steps of its handler with a call of \<^verbatim>\<open>Accept\<close> can
  deliver it so, five steps at most; and while a caller waits in \<^verbatim>\<open>Accept\<close> and it is not yet
  delivered, its handler has a next step that does not fail. Over a whole run the handler
  takes at most four steps. So it is delivered as soon as its handler was scheduled four times
  with a caller waiting.
\<close>

theorem proxy_delivers_formatted:
  assumes "run (proxy_step net) NewListener ls s" and "c \<in> set (p_accepted s)"
    and "Format h = Inr w" and "proxyable (RemoteAddr h) (LocalAddr h)"
    and "conn_content (net c) = w @ data"
    and "\<forall>l \<in> set ls. \<not> deadline_fails c l"
  shows "\<exists>p. Conn p = c \<and> conn_content (connState p) = data
    \<and> proxyConn_RemoteAddr p = RemoteAddr (canonical_header (RemoteAddr h) (LocalAddr h))
    \<and> proxyConn_LocalAddr p = LocalAddr (canonical_header (RemoteAddr h) (LocalAddr h))
    \<and> (\<forall>q \<in> set (p_delivered s). Conn q = c \<longrightarrow> q = p)
    \<and> (\<not> p_done s \<longrightarrow> c \<notin> set (p_closed s) \<and> (p \<in> set (p_delivered s) \<or> can_deliver net p 5 s))
    \<and> (\<not> p_done s \<and> p \<notin> set (p_delivered s) \<and> 0 < p_callers s \<longrightarrow>
        (\<exists>l t. handler_label c l \<and> \<not> deadline_fails c l \<and> proxy_step net l s t))
    \<and> length (filter (handler_label c) ls) \<le> 4"
proof -
  let ?h = "canonical_header (RemoteAddr h) (LocalAddr h)"
  obtain c' where r: "ReadHeader conn_Read conn_LocalAddr conn_RemoteAddr (net c) = Some (Inr ?h, c')"
    "conn_content c' = data"
    using Format_ReadHeader_roundtrip_lemma [OF assms(4)] assms(3,5) by fastforce
  define p where "p = proxied c c' ?h"
  have h: "stream_header (net c) = Inr ?h" using ReadHeader_stream_header [of "net c"] r(1) by auto
  have one: "q = p" if "q \<in> set (p_delivered s)" "Conn q = c" for q
    using sound_run [OF assms(1)] conn_ok_proxied [of net q] r(1) that by (auto simp: sound_def p_def)
  have "kept c NewListener" by (simp add: kept_def NewListener_def)
  from kept_run [OF assms(1) this h assms(6)] have closed: "c \<notin> set (p_closed s)" if "\<not> p_done s"
    using that by (simp add: kept_def)
  have "mset (p_accepted s) = in_flight s + mset (map Conn (p_delivered s)) + mset (p_closed s)"
    using conserved_run [OF assms(1)] by (simp add: conserved_def)
  moreover have "c \<in># mset (p_accepted s)" using assms(2) by simp
  ultimately have "c \<in># in_flight s + mset (map Conn (p_delivered s)) + mset (p_closed s)" by metis
  then have fl: "p \<in> set (p_delivered s) \<or> c \<in># in_flight s" if "\<not> p_done s"
    using closed [OF that] one by auto
  have "steps_left c NewListener = 4" by (simp add: steps_left_def NewListener_def)
  then have "length (filter (handler_label c) ls) \<le> 4" using steps_left_run [OF assms(1), of c] by simp
  moreover have "can_deliver net p 5 s" if "c \<in># in_flight s"
    using in_flight_can_deliver [OF sound_run [OF assms(1)] that r(1)] by (simp add: p_def)
  moreover note in_flight_progress [of c s net]
  ultimately show ?thesis using closed fl one r(2)
    by (intro exI [of _ p])
      (auto simp: p_def proxied_def proxyConn_RemoteAddr_def proxyConn_LocalAddr_def)
qed

text \<open>The connection of the example run, with bytes of the client behind its header.\<close>

definition demo_client_net :: "conn_id \<Rightarrow> net_conn" where
  "demo_client_net c =
     \<lparr>rd_segments = [wire 0x21 familyTCP4 [192, 0, 2, 1, 10, 0, 0, 1, 1, 2, 1, 187], [71, 69, 84]],
      rd_final = IoEOF, conn_LocalAddr = NilAddr, conn_RemoteAddr = NilAddr\<rparr>"

theorem proxy_delivers_formatted_witness:
  "\<exists>p. conn_content (connState p) = [71, 69, 84] \<and> proxyConn_RemoteAddr p = TCPAddr [192, 0, 2, 1] 258 []
    \<and> can_deliver demo_client_net p 5 (NewListener\<lparr>p_accepted := [0], p_handlers := {#HSetDeadline 0#}\<rparr>)"
proof -
  let ?s = "NewListener\<lparr>p_accepted := [0], p_handlers := {#HSetDeadline 0#}\<rparr>"
  have r: "run (proxy_step demo_client_net) NewListener [PInnerConn 0] ?s"
    by (rule run_loop, rule handleAccepts_step.intros(5)) (simp_all add: NewListener_def run_Nil)
  have f: "Format demo_header = Inr (wire 0x21 familyTCP4 [192, 0, 2, 1, 10, 0, 0, 1, 1, 2, 1, 187])"
    and p: "proxyable (RemoteAddr demo_header) (LocalAddr demo_header)"
    and n: "canonical_header (RemoteAddr demo_header) (LocalAddr demo_header) = demo_header"
    by code_simp+
  have s: "0 \<in> set (p_accepted ?s)" "\<not> p_done ?s" "p_delivered ?s = []" by (simp_all add: NewListener_def)
  from proxy_delivers_formatted [OF r s(1) f p, of "[71, 69, 84]"]
  obtain p where "conn_content (connState p) = [71, 69, 84]"
    "proxyConn_RemoteAddr p = RemoteAddr demo_header" "can_deliver demo_client_net p 5 ?s"
    using s(2,3) by (auto simp: demo_client_net_def conn_content_def n)
  then show ?thesis by (intro exI [of _ p]) (simp add: demo_header_def)
qed

end
