(* ===== verification/Go_Strings.thy ===== *)
theory Go_Strings
  imports Go_Prelude
begin

text \<open>
  The functions of packages \<^verbatim>\<open>strings\<close>, \<^verbatim>\<open>strconv\<close> and
  \<^verbatim>\<open>path/filepath\<close> (on Unix) that the code calls, with the facts the components
  use. A Go string is a list of bytes, here a HOL string. Every separator in the code is
  one byte, so the functions take a character.
\<close>

section \<open>Package strings\<close>

definition strings_Contains :: "string \<Rightarrow> char \<Rightarrow> bool" where
  "strings_Contains s c \<longleftrightarrow> c \<in> set s"

text \<open>\<^verbatim>\<open>strings.IndexByte\<close>; \<open>None\<close> is -1.\<close>

fun strings_IndexByte :: "string \<Rightarrow> char \<Rightarrow> nat option" where
  "strings_IndexByte [] c = None"
| "strings_IndexByte (x # xs) c =
     (if x = c then Some 0 else map_option Suc (strings_IndexByte xs c))"

definition strings_LastIndexByte :: "string \<Rightarrow> char \<Rightarrow> nat option" where
  "strings_LastIndexByte s c =
     map_option (\<lambda>i. length s - 1 - i) (strings_IndexByte (rev s) c)"

text \<open>\<^verbatim>\<open>strings.Split\<close>: never empty.\<close>

fun strings_Split :: "char \<Rightarrow> string \<Rightarrow> string list" where
  "strings_Split c [] = [[]]"
| "strings_Split c (x # xs) =
     (if x = c then [] # strings_Split c xs
      else (case strings_Split c xs of [] \<Rightarrow> [[x]] | f # fs \<Rightarrow> (x # f) # fs))"

text \<open>\<^verbatim>\<open>strings.SplitN(s, sep, 2)\<close>.\<close>

definition strings_SplitN2 :: "char \<Rightarrow> string \<Rightarrow> string list" where
  "strings_SplitN2 c s =
     (case strings_IndexByte s c of None \<Rightarrow> [s] | Some i \<Rightarrow> [take i s, drop (Suc i) s])"

fun strings_Join :: "string list \<Rightarrow> char \<Rightarrow> string" where
  "strings_Join [] c = []"
| "strings_Join [f] c = f"
| "strings_Join (f # g # fs) c = f @ c # strings_Join (g # fs) c"

definition strings_HasPrefix :: "string \<Rightarrow> char \<Rightarrow> bool" where
  "strings_HasPrefix s c \<longleftrightarrow> s \<noteq> [] \<and> hd s = c"

definition strings_HasSuffix :: "string \<Rightarrow> char \<Rightarrow> bool" where
  "strings_HasSuffix s c \<longleftrightarrow> s \<noteq> [] \<and> last s = c"

lemma IndexByte_None_iff [simp, go_string_simps]:
  "strings_IndexByte s c = None \<longleftrightarrow> c \<notin> set s"
  by (induction s) auto

lemma IndexByte_SomeD:
  "strings_IndexByte s c = Some i \<Longrightarrow>
     i < length s \<and> s ! i = c \<and> c \<notin> set (take i s) \<and> s = take i s @ c # drop (Suc i) s"
  by (induction s arbitrary: i) (auto split: if_splits)

lemma IndexByte_append:
  "c \<notin> set a \<Longrightarrow> strings_IndexByte (a @ c # b) c = Some (length a)"
  by (induction a) auto

lemma Split_not_Nil [simp, go_string_simps]: "strings_Split c s \<noteq> []"
  by (cases s) (auto split: list.splits)

lemma Split_append_sep [go_string_simps]:
  "strings_Split c (a @ c # b) = strings_Split c a @ strings_Split c b"
  by (induction a) (auto split: list.splits)

lemma Split_no_sep [go_string_simps]: "c \<notin> set s \<Longrightarrow> strings_Split c s = [s]"
  by (induction s) auto

lemma Split_fields: "f \<in> set (strings_Split c s) \<Longrightarrow> c \<notin> set f"
  by (induction s arbitrary: f) (auto split: list.splits if_splits)

text \<open>Splitting is undone by joining.\<close>

lemma Join_Cons: "fs \<noteq> [] \<Longrightarrow> strings_Join (f # fs) c = f @ c # strings_Join fs c"
  by (cases fs) auto

lemma Join_Cons_char: "strings_Join ((x # f) # fs) c = x # strings_Join (f # fs) c"
  by (cases fs) auto

lemma Join_Split [simp]: "strings_Join (strings_Split c s) c = s"
  by (induction s) (auto simp: Join_Cons Join_Cons_char split: list.splits)

lemma Join_append:
  "xs \<noteq> [] \<Longrightarrow> ys \<noteq> [] \<Longrightarrow> strings_Join (xs @ ys) c = strings_Join xs c @ c # strings_Join ys c"
proof (induction xs)
  case (Cons x xs)
  then show ?case by (cases "xs = []") (auto simp: Join_Cons)
qed simp

lemma SplitN2_sep [go_string_simps]:
  "c \<notin> set a \<Longrightarrow> strings_SplitN2 c (a @ c # b) = [a, b]"
  by (simp add: strings_SplitN2_def IndexByte_append)

text \<open>The part behind the separator is shorter: nested specifications end.\<close>

lemma SplitN2_shorter:
  "strings_SplitN2 c s = [a, b] \<Longrightarrow> length b < length s"
  by (auto simp: strings_SplitN2_def dest: IndexByte_SomeD split: option.splits)

lemma SplitN2_length2_iff: "(\<exists>a b. strings_SplitN2 c s = [a, b]) \<longleftrightarrow> c \<in> set s"
  using IndexByte_None_iff [of s c]
  by (auto simp: strings_SplitN2_def simp del: IndexByte_None_iff split: option.splits)

section \<open>Package strconv\<close>

definition dec_digit :: "char \<Rightarrow> int option" where
  "dec_digit c = (let n = of_char c in if 48 \<le> n \<and> n \<le> 57 then Some (n - 48) else None)"

definition errSyntax :: go_error where "errSyntax = SysError ''invalid syntax''"
definition errRange :: go_error where "errRange = SysError ''value out of range''"

text \<open>\<^verbatim>\<open>strconv.NumError\<close>, which unwraps to its cause.\<close>

definition NumError :: "string \<Rightarrow> string \<Rightarrow> go_error \<Rightarrow> go_error" where
  "NumError fn num err = ErrorfW ''strconv'' [ArgStr fn, ArgStr num] err"

text \<open>The loop of \<^verbatim>\<open>ParseUint(s, 10, 64)\<close>: the first bad digit or overflow ends it.\<close>

fun parse_digits :: "int \<Rightarrow> string \<Rightarrow> go_error + int" where
  "parse_digits n [] = Inr n"
| "parse_digits n (c # cs) =
     (case dec_digit c of
        None \<Rightarrow> Inl errSyntax
      | Some d \<Rightarrow> if 2 ^ 64 \<le> 10 * n + d then Inl errRange else parse_digits (10 * n + d) cs)"

definition strconv_ParseUint :: "string \<Rightarrow> go_error + int" where
  "strconv_ParseUint s =
     (if s = [] then Inl (NumError ''ParseUint'' s errSyntax)
      else case parse_digits 0 s of Inl e \<Rightarrow> Inl (NumError ''ParseUint'' s e) | Inr n \<Rightarrow> Inr n)"

text \<open>\<^verbatim>\<open>Atoi\<close> (64-bit \<^verbatim>\<open>int\<close>): an optional sign, then digits.\<close>

definition strconv_Atoi :: "string \<Rightarrow> go_error + int" where
  "strconv_Atoi s =
     (let neg = (s \<noteq> [] \<and> hd s = CHR ''-'');
          t = (if s \<noteq> [] \<and> (hd s = CHR ''-'' \<or> hd s = CHR ''+'') then tl s else s)
      in if t = [] then Inl (NumError ''Atoi'' s errSyntax)
         else case parse_digits 0 t of
           Inl e \<Rightarrow> Inl (NumError ''Atoi'' s e)
         | Inr n \<Rightarrow>
             if neg then (if 2 ^ 63 < n then Inl (NumError ''Atoi'' s errRange) else Inr (- n))
             else (if 2 ^ 63 \<le> n then Inl (NumError ''Atoi'' s errRange) else Inr n))"

lemma dec_digit_bounds: "dec_digit c = Some d \<Longrightarrow> 0 \<le> d \<and> d < 10"
  by (auto simp: dec_digit_def Let_def split: if_splits)

lemma parse_digits_bound:
  "parse_digits m s = Inr n \<Longrightarrow> 0 \<le> m \<Longrightarrow> m < 2 ^ 64 \<Longrightarrow> 0 \<le> n \<and> n < 2 ^ 64"
  by (induction m s rule: parse_digits.induct)
    (auto dest: dec_digit_bounds split: option.splits if_splits)

lemma Atoi_empty [simp, go_string_simps]: "strconv_Atoi [] = Inl (NumError ''Atoi'' [] errSyntax)"
  by (simp add: strconv_Atoi_def)

lemma Atoi_bounds: "strconv_Atoi s = Inr i \<Longrightarrow> - (2 ^ 63) \<le> i \<and> i < 2 ^ 63"
  using parse_digits_bound [of 0]
  by (fastforce simp: strconv_Atoi_def Let_def split: sum.splits if_splits)

section \<open>Package path/filepath\<close>

text \<open>
  \<^verbatim>\<open>filepath.Clean\<close>, on the components of the path: empty ones and \<^verbatim>\<open>.\<close> go away,
  \<^verbatim>\<open>..\<close> takes the component before it, and is dropped at the root. The stack of
  components kept so far is in reverse order.
\<close>

fun clean_comps :: "bool \<Rightarrow> string list \<Rightarrow> string list \<Rightarrow> string list" where
  "clean_comps rooted st [] = st"
| "clean_comps rooted st (c # cs) =
     (if c = [] \<or> c = ''.'' then clean_comps rooted st cs
      else if c = ''..'' then
        (case st of
           [] \<Rightarrow> clean_comps rooted (if rooted then [] else [''..'']) cs
         | t # ts \<Rightarrow> clean_comps rooted (if t = ''..'' then ''..'' # st else ts) cs)
      else clean_comps rooted (c # st) cs)"

definition path_rooted :: "string \<Rightarrow> bool" where
  "path_rooted p \<longleftrightarrow> strings_HasPrefix p CHR ''/''"

definition path_comps :: "string \<Rightarrow> string list" where
  "path_comps p = rev (clean_comps (path_rooted p) [] (strings_Split CHR ''/'' p))"

definition path_render :: "bool \<Rightarrow> string list \<Rightarrow> string" where
  "path_render rooted cs =
     (let body = strings_Join cs CHR ''/''
      in if rooted then CHR ''/'' # body else if cs = [] then ''.'' else body)"

definition filepath_Clean :: "string \<Rightarrow> string" where
  "filepath_Clean p = path_render (path_rooted p) (path_comps p)"

text \<open>\<^verbatim>\<open>filepath.Join\<close> of two elements.\<close>

definition filepath_Join :: "string \<Rightarrow> string \<Rightarrow> string" where
  "filepath_Join a b =
     (if a \<noteq> [] then filepath_Clean (a @ CHR ''/'' # b)
      else if b \<noteq> [] then filepath_Clean b else [])"

text \<open>\<^verbatim>\<open>filepath.Dir\<close>: everything up to the last slash, cleaned.\<close>

definition filepath_Dir :: "string \<Rightarrow> string" where
  "filepath_Dir p =
     filepath_Clean (case strings_LastIndexByte p CHR ''/'' of
       None \<Rightarrow> [] | Some i \<Rightarrow> take (Suc i) p)"

lemma clean_comps_append:
  "clean_comps r st (xs @ ys) = clean_comps r (clean_comps r st xs) ys"
  by (induction r st xs rule: clean_comps.induct) (auto split: list.splits)

text \<open>
  What cleaning leaves: proper components, with \<^verbatim>\<open>..\<close> only at the front of a path
  that is not rooted (at the bottom of the stack).
\<close>

fun comps_ok :: "bool \<Rightarrow> string list \<Rightarrow> bool" where
  "comps_ok r [] = True"
| "comps_ok r (t # ts) =
     (t \<noteq> [] \<and> t \<noteq> ''.'' \<and> CHR ''/'' \<notin> set t
      \<and> (t = ''..'' \<longrightarrow> \<not> r \<and> set ts \<subseteq> {''..''}) \<and> comps_ok r ts)"

lemma clean_comps_ok:
  "comps_ok r st \<Longrightarrow> \<forall>c \<in> set cs. CHR ''/'' \<notin> set c \<Longrightarrow> comps_ok r (clean_comps r st cs)"
  by (induction r st cs rule: clean_comps.induct) (auto split: list.splits)

lemma comps_ok_append: "comps_ok r (xs @ ys) \<Longrightarrow> comps_ok r ys"
  by (induction xs) auto

lemma clean_comps_id: "comps_ok r (rev cs @ st) \<Longrightarrow> clean_comps r st cs = rev cs @ st"
proof (induction cs arbitrary: st)
  case (Cons c cs)
  then have "comps_ok r (c # st)" using comps_ok_append [of r "rev cs" "c # st"] by simp
  then have "clean_comps r st (c # cs) = clean_comps r (c # st) cs" by (cases st) auto
  also have "\<dots> = rev cs @ c # st" using Cons.IH [of "c # st"] Cons.prems by simp
  finally show ?case by simp
qed simp

lemma Split_Join:
  "cs \<noteq> [] \<Longrightarrow> \<forall>c \<in> set cs. sep \<notin> set c \<Longrightarrow> strings_Split sep (strings_Join cs sep) = cs"
proof (induction cs)
  case (Cons c cs)
  then show ?case by (cases "cs = []") (auto simp: Join_Cons Split_append_sep Split_no_sep)
qed simp

lemma comps_ok_no_slash: "comps_ok r st \<Longrightarrow> \<forall>c \<in> set st. c \<noteq> [] \<and> CHR ''/'' \<notin> set c"
  by (induction st) auto

lemma hd_Join: "c \<noteq> [] \<Longrightarrow> hd (strings_Join (c # cs) x) = hd c"
  by (cases cs) simp_all

lemma path_of_render:
  assumes "comps_ok r (rev cs)"
  shows "path_rooted (path_render r cs) = r" and "path_comps (path_render r cs) = cs"
proof -
  have cs: "\<forall>c \<in> set cs. c \<noteq> [] \<and> CHR ''/'' \<notin> set c" using comps_ok_no_slash [OF assms] by simp
  have "hd (strings_Join cs CHR ''/'') \<noteq> CHR ''/''" if ne: "cs \<noteq> []"
  proof -
    obtain c cs' where c: "cs = c # cs'" "c \<noteq> []" "CHR ''/'' \<notin> set c" using ne cs by (cases cs) auto
    then show ?thesis using hd_in_set [of c] by (metis hd_Join)
  qed
  then show r: "path_rooted (path_render r cs) = r"
    by (auto simp: path_render_def path_rooted_def strings_HasPrefix_def Let_def split: if_splits)
  show "path_comps (path_render r cs) = cs"
  proof (cases "cs = []")
    case True
    then show ?thesis by (simp add: path_comps_def path_render_def)
  next
    case False
    then have "strings_Split CHR ''/'' (strings_Join cs CHR ''/'') = cs" using Split_Join cs by blast
    then show ?thesis using r False clean_comps_id [of r cs "[]"] assms
      by (cases r) (simp_all add: path_comps_def path_render_def)
  qed
qed

lemma path_comps_ok: "comps_ok (path_rooted p) (rev (path_comps p))"
  using Split_fields by (auto simp: path_comps_def intro!: clean_comps_ok)

lemma path_of_Clean:
  "path_rooted (filepath_Clean p) = path_rooted p" "path_comps (filepath_Clean p) = path_comps p"
  using path_of_render [OF path_comps_ok] by (simp_all add: filepath_Clean_def)

lemma filepath_Clean_idem [simp]: "filepath_Clean (filepath_Clean p) = filepath_Clean p"
  using path_of_Clean [of p] by (simp add: filepath_Clean_def)

text \<open>Cleaned paths are equal when their components are.\<close>

lemma filepath_Clean_eq_iff:
  "filepath_Clean p = filepath_Clean q \<longleftrightarrow>
     path_rooted p = path_rooted q \<and> path_comps p = path_comps q"
proof
  assume "filepath_Clean p = filepath_Clean q"
  then have "path_rooted (filepath_Clean p) = path_rooted (filepath_Clean q)
    \<and> path_comps (filepath_Clean p) = path_comps (filepath_Clean q)" by simp
  then show "path_rooted p = path_rooted q \<and> path_comps p = path_comps q"
    by (simp only: path_of_Clean)
qed (simp add: filepath_Clean_def)

text \<open>A file name: not empty, no slash, and not one of the two special entries.\<close>

definition is_file_name :: "string \<Rightarrow> bool" where
  "is_file_name f \<longleftrightarrow> f \<noteq> [] \<and> f \<noteq> ''.'' \<and> f \<noteq> ''..'' \<and> CHR ''/'' \<notin> set f"

lemma path_comps_child:
  assumes "d \<noteq> []" and "is_file_name f"
  shows "path_comps (d @ CHR ''/'' # f) = path_comps d @ [f]"
    and "path_rooted (d @ CHR ''/'' # f) = path_rooted d"
  using assms
  by (simp_all add: path_comps_def path_rooted_def strings_HasPrefix_def is_file_name_def
      Split_append_sep Split_no_sep clean_comps_append)

text \<open>Joining a directory and a file name names a child of that directory, no other file.\<close>

lemma filepath_Join_child:
  assumes "d \<noteq> []" and "is_file_name f"
  shows "filepath_Join d f = path_render (path_rooted d) (path_comps d @ [f])"
  using path_comps_child [OF assms] assms(1) by (simp add: filepath_Join_def filepath_Clean_def)

lemma filepath_Join_inj:
  assumes "d \<noteq> []" "is_file_name f" "is_file_name g" "filepath_Join d f = filepath_Join d g"
  shows "f = g"
  using assms
  by (cases "path_comps d = []")
    (auto simp: filepath_Join_child path_render_def Let_def Join_append split: if_splits)

lemma path_of_Join_child:
  assumes "d \<noteq> []" and "is_file_name f"
  shows "path_rooted (filepath_Join d f) = path_rooted d"
    and "path_comps (filepath_Join d f) = path_comps d @ [f]"
proof -
  have "filepath_Join d f = filepath_Clean (d @ CHR ''/'' # f)"
    using assms(1) unfolding filepath_Join_def by simp
  then show "path_rooted (filepath_Join d f) = path_rooted d"
    and "path_comps (filepath_Join d f) = path_comps d @ [f]"
    by (simp_all only: path_of_Clean path_comps_child [OF assms])
qed

end
