(* ===== verification/Go_Os.thy ===== *)
theory Go_Os
  imports Go_Net Go_Strings "HOL-Library.AList"
begin

text \<open>
  The operating system as the listeners use it: a file system, the open listening
  sockets and the file descriptors the program closed. Every system call can fail for
  reasons of its own; whether it does, and what the environment holds, is given by a
  record of functions, the parameter \<open>env\<close> of the definitions. What a call does when it
  succeeds is defined here. Paths are looked up cleaned, so that two spellings of a path
  name one file; symbolic links are not modelled.
\<close>

section \<open>State\<close>

datatype file_kind = KDir | KSocket | KFile

record inode =
  ino :: nat
  kind :: file_kind
  perm :: nat

text \<open>
  A listening socket: TCP (network, IP or none, port), inherited from a file descriptor,
  or UNIX (bound path, inode, whether closing it unlinks the path).
\<close>

datatype socket =
    SockTCP string "ip option" int
  | SockFile int string
  | SockUnix string nat bool

record os_state =
  os_fs :: "(string \<times> inode) list"
  os_next :: nat
  os_socks :: "(nat \<times> socket) list"
  os_closed_fds :: "int list"

datatype syscall =
    SysMkdirTemp string string
  | SysListenUnix string
  | SysListenTCP string "ip option" int
  | SysFileListener int string
  | SysChmod string nat
  | SysLstat string
  | SysRename string string
  | SysRemove string

record os_env =
  os_err :: "syscall \<Rightarrow> os_state \<Rightarrow> go_error option"
  os_random :: "os_state \<Rightarrow> string"
  os_umode :: nat
  os_Getenv :: "string \<Rightarrow> string"
  os_Getpid :: int
  os_Getuid :: int

definition os_lookup :: "os_state \<Rightarrow> string \<Rightarrow> inode option" where
  "os_lookup s p = map_of (os_fs s) (filepath_Clean p)"

definition os_link :: "string \<Rightarrow> inode \<Rightarrow> os_state \<Rightarrow> os_state" where
  "os_link p i s = s\<lparr>os_fs := AList.update (filepath_Clean p) i (os_fs s)\<rparr>"

definition os_unlink :: "string \<Rightarrow> os_state \<Rightarrow> os_state" where
  "os_unlink p s = s\<lparr>os_fs := AList.delete (filepath_Clean p) (os_fs s)\<rparr>"

section \<open>Files\<close>

text \<open>
  \<^verbatim>\<open>os.MkdirTemp\<close>: a new directory whose name ends in a random string; if that name
  is taken after all attempts, an error.
\<close>

definition os_joinPath :: "string \<Rightarrow> string \<Rightarrow> string" where
  "os_joinPath dir name =
     (if strings_HasSuffix dir CHR ''/'' then dir @ name else dir @ CHR ''/'' # name)"

definition os_MkdirTemp ::
  "os_env \<Rightarrow> string \<Rightarrow> string \<Rightarrow> os_state \<Rightarrow> (go_error + string) \<times> os_state"
where
  "os_MkdirTemp env dir pattern s =
     (case os_err env (SysMkdirTemp dir pattern) s of
        Some e \<Rightarrow> (Inl e, s)
      | None \<Rightarrow>
          let name = os_joinPath dir pattern @ os_random env s
          in if os_lookup s name \<noteq> None then (Inl (SysError ''file exists''), s)
             else (Inr name, os_link name \<lparr>ino = os_next s, kind = KDir, perm = 448\<rparr>
                               (s\<lparr>os_next := Suc (os_next s)\<rparr>)))"

definition os_Chmod :: "os_env \<Rightarrow> string \<Rightarrow> nat \<Rightarrow> os_state \<Rightarrow> go_error option \<times> os_state" where
  "os_Chmod env p mode s =
     (case os_err env (SysChmod p mode) s of
        Some e \<Rightarrow> (Some e, s)
      | None \<Rightarrow>
          (case os_lookup s p of
             None \<Rightarrow> (Some (SysError ''no such file or directory''), s)
           | Some i \<Rightarrow> (None, os_link p (i\<lparr>perm := mode\<rparr>) s)))"

definition os_Lstat :: "os_env \<Rightarrow> string \<Rightarrow> os_state \<Rightarrow> go_error + inode" where
  "os_Lstat env p s =
     (case os_err env (SysLstat p) s of
        Some e \<Rightarrow> Inl e
      | None \<Rightarrow>
          (case os_lookup s p of
             None \<Rightarrow> Inl (SysError ''no such file or directory'')
           | Some i \<Rightarrow> Inr i))"

text \<open>\<^verbatim>\<open>os.SameFile\<close>.\<close>

definition os_SameFile :: "inode \<Rightarrow> inode \<Rightarrow> bool" where
  "os_SameFile i j \<longleftrightarrow> ino i = ino j"

text \<open>\<^verbatim>\<open>os.Rename\<close> of a file: replaces what is at the new path, but no directory.\<close>

definition os_Rename :: "os_env \<Rightarrow> string \<Rightarrow> string \<Rightarrow> os_state \<Rightarrow> go_error option \<times> os_state" where
  "os_Rename env old new s =
     (case os_err env (SysRename old new) s of
        Some e \<Rightarrow> (Some e, s)
      | None \<Rightarrow>
          (case os_lookup s old of
             None \<Rightarrow> (Some (SysError ''no such file or directory''), s)
           | Some i \<Rightarrow>
               if (case os_lookup s new of None \<Rightarrow> False | Some j \<Rightarrow> kind j = KDir)
                 then (Some (SysError ''file exists''), s)
               else (None, os_link new i (os_unlink old s))))"

text \<open>Entries of a directory: the paths whose components extend its own.\<close>

definition path_under :: "string \<Rightarrow> string \<Rightarrow> bool" where
  "path_under dir p \<longleftrightarrow> path_rooted p = path_rooted dir \<and>
     length (path_comps dir) < length (path_comps p) \<and>
     take (length (path_comps dir)) (path_comps p) = path_comps dir"

definition os_Remove :: "os_env \<Rightarrow> string \<Rightarrow> os_state \<Rightarrow> go_error option \<times> os_state" where
  "os_Remove env p s =
     (case os_err env (SysRemove p) s of
        Some e \<Rightarrow> (Some e, s)
      | None \<Rightarrow>
          (case os_lookup s p of
             None \<Rightarrow> (Some (SysError ''no such file or directory''), s)
           | Some i \<Rightarrow>
               if kind i = KDir \<and> list_ex (\<lambda>(q, _). path_under p q) (os_fs s)
                 then (Some (SysError ''directory not empty''), s)
               else (None, os_unlink p s)))"

section \<open>Sockets\<close>

definition os_new_sock :: "socket \<Rightarrow> os_state \<Rightarrow> nat \<times> os_state" where
  "os_new_sock k s =
     (os_next s, s\<lparr>os_next := Suc (os_next s), os_socks := (os_next s, k) # os_socks s\<rparr>)"

definition net_ListenUnix :: "os_env \<Rightarrow> string \<Rightarrow> os_state \<Rightarrow> (go_error + nat) \<times> os_state" where
  "net_ListenUnix env p s =
     (case os_err env (SysListenUnix p) s of
        Some e \<Rightarrow> (Inl e, s)
      | None \<Rightarrow>
          if os_lookup s p \<noteq> None then (Inl (SysError ''address already in use''), s)
          else let (n, s') = os_new_sock (SockUnix p (os_next s) True) s
               in (Inr n, os_link p \<lparr>ino = os_next s, kind = KSocket, perm = os_umode env\<rparr> s'))"

definition net_ListenTCP ::
  "os_env \<Rightarrow> string \<Rightarrow> ip option \<Rightarrow> int \<Rightarrow> os_state \<Rightarrow> (go_error + nat) \<times> os_state"
where
  "net_ListenTCP env network i port s =
     (case os_err env (SysListenTCP network i port) s of
        Some e \<Rightarrow> (Inl e, s)
      | None \<Rightarrow> (case os_new_sock (SockTCP network i port) s of (n, s') \<Rightarrow> (Inr n, s')))"

text \<open>
  \<^verbatim>\<open>os.NewFile(fd, name)\<close> is nil for a descriptor that is negative as an
  \<^verbatim>\<open>int\<close>; \<^verbatim>\<open>net.FileListener\<close> duplicates the descriptor, and asks the file for its
  name when that fails, which panics for nil. Closing nil does nothing.
\<close>

definition os_NewFile :: "int \<Rightarrow> int option" where
  "os_NewFile fd = (if fd < 2 ^ 63 then Some fd else None)"

definition net_FileListener ::
  "os_env \<Rightarrow> int option \<Rightarrow> string \<Rightarrow> os_state \<Rightarrow> (failure + nat) \<times> os_state"
where
  "net_FileListener env file name s =
     (case file of
        None \<Rightarrow> (Inl (Panics NilDereference), s)
      | Some fd \<Rightarrow>
          (case os_err env (SysFileListener fd name) s of
             Some e \<Rightarrow> (Inl (Fails e), s)
           | None \<Rightarrow> (case os_new_sock (SockFile fd name) s of (n, s') \<Rightarrow> (Inr n, s'))))"

definition os_CloseFile :: "int option \<Rightarrow> os_state \<Rightarrow> os_state" where
  "os_CloseFile file s =
     (case file of None \<Rightarrow> s | Some fd \<Rightarrow> s\<lparr>os_closed_fds := os_closed_fds s @ [fd]\<rparr>)"

text \<open>
  \<^verbatim>\<open>Close\<close> of a listener on a socket: a second close is an error, and a UNIX listener
  unlinks its path first unless told not to.
\<close>

definition sock_Close :: "nat \<Rightarrow> os_state \<Rightarrow> go_error option \<times> os_state" where
  "sock_Close n s =
     (case map_of (os_socks s) n of
        None \<Rightarrow> (Some (OpError ''close'' NetErrClosed), s)
      | Some k \<Rightarrow>
          (None, (case k of SockUnix p _ True \<Rightarrow> os_unlink p s | _ \<Rightarrow> s)
                   \<lparr>os_socks := AList.delete n (os_socks s)\<rparr>))"

definition sock_SetUnlinkOnClose :: "nat \<Rightarrow> bool \<Rightarrow> os_state \<Rightarrow> os_state" where
  "sock_SetUnlinkOnClose n b s =
     (case map_of (os_socks s) n of
        Some (SockUnix p i _) \<Rightarrow> s\<lparr>os_socks := AList.update n (SockUnix p i b) (os_socks s)\<rparr>
      | _ \<Rightarrow> s)"

section \<open>Facts\<close>

named_theorems os_simps

text \<open>Every open socket has a number below the next one.\<close>

definition os_wf :: "os_state \<Rightarrow> bool" where
  "os_wf s \<longleftrightarrow> (\<forall>(n, k) \<in> set (os_socks s). n < os_next s)"

lemma os_wf_fresh: "os_wf s \<Longrightarrow> map_of (os_socks s) (os_next s) = None"
  by (auto simp: os_wf_def map_of_eq_None_iff)

lemma os_fs_link [simp, os_simps]:
  "map_of (os_fs (os_link p i s)) = (map_of (os_fs s))(filepath_Clean p \<mapsto> i)"
  by (simp add: os_link_def update_conv')

lemma os_fs_unlink [simp, os_simps]:
  "map_of (os_fs (os_unlink p s)) = (map_of (os_fs s))(filepath_Clean p := None)"
  by (simp add: os_unlink_def delete_conv')

lemma os_link_frame [simp, os_simps]:
  "os_socks (os_link p i s) = os_socks s" "os_next (os_link p i s) = os_next s"
  "os_closed_fds (os_link p i s) = os_closed_fds s"
  by (simp_all add: os_link_def)

lemma os_unlink_frame [simp, os_simps]:
  "os_socks (os_unlink p s) = os_socks s" "os_next (os_unlink p s) = os_next s"
  "os_closed_fds (os_unlink p s) = os_closed_fds s"
  by (simp_all add: os_unlink_def)

lemma os_wf_new_sock [intro]: "os_wf s \<Longrightarrow> os_new_sock k s = (n, t) \<Longrightarrow> os_wf t"
  by (fastforce simp: os_wf_def os_new_sock_def)

text \<open>Closing a socket just opened gives back the sockets there were.\<close>

lemma delete_fresh: "map_of xs k = None \<Longrightarrow> AList.delete k xs = xs"
  by (simp add: map_of_eq_None_iff delete_idem)

text \<open>The file system as a map, and removal in its terms.\<close>

abbreviation fsmap :: "os_state \<Rightarrow> string \<rightharpoonup> inode" where
  "fsmap s \<equiv> map_of (os_fs s)"

lemma list_ex_dom: "list_ex (\<lambda>(q, _). P q) xs \<longleftrightarrow> (\<exists>q \<in> dom (map_of xs). P q)"
  by (force simp: list_ex_iff dom_map_of_conv_image_fst)

lemma os_Remove_missing: "os_lookup s p = None \<Longrightarrow> snd (os_Remove env p s) = s"
  by (simp add: os_Remove_def split: option.splits)

lemma os_Remove_file:
  "os_err env (SysRemove p) s = None \<Longrightarrow> os_lookup s p = Some i \<Longrightarrow> kind i \<noteq> KDir \<Longrightarrow>
     snd (os_Remove env p s) = os_unlink p s"
  by (simp add: os_Remove_def)

lemma os_Remove_empty_dir:
  "os_err env (SysRemove p) s = None \<Longrightarrow> os_lookup s p = Some i \<Longrightarrow>
     \<forall>q \<in> dom (fsmap s). \<not> path_under p q \<Longrightarrow> snd (os_Remove env p s) = os_unlink p s"
  by (simp add: os_Remove_def list_ex_dom)

lemma path_under_Clean [simp]: "path_under d (filepath_Clean p) = path_under d p"
  by (simp add: path_under_def path_of_Clean)

lemma path_under_Join: "d \<noteq> [] \<Longrightarrow> is_file_name f \<Longrightarrow> path_under d (filepath_Join d f)"
  by (simp add: path_under_def path_of_Join_child)

lemma path_under_irrefl: "filepath_Clean p = filepath_Clean d \<Longrightarrow> \<not> path_under d p"
  by (simp add: path_under_def filepath_Clean_eq_iff)

end
