(* ===== verification/Unix_Listener.thy ===== *)
theory Unix_Listener
  imports Go_Os
begin

text \<open>
  \<^verbatim>\<open>unix/listener.go\<close>: a UNIX listener that puts its socket in place atomically, and
  closes itself when the socket file is replaced.
\<close>

section \<open>The watched listener\<close>

text \<open>
  \<open>wl_closed\<close>: the channel \<^verbatim>\<open>closed\<close> is closed. \<open>wl_watch\<close>: the arguments of the
  watching goroutine.
\<close>

record watchedListener =
  wl_listener :: nat
  wl_closed :: bool
  wl_watch :: "string \<times> inode"

definition newWatchedListener :: "nat \<Rightarrow> string \<Rightarrow> inode \<Rightarrow> watchedListener" where
  "newWatchedListener listener path info =
     \<lparr>wl_listener = listener, wl_closed = False, wl_watch = (path, info)\<rparr>"

text \<open>\<^verbatim>\<open>Close\<close>: closing a closed channel panics.\<close>

definition wl_Close ::
  "watchedListener \<Rightarrow> os_state \<Rightarrow> go_panic + (go_error option \<times> watchedListener \<times> os_state)"
where
  "wl_Close wl s =
     (if wl_closed wl then Inl CloseOfClosedChannel
      else case sock_Close (wl_listener wl) s of
             (r, s') \<Rightarrow> Inr (r, wl\<lparr>wl_closed := True\<rparr>, s'))"

text \<open>
  \<^verbatim>\<open>Addr\<close>: a UNIX listener of the standard library gives the name it was bound to,
  whatever happened to the file since. Stated for a listener whose socket is open.
\<close>

definition wl_Addr :: "watchedListener \<Rightarrow> os_state \<Rightarrow> addr option" where
  "wl_Addr wl s =
     (case map_of (os_socks s) (wl_listener wl) of
        Some (SockUnix name _ _) \<Rightarrow> Some (UnixAddr name ''unix'')
      | _ \<Rightarrow> None)"

text \<open>
  \<^verbatim>\<open>watch\<close>: what the select receives, one event after the other. A tick carries the
  state of the system at that moment. The result: still watching, returned because the
  listener was closed, or closed the listener itself in the given state.
\<close>

datatype watch_event = WatchClosed | WatchTick os_state

datatype watch_result = StillWatching | SawClosed | ClosedListener os_state

fun watch :: "os_env \<Rightarrow> nat \<Rightarrow> string \<Rightarrow> inode \<Rightarrow> watch_event list \<Rightarrow> watch_result" where
  "watch env listener path info [] = StillWatching"
| "watch env listener path info (WatchClosed # es) = SawClosed"
| "watch env listener path info (WatchTick s # es) =
     (if \<not> (case os_Lstat env path s of Inl _ \<Rightarrow> False | Inr latestInfo \<Rightarrow> os_SameFile info latestInfo)
      then ClosedListener (snd (sock_Close listener s))
      else watch env listener path info es)"

section \<open>Listen\<close>

text \<open>
  The three deferred calls, in the reverse of the order they were deferred: close the
  listener unless it was handed over, remove the socket, remove the directory.
\<close>

definition Listen_defers ::
  "os_env \<Rightarrow> string \<Rightarrow> string \<Rightarrow> nat option \<Rightarrow> os_state \<Rightarrow> os_state"
where
  "Listen_defers env tempDir tempPath tempListener s =
     (let s = (case tempListener of None \<Rightarrow> s | Some l \<Rightarrow> snd (sock_Close l s));
          s = snd (os_Remove env tempPath s);
          s = snd (os_Remove env tempDir s)
      in s)"

definition Listen ::
  "os_env \<Rightarrow> string \<Rightarrow> nat \<Rightarrow> os_state \<Rightarrow> (go_error + watchedListener) \<times> os_state"
where
  "Listen env path mode s =
     (case os_MkdirTemp env (filepath_Dir path) ''.tmp'' s of
        (Inl err, s) \<Rightarrow>
          (Inl (ErrorfW ''error creating temporary directory to hold Unix socket: %w'' [] err), s)
      | (Inr tempDir, s) \<Rightarrow>
          (let tempPath = filepath_Join tempDir ''socket''
           in case net_ListenUnix env tempPath s of
                (Inl err, s) \<Rightarrow> (Inl err, snd (os_Remove env tempDir s))
              | (Inr tempListener, s) \<Rightarrow>
                  (let s = sock_SetUnlinkOnClose tempListener False s
                   in case os_Chmod env tempPath mode s of
                        (Some err, s) \<Rightarrow>
                          (Inl err, Listen_defers env tempDir tempPath (Some tempListener) s)
                      | (None, s) \<Rightarrow>
                          (case os_Lstat env tempPath s of
                             Inl err \<Rightarrow>
                               (Inl err, Listen_defers env tempDir tempPath (Some tempListener) s)
                           | Inr fileInfo \<Rightarrow>
                               (case os_Rename env tempPath path s of
                                  (Some err, s) \<Rightarrow>
                                    (Inl err, Listen_defers env tempDir tempPath (Some tempListener) s)
                                | (None, s) \<Rightarrow>
                                    (Inr (newWatchedListener tempListener path fileInfo),
                                     Listen_defers env tempDir tempPath None s))))))"

section \<open>The temporary files\<close>

definition temp_dir :: "os_env \<Rightarrow> string \<Rightarrow> os_state \<Rightarrow> string" where
  "temp_dir env path s = os_joinPath (filepath_Dir path) ''.tmp'' @ os_random env s"

definition temp_path :: "os_env \<Rightarrow> string \<Rightarrow> os_state \<Rightarrow> string" where
  "temp_path env path s = filepath_Join (temp_dir env path s) ''socket''"

text \<open>
  What \<open>Listen\<close> relies on: the two temporary names can be removed again, nothing is
  below the name of the new directory yet, and the target is neither that directory nor
  in it.
\<close>

definition Listen_env_ok :: "os_env \<Rightarrow> string \<Rightarrow> os_state \<Rightarrow> bool" where
  "Listen_env_ok env path s \<longleftrightarrow>
     (let d = temp_dir env path s
      in (\<forall>t. os_err env (SysRemove d) t = None)
       \<and> (\<forall>t. os_err env (SysRemove (temp_path env path s)) t = None)
       \<and> (\<forall>q \<in> dom (fsmap s). \<not> path_under d q)
       \<and> \<not> path_under d path \<and> filepath_Clean path \<noteq> filepath_Clean d
       \<and> os_wf s)"

lemma temp_names:
  "temp_dir env path s \<noteq> []" "path_under (temp_dir env path s) (temp_path env path s)"
  "filepath_Clean (temp_path env path s) \<noteq> filepath_Clean (temp_dir env path s)"
proof -
  show d: "temp_dir env path s \<noteq> []" by (simp add: temp_dir_def os_joinPath_def)
  show "path_under (temp_dir env path s) (temp_path env path s)"
    unfolding temp_path_def by (rule path_under_Join [OF d]) (simp add: is_file_name_def)
  then show "filepath_Clean (temp_path env path s) \<noteq> filepath_Clean (temp_dir env path s)"
    using path_under_irrefl by blast
qed

text \<open>
  The state between the listening and the rename: the directory, the socket file in it,
  and one more open socket; all the rest is as in \<open>s\<close>.
\<close>

definition temp_inode :: "os_state \<Rightarrow> inode" where
  "temp_inode s = \<lparr>ino = os_next s, kind = KDir, perm = 448\<rparr>"

definition mid_state :: "os_env \<Rightarrow> string \<Rightarrow> os_state \<Rightarrow> nat \<Rightarrow> inode \<Rightarrow> os_state \<Rightarrow> bool" where
  "mid_state env path s n i t \<longleftrightarrow>
     fsmap s (filepath_Clean (temp_dir env path s)) = None
     \<and> fsmap s (filepath_Clean (temp_path env path s)) = None
     \<and> map_of (os_socks s) n = None \<and> kind i = KSocket
     \<and> os_socks t = (n, SockUnix (temp_path env path s) (ino i) False) # os_socks s
     \<and> fsmap t = (fsmap s)(filepath_Clean (temp_dir env path s) \<mapsto> temp_inode s,
          filepath_Clean (temp_path env path s) \<mapsto> i)"

lemma mid_state_start:
  assumes "os_wf s"
    and "os_MkdirTemp env (filepath_Dir path) ''.tmp'' s = (Inr d, t)"
    and "net_ListenUnix env (filepath_Join d ''socket'') t = (Inr n, u)"
  shows "d = temp_dir env path s"
    and "\<exists>i. mid_state env path s n i (sock_SetUnlinkOnClose n False u)"
proof -
  show d: "d = temp_dir env path s"
    using assms(2)
    by (auto simp: os_MkdirTemp_def temp_dir_def Let_def split: option.splits if_splits)
  have "map_of (os_socks s) (Suc (os_next s)) = None"
    using assms(1) by (auto simp: os_wf_def map_of_eq_None_iff)
  then show "\<exists>i. mid_state env path s n i (sock_SetUnlinkOnClose n False u)"
    using assms(2,3) temp_names [of env path s] d
    by (intro exI [of _ "\<lparr>ino = Suc (os_next s), kind = KSocket, perm = os_umode env\<rparr>"])
      (auto simp: os_MkdirTemp_def net_ListenUnix_def mid_state_def os_lookup_def temp_inode_def
        os_new_sock_def sock_SetUnlinkOnClose_def temp_path_def [symmetric] temp_dir_def [symmetric]
        Let_def split: option.splits if_splits)
qed

text \<open>Removing the two temporary names, whatever else has changed.\<close>

lemma remove_temp_dir:
  assumes "Listen_env_ok env path s"
    and "fsmap t (filepath_Clean (temp_dir env path s)) = Some (temp_inode s)"
    and "dom (fsmap t) \<subseteq>
      dom (fsmap s) \<union> {filepath_Clean (temp_dir env path s), filepath_Clean path}"
  shows "snd (os_Remove env (temp_dir env path s) t) = os_unlink (temp_dir env path s) t"
proof (rule os_Remove_empty_dir)
  show "os_lookup t (temp_dir env path s) = Some (temp_inode s)"
    using assms(2) by (simp add: os_lookup_def)
  show "\<forall>q \<in> dom (fsmap t). \<not> path_under (temp_dir env path s) q"
  proof
    fix q assume "q \<in> dom (fsmap t)"
    then have "q \<in> dom (fsmap s) \<or> q = filepath_Clean (temp_dir env path s) \<or> q = filepath_Clean path"
      using assms(3) by blast
    then show "\<not> path_under (temp_dir env path s) q"
      using assms(1) by (auto simp: Listen_env_ok_def Let_def path_under_irrefl)
  qed
qed (use assms(1) in \<open>simp add: Listen_env_ok_def Let_def\<close>)

text \<open>The deferred calls undo everything when nothing was renamed.\<close>

lemma defers_undo:
  assumes ok: "Listen_env_ok env path s" and mid: "mid_state env path s n i t"
  defines "r \<equiv> Listen_defers env (temp_dir env path s) (temp_path env path s) (Some n) t"
  shows "fsmap r = fsmap s" and "os_socks r = os_socks s"
proof -
  let ?d = "temp_dir env path s" and ?q = "temp_path env path s"
  define t1 where "t1 = snd (sock_Close n t)"
  have t1: "fsmap t1 = fsmap t" "os_socks t1 = os_socks s"
    using mid by (simp_all add: t1_def sock_Close_def mid_state_def delete_fresh)
  have "snd (os_Remove env ?q t1) = os_unlink ?q t1"
    using ok mid t1 by (intro os_Remove_file [of env ?q t1 i])
      (simp_all add: Listen_env_ok_def Let_def os_lookup_def mid_state_def)
  moreover have "snd (os_Remove env ?d (os_unlink ?q t1)) = os_unlink ?d (os_unlink ?q t1)"
    using mid t1 temp_names(3) [of env path s]
    by (intro remove_temp_dir [OF ok]) (auto simp: mid_state_def)
  ultimately have r: "r = os_unlink ?d (os_unlink ?q t1)"
    by (simp add: r_def Listen_defers_def t1_def [symmetric])
  show "fsmap r = fsmap s" "os_socks r = os_socks s"
    using mid t1 by (auto simp: r mid_state_def fun_eq_iff)
qed

text \<open>The deferred calls leave the renamed socket, and only that.\<close>

lemma defers_keep:
  assumes ok: "Listen_env_ok env path s" and mid: "mid_state env path s n i t"
    and ren: "os_Rename env (temp_path env path s) path t = (None, u)"
  defines "r \<equiv> Listen_defers env (temp_dir env path s) (temp_path env path s) None u"
  shows "fsmap r = (fsmap s)(filepath_Clean path \<mapsto> i)"
    and "os_socks r = (n, SockUnix (temp_path env path s) (ino i) False) # os_socks s"
proof -
  let ?d = "temp_dir env path s" and ?q = "temp_path env path s"
  have u: "u = os_link path i (os_unlink ?q t)"
    using ren mid by (auto simp: os_Rename_def mid_state_def os_lookup_def split: option.splits if_splits)
  have ne: "filepath_Clean path \<noteq> filepath_Clean ?d" "filepath_Clean path \<noteq> filepath_Clean ?q"
    using ok temp_names(2) [of env path s] path_under_Clean
    by (auto simp: Listen_env_ok_def Let_def) (metis path_under_Clean)
  have "snd (os_Remove env ?q u) = u"
    using ne by (intro os_Remove_missing) (simp add: u os_lookup_def)
  moreover have "snd (os_Remove env ?d u) = os_unlink ?d u"
    using mid ne temp_names(3) [of env path s] u
    by (intro remove_temp_dir [OF ok]) (auto simp: mid_state_def)
  ultimately have r: "r = os_unlink ?d u" by (simp add: r_def Listen_defers_def)
  show "fsmap r = (fsmap s)(filepath_Clean path \<mapsto> i)"
    and "os_socks r = (n, SockUnix (temp_path env path s) (ino i) False) # os_socks s"
    using mid ne u by (auto simp: r mid_state_def fun_eq_iff)
qed

lemma mid_state_Chmod:
  assumes "mid_state env path s n i t" and "os_Chmod env (temp_path env path s) mode t = (e, u)"
  shows "mid_state env path s n (if e = None then i\<lparr>perm := mode\<rparr> else i) u"
  using assms
  by (auto simp: os_Chmod_def mid_state_def os_lookup_def split: option.splits)

section \<open>What Listen does\<close>

definition Listen_post ::
  "os_env \<Rightarrow> string \<Rightarrow> nat \<Rightarrow> os_state \<Rightarrow> go_error + watchedListener \<Rightarrow> os_state \<Rightarrow> bool"
where
  "Listen_post env path mode s r t =
     (case r of
        Inl _ \<Rightarrow> fsmap t = fsmap s \<and> os_socks t = os_socks s
      | Inr wl \<Rightarrow>
          (let i = snd (wl_watch wl)
           in fst (wl_watch wl) = path \<and> \<not> wl_closed wl
            \<and> kind i = KSocket \<and> perm i = mode
            \<and> fsmap t = (fsmap s)(filepath_Clean path \<mapsto> i)
            \<and> map_of (os_socks s) (wl_listener wl) = None
            \<and> os_socks t =
                (wl_listener wl, SockUnix (temp_path env path s) (ino i) False) # os_socks s))"

text \<open>Without a temporary socket only the directory is to be removed.\<close>

lemma ListenUnix_error_undo:
  assumes ok: "Listen_env_ok env path s"
    and mk: "os_MkdirTemp env (filepath_Dir path) ''.tmp'' s = (Inr d, t)"
    and li: "net_ListenUnix env q t = (Inl e, u)"
  shows "fsmap (snd (os_Remove env d u)) = fsmap s" "os_socks (snd (os_Remove env d u)) = os_socks s"
proof -
  have u: "u = t" using li by (auto simp: net_ListenUnix_def Let_def split: option.splits if_splits prod.splits)
  have d: "d = temp_dir env path s" "fsmap s (filepath_Clean d) = None"
    "fsmap t = (fsmap s)(filepath_Clean d \<mapsto> temp_inode s)" "os_socks t = os_socks s"
    using mk by (auto simp: os_MkdirTemp_def temp_dir_def temp_inode_def os_lookup_def Let_def
        split: option.splits if_splits)
  have "snd (os_Remove env d u) = os_unlink d u"
    unfolding d(1) u using d by (intro remove_temp_dir [OF ok]) auto
  then show "fsmap (snd (os_Remove env d u)) = fsmap s" "os_socks (snd (os_Remove env d u)) = os_socks s"
    using d u by (auto simp: fun_eq_iff)
qed

lemma Listen_after_listening:
  assumes ok: "Listen_env_ok env path s" and mid: "mid_state env path s n i u"
  defines "d \<equiv> temp_dir env path s" and "q \<equiv> temp_path env path s"
  assumes L: "(case os_Chmod env q mode u of
      (Some err, s) \<Rightarrow> (Inl err, Listen_defers env d q (Some n) s)
    | (None, s) \<Rightarrow>
        (case os_Lstat env q s of
           Inl err \<Rightarrow> (Inl err, Listen_defers env d q (Some n) s)
         | Inr fileInfo \<Rightarrow>
             (case os_Rename env q path s of
                (Some err, s) \<Rightarrow> (Inl err, Listen_defers env d q (Some n) s)
              | (None, s) \<Rightarrow>
                  (Inr (newWatchedListener n path fileInfo), Listen_defers env d q None s)))) = (r, t)"
  shows "Listen_post env path mode s r t"
proof -
  obtain ce v where c: "os_Chmod env q mode u = (ce, v)" by (cases "os_Chmod env q mode u")
  note midv = mid_state_Chmod [OF mid, folded q_def, OF c]
  note undo = defers_undo [OF ok midv, folded d_def q_def]
  show ?thesis
  proof (cases ce)
    case (Some err)
    then show ?thesis using L c undo by (auto simp: Listen_post_def)
  next
    case None
    note midv = midv [unfolded None, simplified]
    show ?thesis
    proof (cases "os_Lstat env q v")
      case (Inl err)
      then show ?thesis using L c None undo by (auto simp: Listen_post_def)
    next
      case (Inr fi)
      have fi: "fi = i\<lparr>perm := mode\<rparr>"
        using Inr midv by (auto simp: os_Lstat_def os_lookup_def mid_state_def q_def split: option.splits)
      obtain re w where ren: "os_Rename env q path v = (re, w)" by (cases "os_Rename env q path v")
      show ?thesis
      proof (cases re)
        case (Some err)
        then have "w = v" using ren by (auto simp: os_Rename_def split: option.splits if_splits)
        then show ?thesis using L c None Inr ren Some undo by (auto simp: Listen_post_def)
      next
        case reN: None
        have "r = Inr (newWatchedListener n path fi)" "t = Listen_defers env d q None w"
          using L c None Inr ren reN by auto
        then show ?thesis using defers_keep [OF ok midv, folded d_def q_def, of w] ren reN midv fi
          by (auto simp: Listen_post_def newWatchedListener_def mid_state_def q_def)
      qed
    qed
  qed
qed

lemma Listen_post_holds:
  assumes ok: "Listen_env_ok env path s" and L: "Listen env path mode s = (r, t)"
  shows "Listen_post env path mode s r t"
proof (cases "os_MkdirTemp env (filepath_Dir path) ''.tmp'' s")
  case mk: (Pair dr u)
  show ?thesis
  proof (cases dr)
    case (Inl e)
    then have "u = s" using mk by (auto simp: os_MkdirTemp_def Let_def split: option.splits if_splits)
    then show ?thesis using L mk Inl by (auto simp: Listen_def Listen_post_def)
  next
    case (Inr d)
    note mk = mk [unfolded Inr]
    show ?thesis
    proof (cases "net_ListenUnix env (filepath_Join d ''socket'') u")
      case li: (Pair nr v)
      show ?thesis
      proof (cases nr)
        case (Inl e)
        then show ?thesis using L mk li ListenUnix_error_undo [OF ok mk, of "filepath_Join d ''socket''" e v]
          by (auto simp: Listen_def Listen_post_def)
      next
        case (Inr n)
        note li = li [unfolded Inr]
        have wf: "os_wf s" using ok by (simp add: Listen_env_ok_def Let_def)
        note start = mid_state_start [OF wf mk li]
        then obtain i where mid: "mid_state env path s n i (sock_SetUnlinkOnClose n False v)" by blast
        have q: "filepath_Join d ''socket'' = temp_path env path s"
          using start(1) by (simp add: temp_path_def)
        note L = L [unfolded Listen_def mk prod.case sum.case Let_def q li [unfolded q]]
        show ?thesis by (rule Listen_after_listening [OF ok mid L [unfolded start(1)]])
      qed
    qed
  qed
qed

text \<open>An instance: an old file at the target path is replaced.\<close>

definition demo_env :: os_env where
  "demo_env = \<lparr>os_err = (\<lambda>_ _. None), os_random = (\<lambda>_. ''7''), os_umode = 493,
     os_Getenv = (\<lambda>_. []), os_Getpid = 1, os_Getuid = 0\<rparr>"

definition demo_os :: os_state where
  "demo_os = \<lparr>os_fs = [(''/run'', \<lparr>ino = 0, kind = KDir, perm = 493\<rparr>),
       (''/run/s'', \<lparr>ino = 1, kind = KFile, perm = 420\<rparr>)],
     os_next = 2, os_socks = [], os_closed_fds = []\<rparr>"

definition demo_os_after :: os_state where
  "demo_os_after = snd (Listen demo_env ''/run/s'' 438 demo_os)"

definition demo_wl :: watchedListener where
  "demo_wl = \<lparr>wl_listener = 3, wl_closed = False,
     wl_watch = (''/run/s'', \<lparr>ino = 3, kind = KSocket, perm = 438\<rparr>)\<rparr>"

lemma demo_Listen: "Listen demo_env ''/run/s'' 438 demo_os = (Inr demo_wl, demo_os_after)"
proof -
  have "fst (Listen demo_env ''/run/s'' 438 demo_os) = Inr demo_wl" by code_simp
  then show ?thesis by (simp add: demo_os_after_def prod_eq_iff)
qed

lemma demo_env_ok: "Listen_env_ok demo_env ''/run/s'' demo_os"
proof -
  have d: "temp_dir demo_env ''/run/s'' demo_os = ''/run/.tmp7''" by code_simp
  have "\<not> path_under ''/run/.tmp7'' ''/run''" "\<not> path_under ''/run/.tmp7'' ''/run/s''"
    "filepath_Clean ''/run/s'' \<noteq> filepath_Clean ''/run/.tmp7''"
    by code_simp+
  moreover have "os_err demo_env = (\<lambda>_ _. None)" by (simp add: demo_env_def)
  moreover have "dom (fsmap demo_os) = {''/run'', ''/run/s''}" "os_wf demo_os"
    by (auto simp: demo_os_def os_wf_def)
  ultimately show ?thesis by (simp add: Listen_env_ok_def Let_def d)
qed

section \<open>Properties\<close>

text \<open>
  C9: \<^verbatim>\<open>Listen\<close> is all or nothing. If it fails, at whichever call, every file and
  every open socket is as before; if it succeeds, the one change to the file system is
  that the path is a socket with the permissions asked for, which the returned listener
  listens on and its watcher watches, and no temporary file is left.
\<close>

theorem unix_Listen_all_or_nothing:
  assumes "Listen_env_ok env path s" and "Listen env path mode s = (r, t)"
  shows "Listen_post env path mode s r t"
  using assms by (rule Listen_post_holds)

theorem unix_Listen_all_or_nothing_witness:
  "Listen_post demo_env ''/run/s'' 438 demo_os (Inr demo_wl) demo_os_after"
  by (rule unix_Listen_all_or_nothing [OF demo_env_ok demo_Listen])

text \<open>The file at the path is still the one that was put there.\<close>

definition still_there :: "os_env \<Rightarrow> string \<Rightarrow> inode \<Rightarrow> os_state \<Rightarrow> bool" where
  "still_there env path info s \<longleftrightarrow>
     (case os_Lstat env path s of Inl _ \<Rightarrow> False | Inr i \<Rightarrow> os_SameFile info i)"

text \<open>The first tick at which a condition fails.\<close>

lemma ex_list: "(\<exists>xs. R xs) \<longleftrightarrow> R [] \<or> (\<exists>x xs. R (x # xs))"
  by (metis list.exhaust)

lemma first_bad_tick:
  "(\<exists>pre s post. WatchTick u # es = map WatchTick pre @ WatchTick s # post
      \<and> (\<forall>v \<in> set pre. P v) \<and> \<not> P s \<and> Q s) \<longleftrightarrow>
   (if P u then \<exists>pre s post. es = map WatchTick pre @ WatchTick s # post
      \<and> (\<forall>v \<in> set pre. P v) \<and> \<not> P s \<and> Q s else Q u)"
  by (subst ex_list) auto

text \<open>
  The watcher closes the listener exactly at the first tick at which the file is gone,
  cannot be examined, or is another one; ticks before it at which the file is unchanged
  have no effect, and it never does so after it saw the listener closed.
\<close>

theorem unix_watch_closes_iff_replaced:
  "watch env l path info es = ClosedListener t \<longleftrightarrow>
     (\<exists>pre s post. es = map WatchTick pre @ WatchTick s # post
        \<and> (\<forall>u \<in> set pre. still_there env path info u) \<and> \<not> still_there env path info s
        \<and> t = snd (sock_Close l s))"
proof (induction env l path info es rule: watch.induct)
  case (2 env l path info es)
  have "WatchClosed # es \<noteq> map WatchTick pre @ WatchTick s # post" for pre s post
    by (cases pre) auto
  then show ?case by auto
next
  case (3 env l path info u es)
  then show ?case unfolding first_bad_tick by (auto simp: still_there_def)
qed auto

text \<open>
  C40: The address of a listener that \<^verbatim>\<open>Listen\<close> returned is not the path asked for
  but the temporary one, at which there is no file any more; the socket is at the path.
\<close>

theorem unix_Addr_is_not_the_path:
  assumes "Listen_env_ok env path s" and "Listen env path mode s = (Inr wl, t)"
  shows "wl_Addr wl t = Some (UnixAddr (temp_path env path s) ''unix'')
    \<and> os_lookup t (temp_path env path s) = None
    \<and> os_lookup t path = Some (snd (wl_watch wl)) \<and> kind (snd (wl_watch wl)) = KSocket"
proof -
  have post: "Listen_post env path mode s (Inr wl) t" using assms by (rule Listen_post_holds)
  have under: "\<forall>q \<in> dom (fsmap s). \<not> path_under (temp_dir env path s) q"
    and p: "\<not> path_under (temp_dir env path s) path"
    using assms(1) by (simp_all add: Listen_env_ok_def Let_def)
  moreover have "filepath_Clean (temp_path env path s) \<notin> dom (fsmap s)"
    using under temp_names(2) [of env path s] path_under_Clean by blast
  moreover from p have "filepath_Clean (temp_path env path s) \<noteq> filepath_Clean path"
    using temp_names(2) [of env path s] by (metis path_under_Clean)
  ultimately show ?thesis using post
    by (auto simp: Listen_post_def Let_def wl_Addr_def os_lookup_def)
qed

theorem unix_Addr_is_not_the_path_witness:
  "wl_Addr demo_wl demo_os_after = Some (UnixAddr (temp_path demo_env ''/run/s'' demo_os) ''unix'')
    \<and> os_lookup demo_os_after (temp_path demo_env ''/run/s'' demo_os) = None"
  using unix_Addr_is_not_the_path [OF demo_env_ok demo_Listen] by simp

text \<open>
  Closing a listener that \<^verbatim>\<open>Listen\<close> returned closes its socket and leaves the
  socket file in place; closing it a second time panics, where the other listeners of
  the library return \<^verbatim>\<open>net.ErrClosed\<close>.
\<close>

theorem unix_Close_then_panic:
  assumes "Listen_env_ok env path s" and "Listen env path mode s = (Inr wl, t)"
  shows "\<exists>wl' u. wl_Close wl t = Inr (None, wl', u) \<and> fsmap u = fsmap t
    \<and> os_socks u = os_socks s \<and> wl_Close wl' u = Inl CloseOfClosedChannel"
  using Listen_post_holds [OF assms]
  by (auto simp: Listen_post_def Let_def wl_Close_def sock_Close_def delete_fresh)

end
