(* ===== verification/Unix_Watch.thy ===== *)
theory Unix_Watch
  imports Unix_Listener Goroutines
begin

text \<open>
  The watched listener of \<^verbatim>\<open>unix/listener.go\<close> with its goroutine running: callers of
  \<^verbatim>\<open>Accept\<close> and \<^verbatim>\<open>Close\<close>, the watcher, and changes of the file at the path, in any
  order. One rule per communication or call; a panic ends the program.
\<close>

section \<open>State\<close>

text \<open>
  The watcher is in its select, about to close the listener, or has returned. A call of
  \<^verbatim>\<open>Close\<close> that has closed the channel and not yet the listener counts in
  \<open>ws_closing\<close>. \<open>ws_info\<close> is the file the watcher was started with, \<open>ws_at_path\<close> the one
  that is there now.
\<close>

datatype watch_pc = WSelect | WCloses | WReturned

record watched_state =
  ws_open :: bool
  ws_closed :: bool
  ws_watcher :: watch_pc
  ws_info :: inode
  ws_at_path :: "inode option"
  ws_callers :: nat
  ws_closing :: nat
  ws_accepted :: "nat list"
  ws_errors :: "go_error list"
  ws_close_results :: "go_error option list"
  ws_panicked :: bool

definition watched_start :: "inode \<Rightarrow> watched_state" where
  "watched_start info = \<lparr>ws_open = True, ws_closed = False, ws_watcher = WSelect, ws_info = info,
     ws_at_path = Some info, ws_callers = 0, ws_closing = 0, ws_accepted = [], ws_errors = [],
     ws_close_results = [], ws_panicked = False\<rparr>"

definition err_closed :: "string \<Rightarrow> go_error" where
  "err_closed op = OpError op NetErrClosed"

datatype watched_label =
    WAcceptCall | WAcceptConn nat | WAcceptClosed | WAcceptFails go_error
  | WFileChanges "inode option"
  | WTick | WTickFails go_error | WSeesClosed | WWatcherCloses
  | WCloseCall | WCloseReturns

section \<open>Steps\<close>

text \<open>\<^verbatim>\<open>Accept\<close> passes the call on.\<close>

inductive wl_Accept_step :: "watched_label \<Rightarrow> watched_state \<Rightarrow> watched_state \<Rightarrow> bool" where
  accept_call: "wl_Accept_step WAcceptCall s (s\<lparr>ws_callers := Suc (ws_callers s)\<rparr>)"
| accept_conn: "0 < ws_callers s \<Longrightarrow> ws_open s \<Longrightarrow>
    wl_Accept_step (WAcceptConn c) s
      (s\<lparr>ws_callers := ws_callers s - 1, ws_accepted := ws_accepted s @ [c]\<rparr>)"
| accept_closed: "0 < ws_callers s \<Longrightarrow> \<not> ws_open s \<Longrightarrow>
    wl_Accept_step WAcceptClosed s
      (s\<lparr>ws_callers := ws_callers s - 1, ws_errors := ws_errors s @ [err_closed ''accept'']\<rparr>)"
| accept_fails: "0 < ws_callers s \<Longrightarrow> ws_open s \<Longrightarrow> \<not> errors_Is e NetErrClosed \<Longrightarrow>
    wl_Accept_step (WAcceptFails e) s
      (s\<lparr>ws_callers := ws_callers s - 1, ws_errors := ws_errors s @ [e]\<rparr>)"

text \<open>\<^verbatim>\<open>Close\<close>: close the channel, which panics the second time, then the listener.\<close>

inductive wl_Close_step :: "watched_label \<Rightarrow> watched_state \<Rightarrow> watched_state \<Rightarrow> bool" where
  close_call: "\<not> ws_closed s \<Longrightarrow>
    wl_Close_step WCloseCall s (s\<lparr>ws_closed := True, ws_closing := Suc (ws_closing s)\<rparr>)"
| close_again: "ws_closed s \<Longrightarrow> wl_Close_step WCloseCall s (s\<lparr>ws_panicked := True\<rparr>)"
| close_returns: "0 < ws_closing s \<Longrightarrow>
    wl_Close_step WCloseReturns s
      (s\<lparr>ws_closing := ws_closing s - 1, ws_open := False,
         ws_close_results := ws_close_results s @ [if ws_open s then None else Some (err_closed ''close'')]\<rparr>)"

text \<open>
  \<^verbatim>\<open>watch\<close>: the select takes whichever channel is ready, either when both are; at a tick
  the file is examined.
\<close>

inductive watch_step :: "watched_label \<Rightarrow> watched_state \<Rightarrow> watched_state \<Rightarrow> bool" where
  sees_closed: "ws_watcher s = WSelect \<Longrightarrow> ws_closed s \<Longrightarrow>
    watch_step WSeesClosed s (s\<lparr>ws_watcher := WReturned\<rparr>)"
| tick: "ws_watcher s = WSelect \<Longrightarrow>
    watch_step WTick s
      (if (case ws_at_path s of None \<Rightarrow> False | Some latestInfo \<Rightarrow> os_SameFile (ws_info s) latestInfo)
       then s else s\<lparr>ws_watcher := WCloses\<rparr>)"
| tick_fails: "ws_watcher s = WSelect \<Longrightarrow> watch_step (WTickFails e) s (s\<lparr>ws_watcher := WCloses\<rparr>)"
| watcher_closes: "ws_watcher s = WCloses \<Longrightarrow>
    watch_step WWatcherCloses s (s\<lparr>ws_open := False, ws_watcher := WReturned\<rparr>)"

inductive watched_step :: "watched_label \<Rightarrow> watched_state \<Rightarrow> watched_state \<Rightarrow> bool" where
  w_Accept: "\<not> ws_panicked s \<Longrightarrow> wl_Accept_step l s t \<Longrightarrow> watched_step l s t"
| w_Close: "\<not> ws_panicked s \<Longrightarrow> wl_Close_step l s t \<Longrightarrow> watched_step l s t"
| w_watch: "\<not> ws_panicked s \<Longrightarrow> watch_step l s t \<Longrightarrow> watched_step l s t"
| w_file: "\<not> ws_panicked s \<Longrightarrow> watched_step (WFileChanges f) s (s\<lparr>ws_at_path := f\<rparr>)"

inductive_cases watched_stepE: "watched_step l s t"
inductive_cases wl_Accept_stepE: "wl_Accept_step l s t"
inductive_cases wl_Close_stepE: "wl_Close_step l s t"
inductive_cases watch_stepE: "watch_step l s t"

lemmas watched_elims = watched_stepE wl_Accept_stepE wl_Close_stepE watch_stepE

section \<open>Invariant\<close>

text \<open>The file at the path is the one the watcher was started with.\<close>

definition file_kept :: "watched_state \<Rightarrow> bool" where
  "file_kept s \<longleftrightarrow> (case ws_at_path s of None \<Rightarrow> False | Some i \<Rightarrow> os_SameFile (ws_info s) i)"

text \<open>
  The listener is closed by the watcher or by \<^verbatim>\<open>Close\<close>, which has at most one call past
  the channel, and nobody got an error saying so before.
\<close>

definition watched_inv :: "watched_state \<Rightarrow> bool" where
  "watched_inv s \<longleftrightarrow>
     (ws_watcher s \<noteq> WReturned \<or> ws_closed s \<or> \<not> ws_open s)
   \<and> (ws_open s \<or> ws_watcher s = WReturned \<or> ws_closed s)
   \<and> ws_closing s + length (ws_close_results s) = (if ws_closed s then 1 else 0)
   \<and> (\<not> ws_closed s \<or> ws_closing s \<noteq> 0 \<or> \<not> ws_open s)
   \<and> (\<not> ws_panicked s \<or> ws_closed s)
   \<and> (\<not> ws_open s \<or> list_all (\<lambda>e. \<not> errors_Is e NetErrClosed) (ws_errors s))"

lemma wl_Accept_step_inv: "wl_Accept_step l s t \<Longrightarrow> watched_inv s \<Longrightarrow> watched_inv t"
  by (induction rule: wl_Accept_step.induct) (auto simp: watched_inv_def)

lemma wl_Close_step_inv:
  "wl_Close_step l s t \<Longrightarrow> watched_inv s \<Longrightarrow> watched_inv t"
  by (induction rule: wl_Close_step.induct) (auto simp: watched_inv_def split: if_splits)

lemma watch_step_inv: "watch_step l s t \<Longrightarrow> watched_inv s \<Longrightarrow> watched_inv t"
  by (induction rule: watch_step.induct) (auto simp: watched_inv_def split: if_splits)

lemma watched_inv_file: "watched_inv (s\<lparr>ws_at_path := f\<rparr>) = watched_inv s"
  by (simp add: watched_inv_def)

lemma watched_inv_step: "watched_step l s t \<Longrightarrow> watched_inv s \<Longrightarrow> watched_inv t"
  by (induction rule: watched_step.induct)
    (simp_all add: wl_Accept_step_inv wl_Close_step_inv watch_step_inv watched_inv_file)

lemma watched_inv_start: "watched_inv (watched_start i)"
  by (simp add: watched_inv_def watched_start_def)

lemma watched_inv_run: "run watched_step (watched_start i) ls s \<Longrightarrow> watched_inv s"
  using run_invariant [where I = watched_inv] watched_inv_start watched_inv_step by blast

text \<open>Calls of \<^verbatim>\<open>Close\<close> so far.\<close>

lemma close_calls_run:
  assumes "run watched_step s ls t" and "\<not> ws_panicked s"
  shows "if ws_panicked t then count_list ls WCloseCall = (if ws_closed s then 1 else 2)
    else ws_closed t = (ws_closed s \<or> 0 < count_list ls WCloseCall)
      \<and> count_list ls WCloseCall \<le> (if ws_closed s then 0 else 1)"
  using assms
proof (induction rule: run.induct)
  case (run_Cons l s t ls u)
  show ?case
  proof (cases "ws_panicked t")
    case True
    then have "l = WCloseCall" "ws_closed s"
      using run_Cons.hyps(1) run_Cons.prems by (auto elim!: watched_elims split: if_splits)
    moreover have "ls = []" using run_Cons.hyps(2) True by (auto elim: run.cases watched_stepE)
    ultimately show ?thesis using run_Cons.hyps(2) True by (auto elim: run.cases)
  next
    case False
    have "ws_closed t = (ws_closed s \<or> l = WCloseCall) \<and> (l = WCloseCall \<longrightarrow> \<not> ws_closed s)"
      using run_Cons.hyps(1) False by (auto elim!: watched_elims split: if_splits)
    then show ?thesis using run_Cons.IH [OF False] by (auto split: if_splits)
  qed
qed simp

lemma file_kept_frame [simp]:
  "file_kept (s\<lparr>ws_watcher := w\<rparr>) = file_kept s" "file_kept (s\<lparr>ws_open := b\<rparr>) = file_kept s"
  "file_kept (s\<lparr>ws_closed := b\<rparr>) = file_kept s" "file_kept (s\<lparr>ws_callers := n\<rparr>) = file_kept s"
  "file_kept (s\<lparr>ws_closing := n\<rparr>) = file_kept s" "file_kept (s\<lparr>ws_errors := es\<rparr>) = file_kept s"
  "file_kept (s\<lparr>ws_accepted := cs\<rparr>) = file_kept s" "file_kept (s\<lparr>ws_panicked := b\<rparr>) = file_kept s"
  "file_kept (s\<lparr>ws_close_results := rs\<rparr>) = file_kept s"
  by (simp_all add: file_kept_def cong: option.case_cong)

lemma file_kept_at_path [simp]:
  "file_kept (s\<lparr>ws_at_path := f\<rparr>) =
     (case f of None \<Rightarrow> False | Some i \<Rightarrow> os_SameFile (ws_info s) i)"
  by (simp add: file_kept_def cong: option.case_cong)

text \<open>Without a call of \<^verbatim>\<open>Close\<close> and with the file in place, the listener stays open.\<close>

fun disturbs :: "inode \<Rightarrow> watched_label \<Rightarrow> bool" where
  "disturbs info WCloseCall = True"
| "disturbs info (WTickFails e) = True"
| "disturbs info (WFileChanges f) = (case f of None \<Rightarrow> True | Some i \<Rightarrow> \<not> os_SameFile info i)"
| "disturbs info _ = False"

definition undisturbed :: "inode \<Rightarrow> watched_state \<Rightarrow> bool" where
  "undisturbed info s \<longleftrightarrow> ws_info s = info \<and> file_kept s \<and> ws_open s \<and> \<not> ws_closed s
     \<and> ws_closing s = 0 \<and> ws_watcher s = WSelect"

lemma undisturbed_parts:
  "wl_Accept_step l s t \<Longrightarrow> undisturbed info s \<Longrightarrow> undisturbed info t"
  "wl_Close_step l s t \<Longrightarrow> undisturbed info s \<Longrightarrow> \<not> disturbs info l \<Longrightarrow> undisturbed info t"
  "watch_step l s t \<Longrightarrow> undisturbed info s \<Longrightarrow> \<not> disturbs info l \<Longrightarrow> undisturbed info t"
    apply (induction rule: wl_Accept_step.induct; simp add: undisturbed_def)
   apply (induction rule: wl_Close_step.induct; simp add: undisturbed_def)
  apply (induction rule: watch_step.induct; simp add: undisturbed_def file_kept_def [symmetric])
  done

lemma undisturbed_step:
  "watched_step l s t \<Longrightarrow> undisturbed info s \<Longrightarrow> \<not> disturbs info l \<Longrightarrow> undisturbed info t"
  by (induction rule: watched_step.induct)
    (auto intro: undisturbed_parts, auto simp: undisturbed_def split: option.splits)

lemma undisturbed_run:
  "run watched_step s ls t \<Longrightarrow> undisturbed info s \<Longrightarrow> \<forall>l \<in> set ls. \<not> disturbs info l \<Longrightarrow> undisturbed info t"
  by (induction rule: run.induct) (auto intro: undisturbed_step)

section \<open>After the file was replaced\<close>

text \<open>From then on the file is left alone; the goroutines' own steps.\<close>

definition replaced_step :: "watched_label \<Rightarrow> watched_state \<Rightarrow> watched_state \<Rightarrow> bool" where
  "replaced_step l s t \<longleftrightarrow> watched_step l s t \<and> (\<forall>f. l \<noteq> WFileChanges f)"

fun ws_internal :: "watched_label \<Rightarrow> watched_state \<Rightarrow> bool" where
  "ws_internal WAcceptClosed s = True"
| "ws_internal WTick s = (\<not> file_kept s)"
| "ws_internal WSeesClosed s = True"
| "ws_internal WWatcherCloses s = True"
| "ws_internal WCloseReturns s = True"
| "ws_internal _ s = False"

definition ws_doomed :: "watched_state \<Rightarrow> bool" where
  "ws_doomed s \<longleftrightarrow> watched_inv s \<and> (ws_closed s \<or> \<not> file_kept s \<or> ws_watcher s \<noteq> WSelect)"

definition ws_ended :: "watched_state \<Rightarrow> bool" where
  "ws_ended s \<longleftrightarrow> ws_panicked s \<or>
     \<not> ws_open s \<and> ws_watcher s = WReturned \<and> ws_callers s = 0 \<and> ws_closing s = 0"

fun watch_work :: "watch_pc \<Rightarrow> nat" where
  "watch_work WSelect = 2"
| "watch_work WCloses = 1"
| "watch_work WReturned = 0"

definition ws_work :: "watched_state \<Rightarrow> nat" where
  "ws_work s = watch_work (ws_watcher s) + ws_callers s + ws_closing s"

definition doom :: "watched_state \<Rightarrow> bool" where
  "doom s \<longleftrightarrow> ws_closed s \<or> \<not> file_kept s \<or> ws_watcher s \<noteq> WSelect"

lemma doom_parts:
  "wl_Accept_step l s t \<Longrightarrow> doom s \<Longrightarrow> doom t"
  "wl_Close_step l s t \<Longrightarrow> doom s \<Longrightarrow> doom t"
  "watch_step l s t \<Longrightarrow> doom s \<Longrightarrow> doom t"
    apply (induction rule: wl_Accept_step.induct; simp add: doom_def)
   apply (induction rule: wl_Close_step.induct; simp add: doom_def)
  apply (induction rule: watch_step.induct; auto simp: doom_def file_kept_def [symmetric])
  done

lemma doomed_step:
  assumes "replaced_step l s t" and "ws_doomed s"
  shows "ws_doomed t"
proof -
  have w: "watched_step l s t" "\<forall>f. l \<noteq> WFileChanges f" and d: "watched_inv s" "doom s"
    using assms by (simp_all add: replaced_step_def ws_doomed_def doom_def)
  have "doom t" using w(1) doom_parts d(2) w(2) by cases auto
  then show ?thesis using watched_inv_step [OF w(1) d(1)] by (simp add: ws_doomed_def doom_def)
qed

lemma work_parts:
  "wl_Accept_step l s t \<Longrightarrow> ws_internal l s \<Longrightarrow> ws_work t < ws_work s"
  "wl_Close_step l s t \<Longrightarrow> ws_internal l s \<Longrightarrow> ws_work t < ws_work s"
  "watch_step l s t \<Longrightarrow> ws_internal l s \<Longrightarrow> ws_work t < ws_work s"
    apply (induction rule: wl_Accept_step.induct; simp add: ws_work_def)
   apply (induction rule: wl_Close_step.induct; simp add: ws_work_def)
  apply (induction rule: watch_step.induct; simp add: ws_work_def file_kept_def [symmetric])
  done

lemma doomed_work: "replaced_step l s t \<Longrightarrow> ws_internal l s \<Longrightarrow> ws_work t < ws_work s"
  unfolding replaced_step_def using work_parts by (auto elim!: watched_stepE)

lemma doomed_progress:
  assumes "ws_doomed s" and "\<not> ws_ended s"
  shows "\<exists>l t. ws_internal l s \<and> replaced_step l s t"
proof -
  have p: "\<not> ws_panicked s" using assms(2) by (simp add: ws_ended_def)
  have watch: "replaced_step l s t" if "watch_step l s t" "\<forall>f. l \<noteq> WFileChanges f" for l t
    using that p by (auto simp: replaced_step_def intro: w_watch)
  consider "ws_watcher s = WSelect" "ws_closed s" | "ws_watcher s = WSelect" "\<not> file_kept s"
    | "ws_watcher s = WCloses" | "ws_watcher s = WReturned" "0 < ws_closing s"
    | "ws_watcher s = WReturned" "ws_closing s = 0"
    using assms(1) by (cases "ws_watcher s") (auto simp: ws_doomed_def)
  then show ?thesis
  proof cases
    case 1
    then show ?thesis using watch [OF sees_closed [OF 1]] by (intro exI [of _ WSeesClosed]) auto
  next
    case 2
    then show ?thesis using watch [OF tick [OF 2(1)]] by (intro exI [of _ WTick]) auto
  next
    case 3
    then show ?thesis using watch [OF watcher_closes [OF 3]] by (intro exI [of _ WWatcherCloses]) auto
  next
    case 4
    then have "replaced_step WCloseReturns s
        (s\<lparr>ws_closing := ws_closing s - 1, ws_open := False,
           ws_close_results := ws_close_results s @ [if ws_open s then None else Some (err_closed ''close'')]\<rparr>)"
      using w_Close [OF p close_returns [OF 4(2)]] by (simp add: replaced_step_def)
    then show ?thesis by (intro exI [of _ WCloseReturns]) auto
  next
    case 5
    have o: "\<not> ws_open s" using assms(1) 5 by (auto simp: ws_doomed_def watched_inv_def)
    then have c: "0 < ws_callers s" using assms(2) 5 by (auto simp: ws_ended_def)
    have "replaced_step WAcceptClosed s
        (s\<lparr>ws_callers := ws_callers s - 1, ws_errors := ws_errors s @ [err_closed ''accept'']\<rparr>)"
      using p accept_closed [OF c o] by (auto simp: replaced_step_def intro: w_Accept)
    then show ?thesis by (intro exI [of _ WAcceptClosed]) auto
  qed
qed

interpretation wd: draining replaced_step ws_internal ws_doomed ws_ended ws_work
  by unfold_locales (rule doomed_step doomed_work doomed_progress, assumption+)+

section \<open>Properties\<close>

text \<open>
  C16: A listener whose socket file was replaced or removed closes itself. From every
  reachable state in which another file or none is at the path, and stays there, the
  goroutines' own steps end after at most \<open>ws_work s\<close> of them in any order, and where none
  is left the listener is closed, the watcher has returned, and no call of \<^verbatim>\<open>Accept\<close> or
  \<^verbatim>\<open>Close\<close> is pending (unless a second \<^verbatim>\<open>Close\<close> has made the program panic).
\<close>

theorem watched_listener_closes_itself:
  assumes "run watched_step (watched_start i) ls s" and "\<not> file_kept s"
  shows "(\<forall>ls' t. drain_run ws_internal replaced_step s ls' t \<longrightarrow> length ls' \<le> ws_work s)
    \<and> (\<exists>ls' t. drain_run ws_internal replaced_step s ls' t \<and> ws_ended t)
    \<and> (\<forall>ls' t. run replaced_step s ls' t \<longrightarrow> (\<nexists>l u. ws_internal l t \<and> replaced_step l t u) \<longrightarrow> ws_ended t)"
proof -
  have ok: "ws_doomed s" using watched_inv_run [OF assms(1)] assms(2) by (simp add: ws_doomed_def)
  have "length ls' \<le> ws_work s" if "drain_run ws_internal replaced_step s ls' t" for ls' t
    using wd.drain_run_bound [OF that ok] by simp
  then show ?thesis using wd.drain_exists [OF ok] wd.drained [OF ok] by blast
qed

definition demo_inode :: inode where
  "demo_inode = \<lparr>ino = 3, kind = KSocket, perm = 438\<rparr>"

theorem watched_listener_closes_itself_witness:
  "\<exists>ls' t. drain_run ws_internal replaced_step ((watched_start demo_inode)\<lparr>ws_at_path := None\<rparr>) ls' t
     \<and> ws_ended t"
proof -
  have "watched_step (WFileChanges None) (watched_start demo_inode)
      ((watched_start demo_inode)\<lparr>ws_at_path := None\<rparr>)"
    by (rule w_file) (simp add: watched_start_def)
  then have "run watched_step (watched_start demo_inode) [WFileChanges None]
      ((watched_start demo_inode)\<lparr>ws_at_path := None\<rparr>)"
    by (blast intro: run.intros)
  from watched_listener_closes_itself [OF this] show ?thesis by simp
qed

text \<open>
  C37: The listener closes only for a reason, and the program panics exactly when
  \<^verbatim>\<open>Close\<close> is called a second time: as long as \<^verbatim>\<open>Close\<close> was not called, the file was not
  replaced and could be examined at every tick, the listener is open; at the second call of
  \<^verbatim>\<open>Close\<close>, wherever it comes from, the channel is closed twice.
\<close>

theorem watched_listener_Close:
  assumes "run watched_step (watched_start i) ls s"
  shows "(ws_panicked s \<longleftrightarrow> 2 \<le> count_list ls WCloseCall)
    \<and> ((\<forall>l \<in> set ls. \<not> disturbs i l) \<longrightarrow> ws_open s)"
proof -
  have "ws_panicked s \<longleftrightarrow> 2 \<le> count_list ls WCloseCall"
    using close_calls_run [OF assms] by (auto simp: watched_start_def split: if_splits)
  moreover have "undisturbed i (watched_start i)"
    by (simp add: undisturbed_def watched_start_def file_kept_def os_SameFile_def)
  ultimately show ?thesis using undisturbed_run [OF assms] by (auto simp: undisturbed_def)
qed

theorem watched_listener_Close_witness:
  "ws_panicked ((watched_start demo_inode)\<lparr>ws_closed := True, ws_closing := 1, ws_panicked := True\<rparr>)"
proof -
  let ?s = "watched_start demo_inode"
  let ?t = "?s\<lparr>ws_closed := True, ws_closing := 1\<rparr>"
  have "watched_step WCloseCall ?s ?t"
    using close_call [of ?s] by (intro w_Close) (simp_all add: watched_start_def)
  moreover have "watched_step WCloseCall ?t (?t\<lparr>ws_panicked := True\<rparr>)"
    using close_again [of ?t] by (intro w_Close) (simp_all add: watched_start_def)
  ultimately have "run watched_step ?s [WCloseCall, WCloseCall] (?t\<lparr>ws_panicked := True\<rparr>)"
    by (blast intro: run.intros)
  from watched_listener_Close [OF this] show ?thesis by simp
qed

end
