(* ===== verification/Unix_Inner.thy ===== *)
theory Unix_Inner
  imports Unix_Watch
begin

text \<open>
  A watched UNIX listener inside another listener: what the calls of the outer listener and
  the watcher change of it. Shared by the compositions with the PROXY listener and with the
  aggregating listener, which call it in the same way: \<^verbatim>\<open>Accept\<close> from one loop, from the call
  to its return, and \<^verbatim>\<open>Close\<close>.
\<close>

section \<open>Calls\<close>

definition accept_conn_calls :: "nat \<Rightarrow> watched_label list" where
  "accept_conn_calls c = [WAcceptCall, WAcceptConn c]"

definition accept_error_calls :: "go_error \<Rightarrow> watched_label list" where
  "accept_error_calls e =
     (if e = err_closed ''accept'' then [WAcceptCall, WAcceptClosed] else [WAcceptCall, WAcceptFails e])"

definition close_calls :: "watched_label list" where
  "close_calls = [WCloseCall, WCloseReturns]"

lemmas inner_calls_defs = accept_conn_calls_def accept_error_calls_def close_calls_def

text \<open>What happens to the inner listener by itself: its watcher and its file.\<close>

fun of_watcher :: "watched_label \<Rightarrow> bool" where
  "of_watcher (WFileChanges f) = True"
| "of_watcher WTick = True"
| "of_watcher (WTickFails e) = True"
| "of_watcher WSeesClosed = True"
| "of_watcher WWatcherCloses = True"
| "of_watcher _ = False"

section \<open>What a call changes\<close>

definition same_watch :: "watched_state \<Rightarrow> watched_state \<Rightarrow> bool" where
  "same_watch w w' \<longleftrightarrow> ws_open w' = ws_open w \<and> ws_closed w' = ws_closed w
     \<and> ws_watcher w' = ws_watcher w \<and> ws_info w' = ws_info w \<and> ws_at_path w' = ws_at_path w
     \<and> ws_callers w' = ws_callers w \<and> ws_closing w' = ws_closing w
     \<and> ws_close_results w' = ws_close_results w \<and> ws_panicked w' = ws_panicked w"

lemma same_watch_refl [simp]: "same_watch w w"
  by (simp add: same_watch_def)

lemma accept_calls_same:
  "run watched_step w (accept_conn_calls c) w' \<Longrightarrow> same_watch w w'"
  "run watched_step w (accept_error_calls e) w' \<Longrightarrow> same_watch w w'"
  by (auto simp: same_watch_def inner_calls_defs run_Cons_iff elim!: watched_elims split: if_splits)

lemma close_calls_effect:
  "run watched_step w close_calls w' \<Longrightarrow>
     \<not> ws_closed w \<and> ws_closed w' \<and> \<not> ws_panicked w' \<and> ws_callers w' = ws_callers w
     \<and> ws_closing w' = ws_closing w"
  by (auto simp: inner_calls_defs run_Cons_iff elim!: watched_elims)

lemma accept_error_closed:
  "run watched_step w (accept_error_calls e) w' \<Longrightarrow> errors_Is e NetErrClosed \<Longrightarrow> \<not> ws_open w"
  by (auto simp: inner_calls_defs run_Cons_iff elim!: watched_elims split: if_splits)

lemma accept_conn_open: "run watched_step w (accept_conn_calls c) w' \<Longrightarrow> ws_open w"
  by (auto simp: inner_calls_defs run_Cons_iff elim!: watched_elims)

lemma watcher_same:
  "watched_step l w w' \<Longrightarrow> of_watcher l \<Longrightarrow>
     ws_closed w' = ws_closed w \<and> ws_panicked w' = ws_panicked w \<and> ws_callers w' = ws_callers w
     \<and> ws_closing w' = ws_closing w"
  by (cases l) (auto elim!: watched_elims split: if_splits)

section \<open>A listener whose file was replaced\<close>

lemma file_kept_same: "same_watch w w' \<Longrightarrow> file_kept w' = file_kept w"
  by (simp add: same_watch_def file_kept_def cong: option.case_cong)

lemma doomed_same: "same_watch w w' \<Longrightarrow> ws_doomed w \<Longrightarrow> watched_inv w' \<Longrightarrow> ws_doomed w'"
  using file_kept_same [of w w'] by (simp add: ws_doomed_def same_watch_def)

lemma watched_inv_runs: "run watched_step w ls w' \<Longrightarrow> watched_inv w \<Longrightarrow> watched_inv w'"
  using run_invariant [where I = watched_inv] watched_inv_step by blast

lemma watch_work_step:
  "watched_step l w w' \<Longrightarrow> of_watcher l \<Longrightarrow> ws_internal l w \<Longrightarrow>
     watch_work (ws_watcher w') < watch_work (ws_watcher w)"
  by (cases l) (auto elim!: watched_elims simp: file_kept_def [symmetric] split: if_splits)

text \<open>The watcher moves until the listener is closed and it has returned.\<close>

lemma watcher_progress:
  assumes "ws_doomed w" and "\<not> ws_panicked w" and "ws_callers w = 0" and "ws_closing w = 0"
    and "ws_open w \<or> ws_watcher w \<noteq> WReturned"
  obtains l w' where "of_watcher l" and "ws_internal l w" and "replaced_step l w w'"
proof -
  have "\<not> ws_ended w" using assms by (auto simp: ws_ended_def)
  then obtain l w' where l: "ws_internal l w" "replaced_step l w w'"
    using doomed_progress assms(1) by blast
  moreover have "of_watcher l"
    using l assms(3,4) by (cases l) (auto simp: replaced_step_def elim!: watched_elims)
  ultimately show thesis using that by blast
qed

text \<open>A loop that calls \<^verbatim>\<open>Accept\<close> is told that the listener is closed.\<close>

lemma loop_told:
  assumes "\<not> ws_open w" and "\<not> ws_panicked w"
  shows "\<exists>w'. run watched_step w (accept_error_calls (err_closed ''accept'')) w'"
proof -
  let ?w = "w\<lparr>ws_callers := Suc (ws_callers w)\<rparr>"
  have "watched_step WAcceptCall w ?w" using assms(2) by (intro w_Accept accept_call)
  moreover have "\<exists>u. watched_step WAcceptClosed ?w u"
    using accept_closed [of ?w] assms by (intro exI w_Accept) simp_all
  ultimately show ?thesis by (simp add: inner_calls_defs run_Cons_iff) blast
qed

text \<open>Accepting and closing, when nothing is in the way.\<close>

lemma accept_conn_run:
  assumes "ws_open w" and "\<not> ws_panicked w"
  shows "\<exists>w'. run watched_step w (accept_conn_calls c) w'"
proof -
  let ?w = "w\<lparr>ws_callers := Suc (ws_callers w)\<rparr>"
  have "watched_step WAcceptCall w ?w" using assms(2) by (intro w_Accept accept_call)
  moreover have "\<exists>u. watched_step (WAcceptConn c) ?w u"
    using accept_conn [of ?w c] assms by (intro exI w_Accept) simp_all
  ultimately show ?thesis by (simp add: inner_calls_defs run_Cons_iff) blast
qed

end
