(* ===== verification/Proxy_Over_Unix.thy ===== *)
theory Proxy_Over_Unix
  imports Proxy_Listener Unix_Inner
begin

text \<open>
  The listener of a specification such as \<^verbatim>\<open>proxy:unix:/run/s\<close>: a PROXY listener whose
  inner listener is a watched UNIX listener. Both step relations run side by side and meet
  in the calls the PROXY listener makes of the inner one.
\<close>

section \<open>Composition\<close>

datatype over_label = OverProxy proxy_label | OverInner watched_label

type_synonym over_state = "proxy_state \<times> watched_state"

text \<open>
  The calls of the inner listener that belong to a step of the PROXY listener: the
  accept loop's \<^verbatim>\<open>Accept\<close> (from the call to its return in one step, since nobody else
  sees that the loop is blocked in it) and the \<^verbatim>\<open>Close\<close> under the mutex.
\<close>

fun inner_call :: "proxy_label \<Rightarrow> watched_label list" where
  "inner_call (PInnerConn c) = accept_conn_calls c"
| "inner_call (PInnerError e) = accept_error_calls e"
| "inner_call (PCloseInner r) = close_calls"
| "inner_call _ = []"

fun inner_result :: "proxy_label \<Rightarrow> watched_state \<Rightarrow> bool" where
  "inner_result (PCloseInner r) w \<longleftrightarrow> ws_close_results w \<noteq> [] \<and> last (ws_close_results w) = r"
| "inner_result _ w \<longleftrightarrow> True"

text \<open>The last rule is the panic of a second \<^verbatim>\<open>Close\<close> of the inner listener.\<close>

inductive over_step ::
  "(conn_id \<Rightarrow> net_conn) \<Rightarrow> over_label \<Rightarrow> over_state \<Rightarrow> over_state \<Rightarrow> bool"
  for net
where
  over_call: "\<not> ws_panicked w \<Longrightarrow> proxy_step net l p p' \<Longrightarrow> run watched_step w (inner_call l) w' \<Longrightarrow>
    inner_result l w' \<Longrightarrow> over_step net (OverProxy l) (p, w) (p', w')"
| over_inner: "of_watcher l \<Longrightarrow> watched_step l w w' \<Longrightarrow> over_step net (OverInner l) (p, w) (p, w')"
| over_panic: "p_closing p \<Longrightarrow> watched_step WCloseCall w w' \<Longrightarrow> ws_panicked w' \<Longrightarrow>
    over_step net (OverProxy (PCloseInner r)) (p, w) (p, w')"

inductive_cases over_stepE: "over_step net l s t"

definition over_start :: "inode \<Rightarrow> over_state" where
  "over_start i = (NewListener, watched_start i)"

section \<open>Projections\<close>

text \<open>What is proved of either listener alone holds of it here.\<close>

lemma over_proxy_run:
  "run (over_step net) s ls t \<Longrightarrow>
     \<exists>ls'. run (proxy_step net) (fst s) ls' (fst t) \<and> OverProxy ` set ls' \<subseteq> set ls"
proof (induction rule: run.induct)
  case (run_Nil s)
  have "run (proxy_step net) (fst s) [] (fst s)" by simp
  then show ?case by fastforce
next
  case (run_Cons l s t ls u)
  then obtain ls' where IH: "run (proxy_step net) (fst t) ls' (fst u)" "OverProxy ` set ls' \<subseteq> set ls"
    by blast
  show ?case
    using run_Cons.hyps(1)
  proof cases
    case (over_call w k p p' w')
    then have "run (proxy_step net) (fst s) (k # ls') (fst u)"
      using IH by (simp add: run.run_Cons)
    then show ?thesis using over_call IH by (intro exI [of _ "k # ls'"]) auto
  qed (use IH in auto)
qed

lemma over_watched_run:
  "run (over_step net) s ls t \<Longrightarrow> \<exists>ls'. run watched_step (snd s) ls' (snd t)"
proof (induction rule: run.induct)
  case (run_Cons l s t ls u)
  then obtain ls' where IH: "run watched_step (snd t) ls' (snd u)" by blast
  show ?case
    using run_Cons.hyps(1)
  proof cases
    case (over_call w k p p' w')
    then show ?thesis using run_append [of watched_step w _ w'] IH by auto
  next
    case (over_inner k w w' p)
    then have "run watched_step (snd s) (k # ls') (snd u)" using IH by (simp add: run.run_Cons)
    then show ?thesis by (rule exI)
  next
    case (over_panic p w w' r)
    then have "run watched_step (snd s) (WCloseCall # ls') (snd u)" using IH by (simp add: run.run_Cons)
    then show ?thesis by (rule exI)
  qed
qed (auto intro: run.run_Nil)

lemma over_start_proxy:
  assumes "run (over_step net) (over_start i) ls (p, w)"
  obtains ls' where "run (proxy_step net) NewListener ls' p"
  using over_proxy_run [OF assms] by (auto simp: over_start_def)

lemma over_start_watched:
  assumes "run (over_step net) (over_start i) ls (p, w)"
  obtains ls' where "run watched_step (watched_start i) ls' w"
  using over_watched_run [OF assms] by (auto simp: over_start_def)

section \<open>What a call changes\<close>

lemma inner_call_same:
  "run watched_step w (inner_call l) w' \<Longrightarrow> (\<forall>r. l \<noteq> PCloseInner r) \<Longrightarrow> same_watch w w'"
  by (cases l) (auto dest: accept_calls_same)

text \<open>The inner listener's channel is closed by the one call of the PROXY listener.\<close>

definition over_inv :: "over_state \<Rightarrow> bool" where
  "over_inv s \<longleftrightarrow> \<not> ws_panicked (snd s) \<and> ws_callers (snd s) = 0 \<and> ws_closing (snd s) = 0
     \<and> ws_closed (snd s) = (0 < p_inner_closes (fst s))
     \<and> p_inner_closes (fst s) = (if p_done (fst s) \<and> \<not> p_closing (fst s) then 1 else 0)
     \<and> (p_closing (fst s) \<longrightarrow> p_done (fst s))"

lemma proxy_closes_step:
  assumes "proxy_step net l p p'"
    and "p_inner_closes p = (if p_done p \<and> \<not> p_closing p then 1 else 0)" and "p_closing p \<longrightarrow> p_done p"
  shows "p_inner_closes p' = (if p_done p' \<and> \<not> p_closing p' then 1 else 0)"
    and "p_closing p' \<longrightarrow> p_done p'"
    and "p_inner_closes p' = (case l of PCloseInner r \<Rightarrow> Suc (p_inner_closes p) | _ \<Rightarrow> p_inner_closes p)"
  using assms
  by (auto elim!: proxy_step_elims simp: sendConn_iff sendError_iff proxy_updates split: if_splits)

lemma over_inv_step:
  assumes "over_step net l s t" and "over_inv s"
  shows "over_inv t"
  using assms(1)
proof cases
  case (over_call w k p p' w')
  have I: "p_inner_closes p = (if p_done p \<and> \<not> p_closing p then 1 else 0)" "p_closing p \<longrightarrow> p_done p"
    and W: "ws_callers w = 0" "ws_closing w = 0" "ws_closed w = (0 < p_inner_closes p)"
    using assms(2) over_call(2) by (simp_all add: over_inv_def)
  note c = proxy_closes_step [OF over_call(5) I]
  show ?thesis
  proof (cases "\<exists>r. k = PCloseInner r")
    case True
    then have "run watched_step w close_calls w'" using over_call(6) by fastforce
    from close_calls_effect [OF this] have
      e: "ws_closed w'" "\<not> ws_panicked w'" "ws_callers w' = 0" "ws_closing w' = 0"
      using W by simp_all
    have "0 < p_inner_closes p'" using c(3) True by auto
    with c e show ?thesis unfolding over_call(3) by (simp add: over_inv_def)
  next
    case False
    then have "same_watch w w'" using inner_call_same over_call(6) by blast
    moreover have "p_inner_closes p' = p_inner_closes p"
      using c(3) False by (simp split: proxy_label.splits)
    ultimately show ?thesis using c W over_call(4) unfolding over_call(3)
      by (simp add: over_inv_def same_watch_def)
  qed
next
  case (over_inner k w w' p)
  then show ?thesis using watcher_same assms(2) by (auto simp: over_inv_def)
next
  case (over_panic p w w' r)
  then show ?thesis using assms(2) by (auto simp: over_inv_def elim!: watched_elims)
qed

lemma over_inv_start: "over_inv (over_start i)"
  by (simp add: over_inv_def over_start_def NewListener_def watched_start_def)

lemma over_inv_run: "run (over_step net) (over_start i) ls s \<Longrightarrow> over_inv s"
  using run_invariant [where I = over_inv] over_inv_start over_inv_step by blast

section \<open>After the file was replaced\<close>

text \<open>
  Nobody calls \<^verbatim>\<open>Close\<close> and the file is left alone; the goroutines' own steps are those of the
  watcher, of the accept loop once the inner listener is closed, and of the handlers.
\<close>

definition left_step ::
  "(conn_id \<Rightarrow> net_conn) \<Rightarrow> over_label \<Rightarrow> over_state \<Rightarrow> over_state \<Rightarrow> bool"
where
  "left_step net l s t \<longleftrightarrow> over_step net l s t \<and> l \<noteq> OverProxy PCloseFirst
     \<and> (\<forall>f. l \<noteq> OverInner (WFileChanges f))"

fun over_internal :: "over_label \<Rightarrow> over_state \<Rightarrow> bool" where
  "over_internal (OverInner l) s = ws_internal l (snd s)"
| "over_internal (OverProxy PAcceptCall) s = False"
| "over_internal (OverProxy PCloseFirst) s = False"
| "over_internal (OverProxy PCloseAgain) s = False"
| "over_internal (OverProxy (PInnerConn c)) s = False"
| "over_internal (OverProxy (PInnerError e)) s = (e = err_closed ''accept'')"
| "over_internal (OverProxy l) s = True"

definition over_ok :: "over_state \<Rightarrow> bool" where
  "over_ok s \<longleftrightarrow> over_inv s \<and> ws_doomed (snd s) \<and> \<not> p_done (fst s)"

fun sending :: "handler \<Rightarrow> bool" where
  "sending (HSendConn p) = True"
| "sending (HSendError e) = True"
| "sending _ = False"

text \<open>
  The inner listener is closed and its watcher gone; without a caller the other goroutines
  wait for one, with a caller there are none.
\<close>

definition over_ended :: "over_state \<Rightarrow> bool" where
  "over_ended s \<longleftrightarrow> \<not> ws_open (snd s) \<and> ws_watcher (snd s) = WReturned
     \<and> (if p_callers (fst s) = 0
        then p_loop (fst s) \<noteq> LAccept \<and> (\<forall>h \<in># p_handlers (fst s). sending h)
        else p_stalled (fst s))"

definition over_work :: "over_state \<Rightarrow> nat" where
  "over_work s = p_work (fst s) + watch_work (ws_watcher (snd s))"

lemma not_done_step:
  "proxy_step net l p p' \<Longrightarrow> \<not> p_done p \<Longrightarrow> l \<noteq> PCloseFirst \<Longrightarrow> \<not> p_done p'"
  by (auto elim!: proxy_step_elims simp: sendConn_iff sendError_iff proxy_updates)

lemma over_ok_step:
  assumes "left_step net l s t" and "over_ok s"
  shows "over_ok t"
proof -
  have st: "over_step net l s t" and lab: "l \<noteq> OverProxy PCloseFirst"
      "\<forall>f. l \<noteq> OverInner (WFileChanges f)"
    using assms(1) by (auto simp: left_step_def)
  have "over_inv t" using over_inv_step [OF st] assms(2) by (simp add: over_ok_def)
  moreover have "ws_doomed (snd t) \<and> \<not> p_done (fst t)"
    using st
  proof cases
    case (over_call w k p p' w')
    have inv: "watched_inv w'" using watched_inv_runs over_call assms(2)
      by (auto simp: over_ok_def ws_doomed_def)
    have "\<forall>r. k \<noteq> PCloseInner r"
      using over_call(5) assms(2) over_call(1,2) by (auto simp: over_ok_def over_inv_def elim!: proxy_step_elims)
    from inner_call_same [OF over_call(6) this] have "ws_doomed w'"
      using doomed_same inv assms(2) over_call by (auto simp: over_ok_def)
    then show ?thesis using not_done_step over_call lab assms(2) by (auto simp: over_ok_def)
  next
    case (over_inner k w w' p)
    then have "replaced_step k w w'" using lab by (auto simp: replaced_step_def)
    then show ?thesis using doomed_step over_inner assms(2) by (auto simp: over_ok_def)
  next
    case (over_panic p w w' r)
    then show ?thesis using assms(2) by (auto simp: over_ok_def over_inv_def)
  qed
  ultimately show ?thesis by (simp add: over_ok_def)
qed

lemma p_work_own_step:
  assumes "proxy_step net l p p'" and "over_internal (OverProxy l) (p, w)"
  shows "p_work p' < p_work p"
proof (cases "\<exists>e. l = PInnerError e")
  case True
  then have "l = PInnerError (err_closed ''accept'')" using assms(2) by auto
  then show ?thesis using assms(1)
    by (auto elim!: proxy_step_elims simp: p_work_def err_closed_def)
next
  case False
  then have "p_internal l p" using assms(2) by (cases l) auto
  then show ?thesis by (rule p_work_step [OF assms(1)])
qed

lemma over_work_step:
  assumes "left_step net l s t" and "over_ok s" and "over_internal l s"
  shows "over_work t < over_work s"
proof -
  have "over_step net l s t" using assms(1) by (simp add: left_step_def)
  then show ?thesis
  proof cases
    case (over_call w k p p' w')
    have "\<forall>r. k \<noteq> PCloseInner r"
      using over_call(5) assms(2) over_call(1,2) by (auto simp: over_ok_def over_inv_def elim!: proxy_step_elims)
    from inner_call_same [OF over_call(6) this] show ?thesis
      using p_work_own_step [OF over_call(5), of w] over_call assms(3)
      by (auto simp: over_work_def same_watch_def)
  next
    case (over_inner k w w' p)
    then show ?thesis using watch_work_step assms(3) by (auto simp: over_work_def)
  next
    case (over_panic p w w' r)
    then show ?thesis using assms(2) by (auto simp: over_ok_def over_inv_def)
  qed
qed

text \<open>A step of the PROXY listener that does not involve the inner one.\<close>

lemma left_own:
  assumes "proxy_step net l p p'" and "inner_call l = []" and "l \<noteq> PCloseFirst" and "\<not> ws_panicked w"
  shows "left_step net (OverProxy l) (p, w) (p', w)"
proof -
  have "inner_result l w" using assms(2) by (cases l) (simp_all add: close_calls_def)
  then have "over_step net (OverProxy l) (p, w) (p', w)"
    using over_call [OF assms(4,1), of w] assms(2) by simp
  then show ?thesis using assms(3) by (simp add: left_step_def)
qed

lemma handler_own_step:
  assumes "h \<in># p_handlers p" and "sending h \<longrightarrow> 0 < p_callers p"
  shows "\<exists>l p'. handleConnection_step net l p p' \<and> inner_call l = [] \<and> l \<noteq> PCloseFirst
    \<and> over_internal (OverProxy l) s"
proof (cases h)
  case (HSetDeadline c)
  then show ?thesis using assms handleConnection_step.intros(2) [of c p net]
    by (intro exI [of _ "PSetDeadline c None"]) auto
next
  case (HReadHeader c)
  obtain c' where "ReadHeader conn_Read conn_LocalAddr conn_RemoteAddr (net c) =
      Some (stream_header (net c), c')"
    using ReadHeader_stream_header by blast
  then have "\<exists>p'. handleConnection_step net (PReadHeader c) p p'"
    using assms HReadHeader
    by (cases "stream_header (net c)") (auto intro: handleConnection_step.intros)
  then show ?thesis by (intro exI [of _ "PReadHeader c"]) simp
next
  case (HClearDeadline c c' k)
  then show ?thesis using assms handleConnection_step.intros(6) [of c c' k p net]
    by (intro exI [of _ "PClearDeadline c k None"]) auto
next
  case (HSendConn q)
  then show ?thesis using assms handleConnection_step.intros(7) [of q p _ net]
    by (intro exI [of _ "PConnSent q"]) (auto simp: sendConn_iff)
next
  case (HSendError e)
  then show ?thesis using assms handleConnection_step.intros(9) [of e p _ net]
    by (intro exI [of _ "PErrorSent e"]) (auto simp: sendError_iff)
qed

lemma over_watcher_progress:
  assumes "over_ok (p, w)" and "ws_open w \<or> ws_watcher w \<noteq> WReturned"
  shows "\<exists>l t. over_internal l (p, w) \<and> left_step net l (p, w) t"
proof -
  have w: "ws_doomed w" "\<not> ws_panicked w" "ws_callers w = 0" "ws_closing w = 0"
    using assms(1) by (simp_all add: over_ok_def over_inv_def)
  obtain l w' where l: "of_watcher l" "ws_internal l w" "replaced_step l w w'"
    using watcher_progress [OF w assms(2)] .
  then have "over_step net (OverInner l) (p, w) (p, w')"
    using over_inner by (simp add: replaced_step_def)
  then have "left_step net (OverInner l) (p, w) (p, w')"
    using l(3) by (auto simp: left_step_def replaced_step_def)
  then show ?thesis using l(2) by (intro exI [of _ "OverInner l"]) auto
qed

text \<open>The accept loop is told that the inner listener is closed.\<close>

lemma over_loop_told:
  assumes "p_loop p = LAccept" and "\<not> ws_open w" and "\<not> ws_panicked w"
  shows "\<exists>t. left_step net (OverProxy (PInnerError (err_closed ''accept''))) (p, w) t"
proof -
  obtain u where "run watched_step w (inner_call (PInnerError (err_closed ''accept''))) u"
    using loop_told [OF assms(2,3)] by auto
  moreover have "proxy_step net (PInnerError (err_closed ''accept'')) p (p\<lparr>p_loop := LExited\<rparr>)"
    by (rule proxy_step.intros(3), rule handleAccepts_step.intros(1)) (simp_all add: assms(1) err_closed_def)
  ultimately have "over_step net (OverProxy (PInnerError (err_closed ''accept''))) (p, w) (p\<lparr>p_loop := LExited\<rparr>, u)"
    using over_call [OF assms(3)] by simp
  then show ?thesis by (auto simp: left_step_def)
qed

lemma over_progress:
  assumes ok: "over_ok s" and "\<not> over_ended s"
  shows "\<exists>l t. over_internal l s \<and> left_step net l s t"
proof -
  obtain p w where s: "s = (p, w)" by (cases s)
  have w: "\<not> ws_panicked w" "\<not> p_done p" "\<not> p_closing p"
    using ok by (auto simp: s over_ok_def over_inv_def)
  consider "ws_open w \<or> ws_watcher w \<noteq> WReturned" | "p_loop p = LAccept" "\<not> ws_open w"
    | e where "p_loop p = LSendError e" "0 < p_callers p"
    | h where "h \<in># p_handlers p" "sending h \<longrightarrow> 0 < p_callers p"
    using assms(2) w by (cases "p_loop p") (auto simp: s over_ended_def p_stalled_def split: if_splits)
  then show ?thesis
  proof cases
    case 1
    then show ?thesis using over_watcher_progress ok s by blast
  next
    case 2
    from over_loop_told [OF this w(1)] show ?thesis
      unfolding s by (intro exI [of _ "OverProxy (PInnerError (err_closed ''accept''))"]) simp
  next
    case (3 e)
    then have "proxy_step net PLoopSent p ((Accept_error e p)\<lparr>p_loop := LAccept\<rparr>)"
      by (intro proxy_step.intros(3) handleAccepts_step.intros(3)) (simp_all add: sendError_iff)
    from left_own [OF this _ _ w(1)] show ?thesis unfolding s by (intro exI [of _ "OverProxy PLoopSent"]) auto
  next
    case (4 h)
    then obtain l p' where l: "handleConnection_step net l p p'" "inner_call l = []" "l \<noteq> PCloseFirst"
      "over_internal (OverProxy l) s" using handler_own_step by blast
    from left_own [OF proxy_step.intros(4) [OF l(1)] l(2,3) w(1)] show ?thesis using l(4) s by blast
  qed
qed

interpretation od: draining "left_step net" over_internal over_ok over_ended over_work for net
  by unfold_locales (rule over_ok_step over_work_step over_progress, assumption+)+

section \<open>Callers that nobody answers\<close>

lemma p_stalled_callers:
  "proxy_step net l p p' \<Longrightarrow> p_stalled p \<Longrightarrow> l \<noteq> PCloseFirst \<Longrightarrow> p_callers p \<le> p_callers p'"
  by (auto elim!: proxy_step_elims simp: p_stalled_def)

definition unanswered :: "proxy_state \<Rightarrow> proxy_state \<Rightarrow> bool" where
  "unanswered p p' \<longleftrightarrow> p_stalled p' \<and> p_callers p \<le> p_callers p'
     \<and> p_delivered p' = p_delivered p \<and> p_errors p' = p_errors p"

lemma unanswered_run:
  "run (proxy_step net) p ls p' \<Longrightarrow> p_stalled p \<Longrightarrow> PCloseFirst \<notin> set ls \<Longrightarrow> unanswered p p'"
proof (induction rule: run.induct)
  case (run_Cons l p q ls p')
  have "p_stalled q" "p_callers p \<le> p_callers q" "p_delivered q = p_delivered p" "p_errors q = p_errors p"
    using p_stalled_step [OF run_Cons.hyps(1)] p_stalled_callers [OF run_Cons.hyps(1)] run_Cons.prems
    by auto
  then show ?case using run_Cons.IH run_Cons.prems by (simp add: unanswered_def)
qed (simp add: unanswered_def)

section \<open>Properties\<close>

text \<open>
  C26: A PROXY listener protects the UNIX listener inside it: however many goroutines call
  \<^verbatim>\<open>Close\<close>, and whatever the watcher does meanwhile, the inner \<^verbatim>\<open>Close\<close> is called at most once,
  so that its panic on a second call cannot happen; its channel is closed exactly when the
  inner listener was closed by the PROXY listener, and no connection is lost.
\<close>

theorem proxy_over_unix_never_panics:
  assumes "run (over_step net) (over_start i) ls (p, w)"
  shows "\<not> ws_panicked w \<and> length (ws_close_results w) \<le> 1
    \<and> (ws_closed w \<longleftrightarrow> p_inner_closes p = 1) \<and> p_inner_closes p \<le> 1
    \<and> mset (p_accepted p) = in_flight p + mset (map Conn (p_delivered p)) + mset (p_closed p)"
proof -
  have inv: "over_inv (p, w)" by (rule over_inv_run [OF assms])
  obtain ls' where "run watched_step (watched_start i) ls' w" using over_start_watched [OF assms] .
  from watched_inv_run [OF this] have "length (ws_close_results w) \<le> 1"
    by (auto simp: watched_inv_def split: if_splits)
  moreover obtain ks where "run (proxy_step net) NewListener ks p" using over_start_proxy [OF assms] .
  from conserved_run [OF this]
  have "mset (p_accepted p) = in_flight p + mset (map Conn (p_delivered p)) + mset (p_closed p)"
    by (simp add: conserved_def)
  ultimately show ?thesis using inv by (auto simp: over_inv_def split: if_splits)
qed

text \<open>Two calls of \<^verbatim>\<open>Close\<close>, one after the other.\<close>

lemma demo_over_closes:
  "\<exists>p w. run (over_step demo_net) (over_start demo_inode)
     [OverProxy PCloseFirst, OverProxy (PCloseInner None), OverProxy PCloseAgain] (p, w)
     \<and> p_inner_closes p = 1 \<and> p_close_results p = [None, Some NetErrClosed]"
proof -
  let ?w = "watched_start demo_inode"
  let ?w1 = "?w\<lparr>ws_closed := True, ws_closing := Suc (ws_closing ?w)\<rparr>"
  let ?w2 = "?w1\<lparr>ws_closing := ws_closing ?w1 - 1, ws_open := False,
    ws_close_results := ws_close_results ?w1 @ [if ws_open ?w1 then None else Some (err_closed ''close'')]\<rparr>"
  let ?p1 = "NewListener\<lparr>p_done := True, p_closing := True\<rparr>"
  let ?p2 = "?p1\<lparr>p_closing := False, p_inner_closes := Suc (p_inner_closes ?p1),
    p_close_results := p_close_results ?p1 @ [None]\<rparr>"
  let ?p3 = "?p2\<lparr>p_close_results := p_close_results ?p2 @ [Some NetErrClosed]\<rparr>"
  have calls: "run watched_step ?w (inner_call (PCloseInner None)) ?w2"
  proof (simp only: inner_call.simps close_calls_def, rule run.run_Cons)
    show "watched_step WCloseCall ?w ?w1"
      by (rule w_Close, simp add: watched_start_def, rule close_call) (simp add: watched_start_def)
    have "watched_step WCloseReturns ?w1 ?w2"
      by (rule w_Close, simp add: watched_start_def, rule close_returns) simp
    then show "run watched_step ?w1 [WCloseReturns] ?w2" by (rule run.run_Cons) simp
  qed
  have "over_step demo_net (OverProxy PCloseFirst) (NewListener, ?w) (?p1, ?w)"
    by (rule over_call, simp add: watched_start_def, rule proxy_step.intros(2), rule Close_step.intros(1))
      (simp_all add: NewListener_def)
  moreover have "over_step demo_net (OverProxy (PCloseInner None)) (?p1, ?w) (?p2, ?w2)"
    by (rule over_call [OF _ _ calls], simp add: watched_start_def, rule proxy_step.intros(2), rule Close_step.intros(2))
      (simp_all add: watched_start_def)
  moreover have "over_step demo_net (OverProxy PCloseAgain) (?p2, ?w2) (?p3, ?w2)"
    by (rule over_call, simp add: watched_start_def, rule proxy_step.intros(2), rule Close_step.intros(3))
      simp_all
  ultimately have "run (over_step demo_net) (over_start demo_inode)
     [OverProxy PCloseFirst, OverProxy (PCloseInner None), OverProxy PCloseAgain] (?p3, ?w2)"
    unfolding over_start_def by (simp only: run_Cons_iff run_Nil_iff) blast
  then show ?thesis by (intro exI conjI) (assumption, simp_all add: NewListener_def)
qed

theorem proxy_over_unix_never_panics_witness:
  "\<exists>p w. run (over_step demo_net) (over_start demo_inode)
     [OverProxy PCloseFirst, OverProxy (PCloseInner None), OverProxy PCloseAgain] (p, w)
     \<and> length (p_close_results p) = 2 \<and> \<not> ws_panicked w \<and> ws_closed w"
proof -
  obtain p w where r: "run (over_step demo_net) (over_start demo_inode)
     [OverProxy PCloseFirst, OverProxy (PCloseInner None), OverProxy PCloseAgain] (p, w)"
    "p_inner_closes p = 1" "p_close_results p = [None, Some NetErrClosed]"
    using demo_over_closes by (elim exE conjE)
  from proxy_over_unix_never_panics [OF r(1)] show ?thesis using r by (intro exI [of _ p] exI [of _ w]) simp
qed

text \<open>
  C17: The documented way a UNIX listener ends does not reach the callers of a PROXY listener
  around it. When the socket file was replaced and nobody calls \<^verbatim>\<open>Close\<close>, the goroutines' own
  steps end, after at most \<open>over_work\<close> of them in any order, with the UNIX listener closed;
  and if somebody waits in \<^verbatim>\<open>Accept\<close> then, all goroutines are gone and the caller is blocked
  for ever: in every continuation without a call of \<^verbatim>\<open>Close\<close>, whatever happens to the file,
  no call of \<^verbatim>\<open>Accept\<close> returns a connection or an error.
\<close>

theorem proxy_over_unix_hangs:
  assumes "run (over_step net) (over_start i) ls (p, w)" and "\<not> file_kept w" and "\<not> p_done p"
  shows "(\<forall>ls' t. drain_run over_internal (left_step net) (p, w) ls' t \<longrightarrow> length ls' \<le> over_work (p, w))
    \<and> (\<exists>ls' t. drain_run over_internal (left_step net) (p, w) ls' t \<and> over_ended t)
    \<and> (\<forall>ls' q v. run (left_step net) (p, w) ls' (q, v) \<longrightarrow>
        (\<nexists>l u. over_internal l (q, v) \<and> left_step net l (q, v) u) \<longrightarrow>
        \<not> ws_open v \<and> (0 < p_callers q \<longrightarrow>
          (\<forall>ls'' q' v'. run (over_step net) (q, v) ls'' (q', v') \<longrightarrow>
             OverProxy PCloseFirst \<notin> set ls'' \<longrightarrow> unanswered q q')))"
proof (intro conjI allI impI)
  obtain ks where "run watched_step (watched_start i) ks w" using over_start_watched [OF assms(1)] .
  then have "ws_doomed w" using watched_inv_run assms(2) by (simp add: ws_doomed_def)
  then have ok: "over_ok (p, w)" using over_inv_run [OF assms(1)] assms(3) by (simp add: over_ok_def)
  show "length ls' \<le> over_work (p, w)" if "drain_run over_internal (left_step net) (p, w) ls' t" for ls' t
    using od.drain_run_bound [OF that ok] by simp
  show "\<exists>ls' t. drain_run over_internal (left_step net) (p, w) ls' t \<and> over_ended t"
    by (rule od.drain_exists [OF ok])
  fix ls' q v
  assume r: "run (left_step net) (p, w) ls' (q, v)"
    and "\<nexists>l u. over_internal l (q, v) \<and> left_step net l (q, v) u"
  then have e: "over_ended (q, v)" using od.drained [OF ok r] by blast
  then show "\<not> ws_open v" by (simp add: over_ended_def)
  fix ls'' q' v'
  assume "0 < p_callers q" and c: "run (over_step net) (q, v) ls'' (q', v')" "OverProxy PCloseFirst \<notin> set ls''"
  then have "p_stalled q" using e by (simp add: over_ended_def)
  moreover obtain ks' where "run (proxy_step net) q ks' q'" "OverProxy ` set ks' \<subseteq> set ls''"
    using over_proxy_run [OF c(1)] by auto
  ultimately show "unanswered q q'" using unanswered_run c(2) by blast
qed

theorem proxy_over_unix_hangs_witness:
  "\<exists>ls' t. drain_run over_internal (left_step demo_net)
     (NewListener\<lparr>p_callers := 1\<rparr>, (watched_start demo_inode)\<lparr>ws_at_path := None\<rparr>) ls' t \<and> over_ended t"
proof -
  let ?w = "(watched_start demo_inode)\<lparr>ws_at_path := None\<rparr>"
  have "over_step demo_net (OverInner (WFileChanges None)) (over_start demo_inode) (NewListener, ?w)"
    unfolding over_start_def by (rule over_inner, simp, rule w_file) (simp add: watched_start_def)
  moreover have "over_step demo_net (OverProxy PAcceptCall) (NewListener, ?w)
      (NewListener\<lparr>p_callers := Suc (p_callers NewListener)\<rparr>, ?w)"
    by (rule over_call, simp add: watched_start_def, rule proxy_step.intros(1), rule Accept_step.intros(1))
      simp_all
  ultimately have "run (over_step demo_net) (over_start demo_inode)
      [OverInner (WFileChanges None), OverProxy PAcceptCall]
      (NewListener\<lparr>p_callers := Suc (p_callers NewListener)\<rparr>, ?w)"
    by (simp only: run_Cons_iff run_Nil_iff) blast
  from proxy_over_unix_hangs [OF this] show ?thesis by (simp add: NewListener_def)
qed

end
