(* ===== verification/Multi_Listener.thy ===== *)
theory Multi_Listener
  imports Go_Net Goroutines
begin

text \<open>
  \<^verbatim>\<open>multi.go\<close>: a listener that aggregates several. One accept loop for each inner
  listener, the callers of \<^verbatim>\<open>Accept\<close> and of \<^verbatim>\<open>Close\<close>, as a step relation in
  the manner of \<open>Proxy_Listener\<close>: a send is a step of a loop and of a blocked caller
  together, the lists of accepted, delivered and closed connections are histories.
\<close>

section \<open>State\<close>

datatype mloop_pc = MAccept | MSendError go_error | MSendConn nat | MExited

text \<open>
  \<open>m_closing = Some k\<close>: a \<^verbatim>\<open>Close\<close> call holds \<^verbatim>\<open>closeMu\<close>, has closed the
  channel and the first \<open>k\<close> listeners.
\<close>

record multi_state =
  m_closed :: bool
  m_closing :: "nat option"
  m_inner_closes :: "nat \<Rightarrow> nat"
  m_loops :: "mloop_pc list"
  m_callers :: nat
  m_accepted :: "nat list"
  m_delivered :: "nat list"
  m_dropped :: "nat list"
  m_errors :: "go_error list"
  m_close_results :: "go_error option list"

text \<open>\<^verbatim>\<open>MultiListener(listeners...)\<close> on \<open>n\<close> listeners.\<close>

definition MultiListener :: "nat \<Rightarrow> multi_state" where
  "MultiListener n = \<lparr>m_closed = False, m_closing = None, m_inner_closes = (\<lambda>_. 0),
     m_loops = replicate n MAccept, m_callers = 0, m_accepted = [], m_delivered = [],
     m_dropped = [], m_errors = [], m_close_results = []\<rparr>"

section \<open>Steps\<close>

datatype multi_label =
    MAcceptCall | MAcceptClosed
  | MCloseFirst | MCloseInner | MCloseReturn | MCloseAgain
  | MInnerConn nat nat | MInnerError nat go_error
  | MLoopStep nat bool

definition mAccept_conn :: "nat \<Rightarrow> multi_state \<Rightarrow> multi_state" where
  "mAccept_conn conn s =
     s\<lparr>m_callers := m_callers s - 1, m_delivered := m_delivered s @ [conn]\<rparr>"

definition mAccept_error :: "go_error \<Rightarrow> multi_state \<Rightarrow> multi_state" where
  "mAccept_error err s = s\<lparr>m_callers := m_callers s - 1, m_errors := m_errors s @ [err]\<rparr>"

inductive msendError :: "go_error \<Rightarrow> multi_state \<Rightarrow> bool \<Rightarrow> multi_state \<Rightarrow> bool" where
  "m_closed s \<Longrightarrow> msendError err s False s"
| "0 < m_callers s \<Longrightarrow> msendError err s True (mAccept_error err s)"

inductive msendConn :: "nat \<Rightarrow> multi_state \<Rightarrow> bool \<Rightarrow> multi_state \<Rightarrow> bool" where
  "m_closed s \<Longrightarrow> msendConn conn s False s"
| "0 < m_callers s \<Longrightarrow> msendConn conn s True (mAccept_conn conn s)"

inductive mAccept_step :: "multi_label \<Rightarrow> multi_state \<Rightarrow> multi_state \<Rightarrow> bool" where
  "mAccept_step MAcceptCall s (s\<lparr>m_callers := Suc (m_callers s)\<rparr>)"
| "0 < m_callers s \<Longrightarrow> m_closed s \<Longrightarrow>
     mAccept_step MAcceptClosed s (mAccept_error NetErrClosed s)"

text \<open>
  \<^verbatim>\<open>Close\<close>: the first caller closes the channel, then the listeners in their order,
  ignoring their errors, and returns nil.
\<close>

inductive mClose_step :: "multi_label \<Rightarrow> multi_state \<Rightarrow> multi_state \<Rightarrow> bool" where
  "m_closing s = None \<Longrightarrow> \<not> m_closed s \<Longrightarrow>
     mClose_step MCloseFirst s (s\<lparr>m_closed := True, m_closing := Some 0\<rparr>)"
| "m_closing s = Some k \<Longrightarrow> k < length (m_loops s) \<Longrightarrow>
     mClose_step MCloseInner s
       (s\<lparr>m_closing := Some (Suc k),
          m_inner_closes := (m_inner_closes s)(k := Suc (m_inner_closes s k))\<rparr>)"
| "m_closing s = Some k \<Longrightarrow> \<not> k < length (m_loops s) \<Longrightarrow>
     mClose_step MCloseReturn s
       (s\<lparr>m_closing := None, m_close_results := m_close_results s @ [None]\<rparr>)"
| "m_closing s = None \<Longrightarrow> m_closed s \<Longrightarrow>
     mClose_step MCloseAgain s (s\<lparr>m_close_results := m_close_results s @ [Some NetErrClosed]\<rparr>)"

text \<open>\<^verbatim>\<open>handleAccepts(l)\<close> for listener number \<open>i\<close>.\<close>

definition loop_to :: "nat \<Rightarrow> mloop_pc \<Rightarrow> multi_state \<Rightarrow> multi_state" where
  "loop_to i pc s = s\<lparr>m_loops := (m_loops s)[i := pc]\<rparr>"

inductive mhandleAccepts_step :: "multi_label \<Rightarrow> multi_state \<Rightarrow> multi_state \<Rightarrow> bool" where
  "i < length (m_loops s) \<Longrightarrow> m_loops s ! i = MAccept \<Longrightarrow> errors_Is err NetErrClosed \<Longrightarrow>
     mhandleAccepts_step (MInnerError i err) s (loop_to i MExited s)"
| "i < length (m_loops s) \<Longrightarrow> m_loops s ! i = MAccept \<Longrightarrow> \<not> errors_Is err NetErrClosed \<Longrightarrow>
     mhandleAccepts_step (MInnerError i err) s (loop_to i (MSendError err) s)"
| "i < length (m_loops s) \<Longrightarrow> m_loops s ! i = MAccept \<Longrightarrow> c \<notin> set (m_accepted s) \<Longrightarrow>
     mhandleAccepts_step (MInnerConn i c) s
       (loop_to i (MSendConn c) (s\<lparr>m_accepted := m_accepted s @ [c]\<rparr>))"
| "i < length (m_loops s) \<Longrightarrow> m_loops s ! i = MSendError err \<Longrightarrow> msendError err s ok t \<Longrightarrow>
     mhandleAccepts_step (MLoopStep i ok) s (loop_to i (if ok then MAccept else MExited) t)"
| "i < length (m_loops s) \<Longrightarrow> m_loops s ! i = MSendConn c \<Longrightarrow> msendConn c s True t \<Longrightarrow>
     mhandleAccepts_step (MLoopStep i True) s (loop_to i MAccept t)"
| "i < length (m_loops s) \<Longrightarrow> m_loops s ! i = MSendConn c \<Longrightarrow> msendConn c s False t \<Longrightarrow>
     mhandleAccepts_step (MLoopStep i False) s
       (loop_to i MExited (t\<lparr>m_dropped := m_dropped t @ [c]\<rparr>))"

inductive multi_step :: "multi_label \<Rightarrow> multi_state \<Rightarrow> multi_state \<Rightarrow> bool" where
  "mAccept_step l s t \<Longrightarrow> multi_step l s t"
| "mClose_step l s t \<Longrightarrow> multi_step l s t"
| "mhandleAccepts_step l s t \<Longrightarrow> multi_step l s t"

text \<open>\<^verbatim>\<open>Addr\<close>, and the two methods of \<^verbatim>\<open>multiAddr\<close>.\<close>

definition multi_Addr :: "multi_state \<Rightarrow> addr" where "multi_Addr s = MultiAddr"
definition multiAddr_Network :: string where "multiAddr_Network = ''multi''"
definition multiAddr_String :: string where "multiAddr_String = ''multi''"

lemmas multi_updates = mAccept_conn_def mAccept_error_def loop_to_def

inductive_simps msendConn_iff: "msendConn conn s b t"
inductive_simps msendError_iff: "msendError err s b t"
inductive_cases multi_stepE: "multi_step l s t"
inductive_cases mAccept_stepE: "mAccept_step l s t"
inductive_cases mClose_stepE: "mClose_step l s t"
inductive_cases mhandleAccepts_stepE: "mhandleAccepts_step l s t"

lemmas multi_step_elims = multi_stepE mAccept_stepE mClose_stepE mhandleAccepts_stepE

lemma run_mAccept: "mAccept_step l s t \<Longrightarrow> run multi_step t ls u \<Longrightarrow> run multi_step s (l # ls) u"
  and run_mClose: "mClose_step l s t \<Longrightarrow> run multi_step t ls u \<Longrightarrow> run multi_step s (l # ls) u"
  and run_mloop: "mhandleAccepts_step l s t \<Longrightarrow> run multi_step t ls u \<Longrightarrow> run multi_step s (l # ls) u"
  by (auto intro: run_Cons multi_step.intros)

section \<open>Closing\<close>

interpretation mc: close_contract multi_step m_closed "\<lambda>s. m_closing s \<noteq> None" m_close_results
  by unfold_locales
    (auto elim!: multi_step_elims simp: msendConn_iff msendError_iff multi_updates)

text \<open>Which listeners have been closed, and how often.\<close>

definition closes_ok :: "multi_state \<Rightarrow> bool" where
  "closes_ok s \<longleftrightarrow>
     (case m_closing s of
        Some k \<Rightarrow> m_closed s \<and> k \<le> length (m_loops s) \<and>
                  m_inner_closes s = (\<lambda>i. if i < k then 1 else 0)
      | None \<Rightarrow> m_inner_closes s = (\<lambda>i. if m_closed s \<and> i < length (m_loops s) then 1 else 0))"

lemma closes_ok_step: "multi_step l s t \<Longrightarrow> closes_ok s \<Longrightarrow> closes_ok t"
  by (auto elim!: multi_step_elims
      simp: msendConn_iff msendError_iff multi_updates closes_ok_def fun_eq_iff split: option.splits)

section \<open>No connection is lost\<close>

fun mloop_conns :: "mloop_pc \<Rightarrow> nat multiset" where
  "mloop_conns (MSendConn c) = {#c#}"
| "mloop_conns _ = {#}"

definition m_in_flight :: "multi_state \<Rightarrow> nat multiset" where
  "m_in_flight s = (\<Sum>pc \<in># mset (m_loops s). mloop_conns pc)"

definition m_conserved :: "multi_state \<Rightarrow> bool" where
  "m_conserved s \<longleftrightarrow> distinct (m_accepted s) \<and>
     mset (m_accepted s) = m_in_flight s + mset (m_delivered s) + mset (m_dropped s)"

text \<open>A sum over the loops when one of them moves.\<close>

lemma sum_loops_update:
  fixes f :: "mloop_pc \<Rightarrow> 'a :: comm_monoid_add"
  assumes "i < length xs"
  shows "\<exists>r. (\<Sum>x \<in># mset xs. f x) = f (xs ! i) + r \<and>
    (\<forall>y. (\<Sum>x \<in># mset (xs[i := y]). f x) = f y + r)"
proof -
  have "xs ! i \<in># mset xs" using assms by simp
  then have "(\<Sum>x \<in># mset xs. f x) = f (xs ! i) + (\<Sum>x \<in># mset xs - {#xs ! i#}. f x)"
    by (metis insert_DiffM image_mset_add_mset sum_mset.insert)
  then show ?thesis using assms by (auto simp: mset_update)
qed

lemma m_conserved_step: "multi_step l s t \<Longrightarrow> m_conserved s \<Longrightarrow> m_conserved t"
  by (auto elim!: multi_step_elims dest!: sum_loops_update [where f = mloop_conns]
      simp: m_conserved_def m_in_flight_def multi_updates msendConn_iff msendError_iff)

lemma m_conserved_run: "run multi_step (MultiListener n) ls s \<Longrightarrow> m_conserved s"
  by (erule run_invariant [OF _ _ m_conserved_step])
    (simp_all add: m_conserved_def m_in_flight_def MultiListener_def)

section \<open>Errors and closed listeners\<close>

fun mloop_sound :: "mloop_pc \<Rightarrow> bool" where
  "mloop_sound (MSendError e) \<longleftrightarrow> \<not> errors_Is e NetErrClosed"
| "mloop_sound _ \<longleftrightarrow> True"

definition m_sound :: "multi_state \<Rightarrow> bool" where
  "m_sound s \<longleftrightarrow>
     list_all mloop_sound (m_loops s)
     \<and> (\<forall>e \<in> set (m_errors s). errors_Is e NetErrClosed \<longrightarrow> m_closed s)
     \<and> (\<forall>c \<in> set (m_dropped s). m_closed s)"

lemma list_all_update:
  "list_all P xs \<Longrightarrow> P y \<Longrightarrow> list_all P (xs[i := y])"
  by (auto simp: list_all_iff dest!: set_update_subset_insert [THEN subsetD])

lemma m_sound_step:
  assumes "multi_step l s t" and "m_sound s"
  shows "m_sound t"
proof -
  have nth: "i < length (m_loops s) \<Longrightarrow> mloop_sound (m_loops s ! i)" for i
    using assms(2) by (simp add: m_sound_def list_all_length)
  show ?thesis using assms(1)
  proof cases
    case 3
    then show ?thesis
    proof cases
      case (4 i err ok t')
      then have "\<not> errors_Is err NetErrClosed" using nth [of i] by simp
      then show ?thesis using 4 assms(2)
        by (auto simp: m_sound_def multi_updates msendError_iff intro!: list_all_update)
    qed (use assms(2) in \<open>auto simp: m_sound_def multi_updates msendConn_iff intro!: list_all_update\<close>)
  qed (use assms(2) in \<open>auto elim!: mAccept_stepE mClose_stepE simp: m_sound_def multi_updates\<close>)
qed

lemma m_sound_run: "run multi_step (MultiListener n) ls s \<Longrightarrow> m_sound s"
  by (erule run_invariant [OF _ _ m_sound_step])
    (simp_all add: m_sound_def MultiListener_def list_all_length)

lemma closes_ok_run: "run multi_step (MultiListener n) ls s \<Longrightarrow> closes_ok s"
  by (erule run_invariant [OF _ _ closes_ok_step]) (simp_all add: closes_ok_def MultiListener_def)

lemma m_loops_length:
  "run multi_step (MultiListener n) ls s \<Longrightarrow> length (m_loops s) = n"
  by (erule run_invariant [where I = "\<lambda>s. length (m_loops s) = n"])
    (auto elim!: multi_step_elims simp: MultiListener_def multi_updates msendConn_iff msendError_iff)

section \<open>After Close every goroutine ends\<close>

fun m_internal :: "multi_label \<Rightarrow> multi_state \<Rightarrow> bool" where
  "m_internal MAcceptCall s = False"
| "m_internal MCloseFirst s = False"
| "m_internal MCloseAgain s = False"
| "m_internal (MInnerConn i c) s = False"
| "m_internal (MInnerError i e) s = (0 < m_inner_closes s i \<and> errors_Is e NetErrClosed)"
| "m_internal _ s = True"

definition m_ended :: "multi_state \<Rightarrow> bool" where
  "m_ended s \<longleftrightarrow>
     (\<forall>pc \<in> set (m_loops s). pc = MExited) \<and> m_callers s = 0 \<and> m_closing s = None"

definition m_close_called :: "multi_state \<Rightarrow> bool" where
  "m_close_called s \<longleftrightarrow> m_closed s \<and> closes_ok s"

fun mloop_work :: "mloop_pc \<Rightarrow> nat" where
  "mloop_work MAccept = 1" | "mloop_work (MSendError e) = 2"
| "mloop_work (MSendConn c) = 2" | "mloop_work MExited = 0"

definition m_work :: "multi_state \<Rightarrow> nat" where
  "m_work s = (\<Sum>pc \<in># mset (m_loops s). mloop_work pc) + m_callers s
     + (case m_closing s of None \<Rightarrow> 0 | Some k \<Rightarrow> Suc (length (m_loops s) - k))"

lemma m_work_step:
  assumes "multi_step l s t" and "m_internal l s"
  shows "m_work t < m_work s"
  using assms(1)
proof cases
  case 3
  then show ?thesis using assms(2)
    by cases (auto dest!: sum_loops_update [where f = mloop_work]
      simp: m_work_def multi_updates msendConn_iff msendError_iff split: option.splits)
qed (use assms(2) in \<open>auto elim!: mAccept_stepE mClose_stepE
      simp: m_work_def multi_updates split: option.splits\<close>)

lemma m_progress:
  assumes "m_close_called s" and "\<not> m_ended s"
  shows "\<exists>l t. m_internal l s \<and> multi_step l s t"
proof (cases "m_closing s")
  case (Some k)
  then show ?thesis
    using mClose_step.intros(2) [of s k, THEN multi_step.intros(2)]
      mClose_step.intros(3) [of s k, THEN multi_step.intros(2)]
    by (cases "k < length (m_loops s)") (metis m_internal.simps(7,8))+
next
  case None
  have d: "m_closed s" and c: "i < length (m_loops s) \<Longrightarrow> m_inner_closes s i = 1" for i
    using assms(1) None by (auto simp: m_close_called_def closes_ok_def)
  consider "0 < m_callers s" | i where "i < length (m_loops s)" "m_loops s ! i \<noteq> MExited"
    using assms(2) None by (auto simp: m_ended_def in_set_conv_nth)
  then show ?thesis
  proof cases
    case 1
    then show ?thesis using d mAccept_step.intros(2) multi_step.intros(1)
      by (metis m_internal.simps(6))
  next
    case i: (2 i)
    show ?thesis
    proof (cases "m_loops s ! i")
      case MAccept
      then have "mhandleAccepts_step (MInnerError i NetErrClosed) s (loop_to i MExited s)"
        using i by (intro mhandleAccepts_step.intros(1)) simp_all
      then show ?thesis using multi_step.intros(3) c [OF i(1)]
        by (metis errors_Is_refl m_internal.simps(5) zero_less_one)
    next
      case (MSendError e)
      then have "mhandleAccepts_step (MLoopStep i False) s (loop_to i (if False then MAccept else MExited) s)"
        using i d by (intro mhandleAccepts_step.intros(4)) (simp_all add: msendError_iff)
      then show ?thesis using multi_step.intros(3) by (metis m_internal.simps(9))
    next
      case (MSendConn conn)
      then have "mhandleAccepts_step (MLoopStep i False) s
          (loop_to i MExited (s\<lparr>m_dropped := m_dropped s @ [conn]\<rparr>))"
        using i d by (intro mhandleAccepts_step.intros(6)) (simp_all add: msendConn_iff)
      then show ?thesis using multi_step.intros(3) by (metis m_internal.simps(9))
    qed (use i in simp)
  qed
qed

interpretation md: draining multi_step m_internal m_close_called m_ended m_work
proof unfold_locales
  fix l s t
  show "multi_step l s t \<Longrightarrow> m_close_called s \<Longrightarrow> m_close_called t"
    using closes_ok_step mc.done_stable by (auto simp: m_close_called_def)
qed (blast intro: m_work_step m_progress)+

lemma reachable_m_close_called:
  "run multi_step (MultiListener n) ls s \<Longrightarrow> m_closed s \<Longrightarrow> m_close_called s"
  by (simp add: m_close_called_def closes_ok_run)

section \<open>An example run\<close>

text \<open>
  Two listeners. A connection of the first is delivered; then \<^verbatim>\<open>Close\<close> begins while
  the loop of the second is sending its connection.
\<close>

definition m_demo :: multi_state where
  "m_demo = \<lparr>m_closed = True, m_closing = Some 1, m_inner_closes = (\<lambda>_. 0)(0 := 1),
     m_loops = [MAccept, MSendConn 8], m_callers = 0, m_accepted = [7, 8], m_delivered = [7],
     m_dropped = [], m_errors = [], m_close_results = []\<rparr>"

lemma m_demo_run:
  "run multi_step (MultiListener 2)
     [MAcceptCall, MInnerConn 0 7, MLoopStep 0 True, MInnerConn 1 8, MCloseFirst, MCloseInner] m_demo"
  apply (rule run_mAccept, rule mAccept_step.intros(1))
  apply (rule run_mloop, rule mhandleAccepts_step.intros(3), simp_all add: MultiListener_def)
  apply (rule run_mloop, rule mhandleAccepts_step.intros(5),
    simp_all add: loop_to_def numeral_2_eq_2 msendConn_iff)
  apply (rule run_mloop, rule mhandleAccepts_step.intros(3), simp_all add: mAccept_conn_def)
  apply (rule run_mClose, rule mClose_step.intros(1), simp_all add: loop_to_def)
  apply (rule run_mClose, rule mClose_step.intros(2), simp_all add: m_demo_def)
  done

section \<open>Inner listeners that close by themselves\<close>

text \<open>
  All accept loops ended because the inner listeners reported \<^verbatim>\<open>net.ErrClosed\<close>, and nobody
  called \<^verbatim>\<open>Close\<close>. From then on no call of \<^verbatim>\<open>Accept\<close> returns until somebody does.
\<close>

definition m_stalled :: "multi_state \<Rightarrow> bool" where
  "m_stalled s \<longleftrightarrow> list_all (\<lambda>pc. pc = MExited) (m_loops s) \<and> \<not> m_closed s \<and> m_closing s = None"

lemma m_stalled_step:
  "multi_step l s t \<Longrightarrow> m_stalled s \<Longrightarrow> l \<noteq> MCloseFirst \<Longrightarrow>
     m_stalled t \<and> m_delivered t = m_delivered s \<and> m_errors t = m_errors s \<and> m_callers s \<le> m_callers t"
  by (auto elim!: multi_step_elims simp: m_stalled_def list_all_length)

lemma multi_Accept_blocks_when_stalled:
  "run multi_step s ls t \<Longrightarrow> m_stalled s \<Longrightarrow> MCloseFirst \<notin> set ls \<Longrightarrow>
     m_stalled t \<and> m_delivered t = m_delivered s \<and> m_errors t = m_errors s \<and> m_callers s \<le> m_callers t"
proof (induction rule: run.induct)
  case (run_Cons l s t ls u)
  then show ?case using m_stalled_step [OF run_Cons.hyps(1)] by fastforce
qed simp

section \<open>Properties\<close>

text \<open>
  C22: In every state the goroutines of a multi-listener can reach, each connection that
  an inner listener produced is, exactly once, held by that listener's loop, returned by
  \<^verbatim>\<open>Accept\<close>, or closed, and connections are closed only after \<^verbatim>\<open>Close\<close>.
\<close>

theorem multi_connections_conserved:
  assumes "run multi_step (MultiListener n) ls s"
  shows "distinct (m_accepted s)
    \<and> mset (m_accepted s) = m_in_flight s + mset (m_delivered s) + mset (m_dropped s)
    \<and> (m_dropped s \<noteq> [] \<longrightarrow> m_closed s)"
  using m_conserved_run [OF assms] m_sound_run [OF assms]
  by (cases "m_dropped s") (auto simp: m_conserved_def m_sound_def)

theorem multi_connections_conserved_witness:
  "distinct (m_accepted m_demo)
    \<and> mset (m_accepted m_demo) = m_in_flight m_demo + mset (m_delivered m_demo) + mset (m_dropped m_demo)"
  using multi_connections_conserved [OF m_demo_run] by blast

text \<open>
  \<^verbatim>\<open>Close\<close> of a multi-listener closes every inner listener exactly once: none
  before it is called, all of them when the first call has returned, and every other call
  returns \<^verbatim>\<open>net.ErrClosed\<close>; \<^verbatim>\<open>Accept\<close> returns an error that is
  \<^verbatim>\<open>net.ErrClosed\<close> only after it.
\<close>

theorem multi_Close_each_once:
  assumes "run multi_step (MultiListener n) ls s"
  shows "(\<not> m_closed s \<longrightarrow> m_inner_closes s = (\<lambda>_. 0))
    \<and> (\<forall>i. m_inner_closes s i \<le> (if i < n then 1 else 0))
    \<and> (m_closed s \<and> m_closing s = None \<longrightarrow> (\<forall>i < n. m_inner_closes s i = 1))
    \<and> (\<forall>r \<in> set (tl (m_close_results s)). r = Some NetErrClosed)
    \<and> (\<forall>e \<in> set (m_errors s). errors_Is e NetErrClosed \<longrightarrow> m_closed s)"
  using closes_ok_run [OF assms] m_loops_length [OF assms] mc.close_once [OF assms]
    m_sound_run [OF assms]
  by (auto simp: closes_ok_def MultiListener_def m_sound_def split: option.splits)

text \<open>
  C21: No goroutine of a multi-listener outlives \<^verbatim>\<open>Close\<close>: from every reachable
  state in which the channel is closed the goroutines' own steps end, after at most
  \<open>m_work s\<close> of them and in any order, with every loop and caller ended and every
  connection delivered or closed.
\<close>

theorem multi_Close_drains:
  assumes "run multi_step (MultiListener n) ls s" and "m_closed s"
  shows "(\<forall>ls' t. drain_run m_internal multi_step s ls' t \<longrightarrow> length ls' \<le> m_work s)
    \<and> (\<exists>ls' t. drain_run m_internal multi_step s ls' t \<and> m_ended t)
    \<and> (\<forall>ls' t. run multi_step s ls' t \<longrightarrow> (\<nexists>l u. m_internal l t \<and> multi_step l t u) \<longrightarrow>
        m_ended t \<and> mset (m_accepted t) = mset (m_delivered t) + mset (m_dropped t))"
proof (intro conjI allI impI)
  have ok: "m_close_called s" using reachable_m_close_called assms by blast
  show "\<exists>ls' t. drain_run m_internal multi_step s ls' t \<and> m_ended t"
    by (rule md.drain_exists [OF ok])
  show "length ls' \<le> m_work s" if "drain_run m_internal multi_step s ls' t" for ls' t
    using md.drain_run_bound [OF that ok] by simp
  fix ls' t
  assume r: "run multi_step s ls' t" and q: "\<nexists>l u. m_internal l t \<and> multi_step l t u"
  show e: "m_ended t" using md.drained [OF ok r q] .
  then have "m_in_flight t = {#}"
    by (auto simp: m_in_flight_def m_ended_def)
  then show "mset (m_accepted t) = mset (m_delivered t) + mset (m_dropped t)"
    using m_conserved_run [OF run_append [OF assms(1) r]] by (simp add: m_conserved_def)
qed

theorem multi_Close_drains_witness:
  "\<exists>ls t. drain_run m_internal multi_step m_demo ls t \<and> length ls \<le> 5 \<and> m_ended t"
proof -
  have "m_closed m_demo" "m_work m_demo = 5"
    by (simp_all add: m_demo_def m_work_def)
  then show ?thesis using multi_Close_drains [OF m_demo_run] by metis
qed

end
