(* ===== verification/Multi_Over_Unix.thy ===== *)
theory Multi_Over_Unix
  imports Multi_Listener Unix_Inner
begin

text \<open>
  An aggregating listener over watched UNIX listeners, as a program gets it that opens several
  UNIX sockets and serves them through \<^verbatim>\<open>MultiListener\<close>. The relation of \<open>Multi_Listener\<close> runs
  beside one relation of \<open>Unix_Watch\<close> for each inner listener; they meet in the calls the
  aggregating listener makes. What is new is how the end of one inner listener, which its
  watcher may close at any moment, affects the others and the whole.
\<close>

section \<open>Composition\<close>

datatype mou_label = MouMulti multi_label | MouInner nat watched_label

type_synonym mou_state = "multi_state \<times> watched_state list"

text \<open>
  The inner listener a step of the aggregating listener calls, and the calls: loop \<open>i\<close> accepts
  from listener \<open>i\<close>, \<^verbatim>\<open>Close\<close> closes the one it has come to, ignoring what it returns.
\<close>

fun mou_calls :: "multi_label \<Rightarrow> multi_state \<Rightarrow> (nat \<times> watched_label list) option" where
  "mou_calls (MInnerConn i c) m = Some (i, accept_conn_calls c)"
| "mou_calls (MInnerError i e) m = Some (i, accept_error_calls e)"
| "mou_calls MCloseInner m = map_option (\<lambda>k. (k, close_calls)) (m_closing m)"
| "mou_calls _ m = None"

text \<open>A panic in one of the inner listeners ends the program; the last rule is the panic.\<close>

definition running :: "watched_state list \<Rightarrow> bool" where
  "running ws \<longleftrightarrow> (\<forall>w \<in> set ws. \<not> ws_panicked w)"

inductive mou_step :: "mou_label \<Rightarrow> mou_state \<Rightarrow> mou_state \<Rightarrow> bool" where
  mou_own: "running ws \<Longrightarrow> multi_step l m m' \<Longrightarrow> mou_calls l m = None \<Longrightarrow>
    mou_step (MouMulti l) (m, ws) (m', ws)"
| mou_call: "running ws \<Longrightarrow> multi_step l m m' \<Longrightarrow> mou_calls l m = Some (i, ks) \<Longrightarrow> i < length ws \<Longrightarrow>
    run watched_step (ws ! i) ks w' \<Longrightarrow> mou_step (MouMulti l) (m, ws) (m', ws[i := w'])"
| mou_inner: "running ws \<Longrightarrow> i < length ws \<Longrightarrow> of_watcher l \<Longrightarrow> watched_step l (ws ! i) w' \<Longrightarrow>
    mou_step (MouInner i l) (m, ws) (m, ws[i := w'])"
| mou_panic: "running ws \<Longrightarrow> m_closing m = Some i \<Longrightarrow> i < length ws \<Longrightarrow>
    watched_step WCloseCall (ws ! i) w' \<Longrightarrow> ws_panicked w' \<Longrightarrow>
    mou_step (MouMulti MCloseInner) (m, ws) (m, ws[i := w'])"

inductive_cases mou_stepE: "mou_step l s t"

definition mou_start :: "inode list \<Rightarrow> mou_state" where
  "mou_start is = (MultiListener (length is), map watched_start is)"

section \<open>Projections\<close>

text \<open>What is proved of the aggregating listener, or of one inner listener, holds here.\<close>

lemma mou_multi_run:
  "run mou_step s ls t \<Longrightarrow>
     \<exists>ls'. run multi_step (fst s) ls' (fst t) \<and> MouMulti ` set ls' \<subseteq> set ls"
proof (induction rule: run.induct)
  case (run_Nil s)
  have "run multi_step (fst s) [] (fst s)" by simp
  then show ?case by fastforce
next
  case (run_Cons l s t ls u)
  then obtain ls' where IH: "run multi_step (fst t) ls' (fst u)" "MouMulti ` set ls' \<subseteq> set ls"
    by blast
  have "fst t = fst s \<or> (\<exists>k. l = MouMulti k \<and> multi_step k (fst s) (fst t))"
    using run_Cons.hyps(1) by cases auto
  then show ?case
  proof (elim disjE exE conjE)
    assume "fst t = fst s"
    then show ?thesis using IH by auto
  next
    fix k assume "l = MouMulti k" "multi_step k (fst s) (fst t)"
    then show ?thesis using IH by (intro exI [of _ "k # ls'"]) (auto intro: run.run_Cons)
  qed
qed

text \<open>
  One inner listener: its own steps and the calls made of it. \<open>calls_of i\<close> says which labels of
  a watched listener a run of the whole can give to listener \<open>i\<close>.
\<close>

definition calls_of :: "nat \<Rightarrow> mou_label set \<Rightarrow> watched_label set" where
  "calls_of i L = {k. MouInner i k \<in> L} \<union> (\<Union>c. set (accept_conn_calls c)) \<union> (\<Union>e. set (accept_error_calls e))
     \<union> (if MouMulti MCloseInner \<in> L then set close_calls else {})"

lemma calls_of_mono: "L \<subseteq> L' \<Longrightarrow> calls_of i L \<subseteq> calls_of i L'"
  by (auto simp: calls_of_def)

lemma mou_calls_labels:
  "mou_calls l m = Some (i, ks) \<Longrightarrow> set ks \<subseteq> calls_of i {MouMulti l}"
  by (cases "(l, m)" rule: mou_calls.cases) (auto simp: calls_of_def)

lemma mou_inner_step:
  assumes "mou_step l s t" and "i < length (snd s)"
  shows "\<exists>ks. run watched_step (snd s ! i) ks (snd t ! i) \<and> set ks \<subseteq> calls_of i {l}"
  using assms(1)
proof cases
  case (mou_own ws k m m')
  then show ?thesis by (intro exI [of _ "[]"]) simp
next
  case (mou_call ws k m m' j ks w')
  then show ?thesis
    using mou_calls_labels [OF mou_call(6)] assms(2) by (cases "i = j") (auto intro: exI [of _ "[]"])
next
  case (mou_inner ws j k w' m)
  then show ?thesis
    using assms(2) by (cases "i = j")
      (auto simp: calls_of_def run_Cons_iff intro: exI [of _ "[]"] exI [of _ "[k]"])
next
  case (mou_panic ws m j w')
  then show ?thesis
    using assms(2) by (cases "i = j")
      (auto simp: calls_of_def close_calls_def run_Cons_iff intro: exI [of _ "[]"] exI [of _ "[WCloseCall]"])
qed

lemma mou_step_length: "mou_step l s t \<Longrightarrow> length (snd t) = length (snd s)"
  by (auto elim!: mou_stepE)

lemma mou_inner_run:
  assumes "run mou_step s ls t" and "i < length (snd s)"
  shows "\<exists>ks. run watched_step (snd s ! i) ks (snd t ! i) \<and> set ks \<subseteq> calls_of i (set ls)"
  using assms
proof (induction rule: run.induct)
  case (run_Nil s)
  then show ?case by (intro exI [of _ "[]"]) simp
next
  case (run_Cons l s t ls u)
  obtain ks where k: "run watched_step (snd s ! i) ks (snd t ! i)" "set ks \<subseteq> calls_of i {l}"
    using mou_inner_step [OF run_Cons.hyps(1) run_Cons.prems] by blast
  obtain ks' where k': "run watched_step (snd t ! i) ks' (snd u ! i)" "set ks' \<subseteq> calls_of i (set ls)"
    using run_Cons.IH run_Cons.prems mou_step_length [OF run_Cons.hyps(1)] by auto
  have "run watched_step (snd s ! i) (ks @ ks') (snd u ! i)" by (rule run_append [OF k(1) k'(1)])
  moreover have "set (ks @ ks') \<subseteq> calls_of i (set (l # ls))"
    using k(2) k'(2) calls_of_mono [of "{l}" "set (l # ls)" i] calls_of_mono [of "set ls" "set (l # ls)" i]
    by auto
  ultimately show ?case by blast
qed

section \<open>Invariant\<close>

text \<open>
  The channel of an inner listener is closed by the one call of the aggregating listener, and a
  loop ends only when that listener was closed or its own listener is.
\<close>

definition inner_ok :: "multi_state \<Rightarrow> nat \<Rightarrow> watched_state \<Rightarrow> bool" where
  "inner_ok m i w \<longleftrightarrow> \<not> ws_panicked w \<and> ws_callers w = 0 \<and> ws_closing w = 0
     \<and> ws_closed w = (0 < m_inner_closes m i)
     \<and> (m_loops m ! i = MExited \<longrightarrow> m_closed m \<or> \<not> ws_open w)"

definition mou_inv :: "mou_state \<Rightarrow> bool" where
  "mou_inv s \<longleftrightarrow> closes_ok (fst s) \<and> length (snd s) = length (m_loops (fst s))
     \<and> (\<forall>i < length (snd s). inner_ok (fst s) i (snd s ! i))"

lemma mou_inv_running: "mou_inv (m, ws) \<Longrightarrow> running ws"
  by (auto simp: mou_inv_def inner_ok_def running_def in_set_conv_nth)

lemma multi_step_length: "multi_step l m m' \<Longrightarrow> length (m_loops m') = length (m_loops m)"
  by (auto elim!: multi_step_elims simp: multi_updates msendConn_iff msendError_iff)

text \<open>What one step of the aggregating listener changes of what concerns listener \<open>i\<close>.\<close>

lemma multi_step_closes:
  "multi_step l m m' \<Longrightarrow> m_inner_closes m' =
     (if l = MCloseInner then (m_inner_closes m)(the (m_closing m) := Suc (m_inner_closes m (the (m_closing m))))
      else m_inner_closes m)"
  by (auto elim!: multi_step_elims simp: multi_updates msendConn_iff msendError_iff)

lemma multi_step_exits:
  "multi_step l m m' \<Longrightarrow> m_loops m' ! i = MExited \<Longrightarrow> i < length (m_loops m) \<Longrightarrow>
     m_loops m ! i = MExited \<or> m_closed m \<or> (\<exists>e. l = MInnerError i e \<and> errors_Is e NetErrClosed)"
  by (auto elim!: multi_step_elims simp: multi_updates msendConn_iff msendError_iff nth_list_update
      split: if_splits)

lemma multi_step_closing:
  "multi_step MCloseInner m m' \<Longrightarrow> \<exists>k < length (m_loops m). m_closing m = Some k"
  by (auto elim!: multi_step_elims)

lemma inner_ok_step:
  assumes "inner_ok m i w" and "multi_step l m m'" and "i < length (m_loops m)"
    and "same_watch w w'" and "l = MCloseInner \<longrightarrow> m_closing m \<noteq> Some i"
    and "\<And>e. l = MInnerError i e \<Longrightarrow> errors_Is e NetErrClosed \<Longrightarrow> \<not> ws_open w"
  shows "inner_ok m' i w'"
proof -
  have "m_closing m \<noteq> None" if "l = MCloseInner"
    using multi_step_closing assms(2) that by blast
  then have "m_inner_closes m' i = m_inner_closes m i"
    using multi_step_closes [OF assms(2)] assms(5) by auto
  then show ?thesis
    using assms(1,4,6) multi_step_exits [OF assms(2) _ assms(3)] mc.done_stable [OF assms(2)]
    by (auto simp: inner_ok_def same_watch_def)
qed

lemma mou_inv_call:
  assumes inv: "mou_inv (m, ws)" and st: "multi_step l m m'" and c: "mou_calls l m = Some (i, ks)"
    and i: "i < length ws" and r: "run watched_step (ws ! i) ks w'"
  shows "mou_inv (m', ws[i := w'])"
proof -
  have len: "length ws = length (m_loops m)" and ok: "\<And>j. j < length ws \<Longrightarrow> inner_ok m j (ws ! j)"
    and cl: "closes_ok m" using inv by (auto simp: mou_inv_def)
  have "inner_ok m' j (ws[i := w'] ! j)" if j: "j < length ws" for j
  proof (cases "l = MCloseInner \<and> j = i")
    case True
    then have k: "m_closing m = Some i" "ks = close_calls" using c by auto
    have "ws_closed w'" "\<not> ws_panicked w'" "ws_callers w' = 0" "ws_closing w' = 0"
      using close_calls_effect [OF r [unfolded k(2)]] ok [OF i] by (simp_all add: inner_ok_def)
    moreover have "m_closed m'" using mc.done_stable [OF st] cl k by (simp add: closes_ok_def)
    ultimately show ?thesis using multi_step_closes [OF st] True k(1) i by (simp add: inner_ok_def)
  next
    case False
    have same: "same_watch (ws ! j) (ws[i := w'] ! j)"
    proof (cases "j = i")
      case True
      then have "\<not> l = MCloseInner" using False by blast
      then show ?thesis using True c r i accept_calls_same
        by (cases "(l, m)" rule: mou_calls.cases) auto
    qed simp
    have "\<not> ws_open (ws ! j)" if "l = MInnerError j e" "errors_Is e NetErrClosed" for e
      using that c r accept_error_closed by auto
    moreover have "l = MCloseInner \<longrightarrow> m_closing m \<noteq> Some j" using c False by auto
    ultimately show ?thesis
      using inner_ok_step [OF ok [OF j] st _ same] j len by (metis (no_types, lifting))
  qed
  then show ?thesis using closes_ok_step [OF st cl] multi_step_length [OF st] len by (simp add: mou_inv_def)
qed

lemma mou_inv_step:
  assumes "mou_step l s t" and inv: "mou_inv s"
  shows "mou_inv t"
  using assms(1)
proof cases
  case (mou_own ws k m m')
  have "mou_inv (m, ws)" using inv mou_own(2) by simp
  then have len: "length ws = length (m_loops m)" and ok: "\<And>j. j < length ws \<Longrightarrow> inner_ok m j (ws ! j)"
    and cl: "closes_ok m" by (auto simp: mou_inv_def)
  have n: "k \<noteq> MCloseInner" "\<And>i e. k \<noteq> MInnerError i e"
    using mou_own(5,6) multi_step_closing by (cases "(k, m)" rule: mou_calls.cases; fastforce)+
  have "inner_ok m' j (ws ! j)" if "j < length ws" for j
    using inner_ok_step [OF ok [OF that] mou_own(5), of "ws ! j"] that len n by simp
  then show ?thesis using closes_ok_step [OF mou_own(5) cl] multi_step_length [OF mou_own(5)] len
    unfolding mou_own(3) by (simp add: mou_inv_def)
next
  case (mou_call ws k m m' i ks w')
  then show ?thesis using mou_inv_call inv by blast
next
  case (mou_inner ws i k w' m)
  have inv: "mou_inv (m, ws)" using inv mou_inner(2) by simp
  have "inner_ok m i (ws ! i)" using inv mou_inner(5) by (simp add: mou_inv_def)
  moreover have "ws_open w' \<longrightarrow> ws_open (ws ! i)"
    using mou_inner(6,7) by (cases k) (auto elim!: watched_elims split: if_splits)
  ultimately have "inner_ok m i w'" using watcher_same [OF mou_inner(7,6)] by (auto simp: inner_ok_def)
  then show ?thesis using inv mou_inner(5) unfolding mou_inner(3) by (simp add: mou_inv_def nth_list_update)
next
  case (mou_panic ws m i w')
  have inv: "mou_inv (m, ws)" using inv mou_panic(2) by simp
  then have "\<not> ws_closed (ws ! i)" using mou_panic(5,6) by (auto simp: mou_inv_def inner_ok_def closes_ok_def)
  moreover have "\<not> ws_panicked (ws ! i)" using mou_panic(4,6) by (simp add: running_def)
  ultimately show ?thesis using mou_panic(7,8) by (auto elim!: watched_elims)
qed

lemma mou_inv_start: "mou_inv (mou_start is)"
  by (simp add: mou_inv_def mou_start_def MultiListener_def closes_ok_def inner_ok_def watched_start_def)

lemma mou_inv_run: "run mou_step (mou_start is) ls s \<Longrightarrow> mou_inv s"
  using run_invariant [where I = mou_inv] mou_inv_start mou_inv_step by blast

section \<open>One listener among others\<close>

text \<open>Until somebody calls \<^verbatim>\<open>Close\<close>, no inner listener is closed by the aggregating one.\<close>

definition never_closed :: "multi_state \<Rightarrow> bool" where
  "never_closed m \<longleftrightarrow> \<not> m_closed m \<and> m_closing m = None"

lemma never_closed_multi:
  "multi_step l m m' \<Longrightarrow> never_closed m \<Longrightarrow> l \<noteq> MCloseFirst \<Longrightarrow> never_closed m' \<and> l \<noteq> MCloseInner"
  by (auto elim!: multi_step_elims simp: never_closed_def multi_updates msendConn_iff msendError_iff)

lemma never_closed_step:
  assumes "mou_step l s t" and "never_closed (fst s)" and "l \<noteq> MouMulti MCloseFirst"
  shows "never_closed (fst t) \<and> l \<noteq> MouMulti MCloseInner"
  using assms(1)
proof cases
  case (mou_own ws k m m')
  then show ?thesis using never_closed_multi [of k m m'] assms(2,3) by auto
next
  case (mou_call ws k m m' i ks w')
  then show ?thesis using never_closed_multi [of k m m'] assms(2,3) by auto
qed (use assms(2) in \<open>auto simp: never_closed_def\<close>)

lemma never_closed_run:
  "run mou_step s ls t \<Longrightarrow> never_closed (fst s) \<Longrightarrow> MouMulti MCloseFirst \<notin> set ls \<Longrightarrow>
     never_closed (fst t) \<and> MouMulti MCloseInner \<notin> set ls"
proof (induction rule: run.induct)
  case (run_Cons l s t ls u)
  then show ?case using never_closed_step [OF run_Cons.hyps(1)] by fastforce
qed simp

lemma never_closed_start: "never_closed (fst (mou_start is))"
  by (simp add: never_closed_def mou_start_def MultiListener_def)

lemma mou_start_lengths:
  assumes "run mou_step (mou_start is) ls (m, ws)"
  shows "length ws = length is" "length (m_loops m) = length is"
proof -
  have "length (snd t) = length (snd s)" if "run mou_step s ks t" for s ks t
    using that by (induction rule: run.induct) (auto dest: mou_step_length)
  from this [OF assms] show "length ws = length is" by (simp add: mou_start_def)
  then show "length (m_loops m) = length is" using mou_inv_run [OF assms] by (simp add: mou_inv_def)
qed

text \<open>An inner listener by itself, from the start.\<close>

lemma mou_start_inner:
  assumes "run mou_step (mou_start is) ls (m, ws)" and "j < length is"
  obtains ks where "run watched_step (watched_start (is ! j)) ks (ws ! j)" and "set ks \<subseteq> calls_of j (set ls)"
  using mou_inner_run [OF assms(1), of j] assms(2) by (auto simp: mou_start_def)

lemma mou_start_inv:
  assumes "run mou_step (mou_start is) ls (m, ws)" and "j < length is"
  shows "watched_inv (ws ! j)"
  by (rule mou_start_inner [OF assms]) (rule watched_inv_run)

lemma calls_undisturbed:
  assumes "k \<in> calls_of j L" and "MouMulti MCloseInner \<notin> L" and "\<forall>k. MouInner j k \<in> L \<longrightarrow> \<not> disturbs i k"
  shows "\<not> disturbs i k"
  using assms by (auto simp: calls_of_def inner_calls_defs split: if_splits)

lemma undisturbed_start: "undisturbed i (watched_start i)"
  by (simp add: undisturbed_def watched_start_def file_kept_def os_SameFile_def)

text \<open>
  A loop whose listener is open can always deliver another connection: it hands over what it
  has, accepts, and hands that over, given callers.
\<close>

lemma mou_own_run:
  "running ws \<Longrightarrow> multi_step l m m' \<Longrightarrow> mou_calls l m = None \<Longrightarrow>
     run mou_step (m', ws) ls t \<Longrightarrow> run mou_step (m, ws) (MouMulti l # ls) t"
  by (rule run.run_Cons) (rule mou_own)

definition freed :: "nat \<Rightarrow> multi_state \<Rightarrow> multi_state \<Rightarrow> bool" where
  "freed i m m' \<longleftrightarrow> m_loops m' ! i = MAccept \<and> length (m_loops m') = length (m_loops m)
     \<and> m_accepted m' = m_accepted m"

lemma send_with_caller:
  assumes "running ws" and "i < length (m_loops m)"
    and s: "multi_step (MLoopStep i True) (m\<lparr>m_callers := Suc (m_callers m)\<rparr>) m'"
  shows "run mou_step (m, ws) [MouMulti MAcceptCall, MouMulti (MLoopStep i True)] (m', ws)"
proof -
  have "multi_step MAcceptCall m (m\<lparr>m_callers := Suc (m_callers m)\<rparr>)"
    by (rule multi_step.intros(1), rule mAccept_step.intros(1))
  then show ?thesis using assms by (intro mou_own_run) simp_all
qed

lemma send_conn_run:
  assumes "running ws" and "i < length (m_loops m)" and "m_loops m ! i = MSendConn c"
  shows "\<exists>m'. run mou_step (m, ws) [MouMulti MAcceptCall, MouMulti (MLoopStep i True)] (m', ws)
    \<and> freed i m m' \<and> m_delivered m' = m_delivered m @ [c]"
proof -
  let ?m = "m\<lparr>m_callers := Suc (m_callers m)\<rparr>"
  have "mhandleAccepts_step (MLoopStep i True) ?m (loop_to i MAccept (mAccept_conn c ?m))"
    using assms(2,3) by (intro mhandleAccepts_step.intros(5)) (simp_all add: msendConn_iff)
  from send_with_caller [OF assms(1,2) multi_step.intros(3) [OF this]] show ?thesis
    using assms(2) by (intro exI conjI) (assumption, simp_all add: freed_def multi_updates)
qed

lemma send_error_run:
  assumes "running ws" and "i < length (m_loops m)" and "m_loops m ! i = MSendError e"
  shows "\<exists>m'. run mou_step (m, ws) [MouMulti MAcceptCall, MouMulti (MLoopStep i True)] (m', ws)
    \<and> freed i m m'"
proof -
  let ?m = "m\<lparr>m_callers := Suc (m_callers m)\<rparr>"
  have "mhandleAccepts_step (MLoopStep i True) ?m
      (loop_to i (if True then MAccept else MExited) (mAccept_error e ?m))"
    using assms(2,3) by (intro mhandleAccepts_step.intros(4)) (simp_all add: msendError_iff)
  from send_with_caller [OF assms(1,2) multi_step.intros(3) [OF this]] show ?thesis
    using assms(2) by (intro exI conjI) (assumption, simp add: freed_def multi_updates)
qed

lemma loop_freed:
  assumes "running ws" and "i < length (m_loops m)" and "m_loops m ! i \<noteq> MExited"
  shows "\<exists>ls m'. run mou_step (m, ws) ls (m', ws) \<and> MouMulti MCloseFirst \<notin> set ls \<and> freed i m m'"
proof (cases "m_loops m ! i")
  case MAccept
  then show ?thesis by (intro exI [of _ "[]"] exI [of _ m]) (simp add: freed_def)
next
  case (MSendError e)
  from send_error_run [OF assms(1,2) this] show ?thesis
    by (intro exI [of _ "[MouMulti MAcceptCall, MouMulti (MLoopStep i True)]"]) simp
next
  case (MSendConn c)
  from send_conn_run [OF assms(1,2) this] show ?thesis
    by (elim exE conjE) (intro exI [of _ "[MouMulti MAcceptCall, MouMulti (MLoopStep i True)]"] exI conjI,
      assumption, simp_all)
qed (use assms(3) in simp)

lemma open_listener_delivers:
  assumes "running ws" and "i < length ws" and len: "length (m_loops m) = length ws"
    and "m_loops m ! i \<noteq> MExited" and "ws_open (ws ! i)" and "c \<notin> set (m_accepted m)"
  shows "\<exists>ls t. run mou_step (m, ws) ls t \<and> MouMulti MCloseFirst \<notin> set ls \<and> c \<in> set (m_delivered (fst t))"
proof -
  have i: "i < length (m_loops m)" using assms(2) len by simp
  obtain ls m1 where f: "run mou_step (m, ws) ls (m1, ws)" "MouMulti MCloseFirst \<notin> set ls" "freed i m m1"
    using loop_freed [OF assms(1) i assms(4)] by blast
  have np: "\<not> ws_panicked (ws ! i)" using assms(1,2) by (simp add: running_def)
  obtain w' where w': "run watched_step (ws ! i) (accept_conn_calls c) w'"
    using accept_conn_run [OF assms(5) np] by blast
  have p: "\<not> ws_panicked w'" using accept_calls_same(1) [OF w'] np by (simp add: same_watch_def)
  let ?m2 = "loop_to i (MSendConn c) (m1\<lparr>m_accepted := m_accepted m1 @ [c]\<rparr>)"
  have "multi_step (MInnerConn i c) m1 ?m2"
    using f(3) i assms(6) by (intro multi_step.intros(3) mhandleAccepts_step.intros(3)) (simp_all add: freed_def)
  then have a: "mou_step (MouMulti (MInnerConn i c)) (m1, ws) (?m2, ws[i := w'])"
    using assms(1,2) w' by (intro mou_call) simp_all
  have r: "running (ws[i := w'])"
    using assms(1) p by (auto simp: running_def dest!: set_update_subset_insert [THEN subsetD])
  have m2: "i < length (m_loops ?m2)" "m_loops ?m2 ! i = MSendConn c"
    using f(3) i by (simp_all add: freed_def loop_to_def)
  obtain m3 where d: "run mou_step (?m2, ws[i := w']) [MouMulti MAcceptCall, MouMulti (MLoopStep i True)]
      (m3, ws[i := w'])" "m_delivered m3 = m_delivered ?m2 @ [c]"
    using send_conn_run [OF r m2] by (elim exE conjE)
  show ?thesis
    using run_append [OF f(1) run.run_Cons [of mou_step, OF a d(1)]] f(2) d(2)
    by (intro exI conjI) (assumption, simp_all)
qed

section \<open>Examples\<close>

definition demo_replaced :: watched_state where
  "demo_replaced = (watched_start demo_inode)\<lparr>ws_at_path := None\<rparr>"

lemma demo_replaces:
  assumes "length is = Suc n" and "is ! 0 = demo_inode"
  shows "mou_step (MouInner 0 (WFileChanges None)) (mou_start is)
    (MultiListener (Suc n), (map watched_start is)[0 := demo_replaced])"
proof -
  have "watched_step (WFileChanges None) (watched_start demo_inode) demo_replaced"
    unfolding demo_replaced_def by (rule w_file) (simp add: watched_start_def)
  moreover have "running (map watched_start is)" by (simp add: running_def watched_start_def)
  ultimately show ?thesis
    using assms mou_inner [of "map watched_start is" 0 "WFileChanges None" demo_replaced "MultiListener (Suc n)"]
    by (simp add: mou_start_def)
qed

definition demo_closed :: watched_state where
  "demo_closed = (watched_start demo_inode)\<lparr>ws_closed := True, ws_open := False, ws_close_results := [None]\<rparr>"

lemma demo_close_calls: "run watched_step (watched_start demo_inode) close_calls demo_closed"
proof -
  let ?w = "watched_start demo_inode"
  let ?w1 = "?w\<lparr>ws_closed := True, ws_closing := 1\<rparr>"
  have "watched_step WCloseCall ?w ?w1"
    using close_call [of ?w] by (intro w_Close) (simp_all add: watched_start_def)
  moreover have "watched_step WCloseReturns ?w1 demo_closed"
    using close_returns [of ?w1] by (intro w_Close) (simp_all add: watched_start_def demo_closed_def)
  ultimately show ?thesis unfolding close_calls_def by (simp only: run_Cons_iff run_Nil_iff) blast
qed

lemma demo_mou_close:
  "\<exists>m. run mou_step (mou_start [demo_inode])
     [MouMulti MCloseFirst, MouMulti MCloseInner, MouMulti MCloseReturn] (m, [demo_closed])
     \<and> m_closed m \<and> m_closing m = None"
proof -
  let ?m = "MultiListener 1" and ?ws = "[watched_start demo_inode]"
  let ?m1 = "?m\<lparr>m_closed := True, m_closing := Some 0\<rparr>"
  let ?m2 = "?m1\<lparr>m_closing := Some (Suc 0),
    m_inner_closes := (m_inner_closes ?m1)(0 := Suc (m_inner_closes ?m1 0))\<rparr>"
  let ?m3 = "?m2\<lparr>m_closing := None, m_close_results := m_close_results ?m2 @ [None]\<rparr>"
  have r: "running ?ws" "running [demo_closed]"
    by (simp_all add: running_def watched_start_def demo_closed_def)
  have c: "run watched_step (?ws ! 0) close_calls demo_closed" by (simp add: demo_close_calls)
  have "mou_step (MouMulti MCloseFirst) (?m, ?ws) (?m1, ?ws)"
    by (rule mou_own [OF r(1)], rule multi_step.intros(2), rule mClose_step.intros(1))
      (simp_all add: MultiListener_def)
  moreover have "mou_step (MouMulti MCloseInner) (?m1, ?ws) (?m2, ?ws[0 := demo_closed])"
  proof (rule mou_call [OF r(1) _ _ _ c])
    show "multi_step MCloseInner ?m1 ?m2"
      by (rule multi_step.intros(2), rule mClose_step.intros(2)) (simp_all add: MultiListener_def)
  qed (simp_all add: MultiListener_def)
  moreover have "mou_step (MouMulti MCloseReturn) (?m2, [demo_closed]) (?m3, [demo_closed])"
    by (rule mou_own [OF r(2)], rule multi_step.intros(2), rule mClose_step.intros(3) [where k = "Suc 0"])
      (simp_all add: MultiListener_def)
  ultimately have "run mou_step (?m, ?ws)
      [MouMulti MCloseFirst, MouMulti MCloseInner, MouMulti MCloseReturn] (?m3, [demo_closed])"
    by (simp only: run_Cons_iff run_Nil_iff list_update_code) blast
  then show ?thesis unfolding mou_start_def
    by (intro exI conjI) (simp, simp_all)
qed

section \<open>Properties\<close>

text \<open>
  C18: The inner listeners of an aggregating listener do not harm each other. Whatever happens
  to the files and watchers of the others, an inner listener whose own file is not replaced,
  and can be examined at every tick, is open and its loop serves it as long as nobody calls
  \<^verbatim>\<open>Close\<close>: a new connection to it can still be delivered to a caller of \<^verbatim>\<open>Accept\<close>.
\<close>

theorem multi_over_unix_isolated:
  assumes "run mou_step (mou_start is) ls (m, ws)" and "MouMulti MCloseFirst \<notin> set ls"
    and "j < length is" and "\<forall>k. MouInner j k \<in> set ls \<longrightarrow> \<not> disturbs (is ! j) k"
  shows "ws_open (ws ! j) \<and> ws_watcher (ws ! j) = WSelect \<and> m_loops m ! j \<noteq> MExited
    \<and> (\<forall>c. c \<notin> set (m_accepted m) \<longrightarrow>
        (\<exists>ls' t. run mou_step (m, ws) ls' t \<and> MouMulti MCloseFirst \<notin> set ls' \<and> c \<in> set (m_delivered (fst t))))"
proof -
  note inv = mou_inv_run [OF assms(1)] and len = mou_start_lengths [OF assms(1)]
  have nc: "\<not> m_closed m" "MouMulti MCloseInner \<notin> set ls"
    using never_closed_run [OF assms(1) never_closed_start assms(2)] by (auto simp: never_closed_def)
  obtain ks where k: "run watched_step (watched_start (is ! j)) ks (ws ! j)" "set ks \<subseteq> calls_of j (set ls)"
    using mou_start_inner [OF assms(1,3)] .
  have "undisturbed (is ! j) (ws ! j)"
    using undisturbed_run [OF k(1) undisturbed_start] calls_undisturbed [OF _ nc(2) assms(4)] k(2) by blast
  then have u: "ws_open (ws ! j)" "ws_watcher (ws ! j) = WSelect" by (simp_all add: undisturbed_def)
  moreover have e: "m_loops m ! j \<noteq> MExited"
    using inv nc(1) u(1) assms(3) len by (auto simp: mou_inv_def inner_ok_def)
  moreover have "\<exists>ls' t. run mou_step (m, ws) ls' t \<and> MouMulti MCloseFirst \<notin> set ls' \<and> c \<in> set (m_delivered (fst t))"
    if "c \<notin> set (m_accepted m)" for c
    by (rule open_listener_delivers [OF mou_inv_running [OF inv] _ _ e u(1) that]) (use assms(3) len in simp_all)
  ultimately show ?thesis by blast
qed

theorem multi_over_unix_isolated_witness:
  "\<exists>ls t. run mou_step (MultiListener 2, [demo_replaced, watched_start demo_inode]) ls t
     \<and> MouMulti MCloseFirst \<notin> set ls \<and> 5 \<in> set (m_delivered (fst t))"
proof -
  have "run mou_step (mou_start [demo_inode, demo_inode]) [MouInner 0 (WFileChanges None)]
      (MultiListener 2, [demo_replaced, watched_start demo_inode])"
    using demo_replaces [of "[demo_inode, demo_inode]" 1] by (simp add: run_Cons_iff numeral_2_eq_2)
  from multi_over_unix_isolated [OF this, of 1] show ?thesis by (simp add: MultiListener_def)
qed

text \<open>
  C27: No program of this composition panics: the inner \<^verbatim>\<open>Close\<close>, which panics when it is called
  twice, is called at most once for each listener, whatever the watchers do, and when the first
  \<^verbatim>\<open>Close\<close> of the aggregating listener has returned every inner listener is closed.
\<close>

theorem multi_over_unix_never_panics:
  assumes "run mou_step (mou_start is) ls (m, ws)"
  shows "running ws
    \<and> (\<forall>i < length is. (ws_closed (ws ! i) \<longleftrightarrow> m_inner_closes m i = 1) \<and> length (ws_close_results (ws ! i)) \<le> 1)
    \<and> (m_closed m \<and> m_closing m = None \<longrightarrow> (\<forall>w \<in> set ws. \<not> ws_open w))"
proof -
  note inv = mou_inv_run [OF assms] and len = mou_start_lengths [OF assms]
  have w: "watched_inv (ws ! i)" if "i < length is" for i
    by (rule mou_start_inv [OF assms that])
  have one: "ws_closed (ws ! i) \<longleftrightarrow> m_inner_closes m i = 1" if "i < length is" for i
    using inv that len by (auto simp: mou_inv_def inner_ok_def closes_ok_def split: option.splits)
  have "\<not> ws_open (ws ! i)" if "i < length is" "m_closed m" "m_closing m = None" for i
    using inv that len w [OF that(1)] by (auto simp: mou_inv_def inner_ok_def closes_ok_def watched_inv_def)
  then have "m_closed m \<and> m_closing m = None \<longrightarrow> (\<forall>w \<in> set ws. \<not> ws_open w)"
    using len by (auto simp: in_set_conv_nth)
  moreover have "length (ws_close_results (ws ! i)) \<le> 1" if "i < length is" for i
    using w [OF that] by (auto simp: watched_inv_def split: if_splits)
  ultimately show ?thesis using one mou_inv_running [OF inv] by simp
qed

theorem multi_over_unix_never_panics_witness:
  "\<exists>m. run mou_step (mou_start [demo_inode])
     [MouMulti MCloseFirst, MouMulti MCloseInner, MouMulti MCloseReturn] (m, [demo_closed])
     \<and> m_inner_closes m 0 = 1 \<and> \<not> ws_open demo_closed"
proof -
  obtain m where r: "run mou_step (mou_start [demo_inode])
     [MouMulti MCloseFirst, MouMulti MCloseInner, MouMulti MCloseReturn] (m, [demo_closed])"
    "m_closed m" "m_closing m = None"
    using demo_mou_close by (elim exE conjE)
  from multi_over_unix_never_panics [OF r(1)] show ?thesis
    using r by (intro exI [of _ m]) (simp add: demo_closed_def)
qed

end
