(* ===== verification/Multi_Unix_End.thy ===== *)
theory Multi_Unix_End
  imports Multi_Over_Unix
begin

text \<open>
  The end of an aggregating listener whose inner listeners closed themselves: all its goroutines
  stop, and the callers of \<^verbatim>\<open>Accept\<close> wait for ever.
\<close>

section \<open>When all files were replaced\<close>

text \<open>
  Nobody calls \<^verbatim>\<open>Close\<close> and the files are left alone; the goroutines' own steps are those of the
  watchers and of the accept loops whose listener is closed or that have something to send.
\<close>

definition mou_left :: "mou_label \<Rightarrow> mou_state \<Rightarrow> mou_state \<Rightarrow> bool" where
  "mou_left l s t \<longleftrightarrow> mou_step l s t \<and> l \<noteq> MouMulti MCloseFirst
     \<and> (\<forall>i f. l \<noteq> MouInner i (WFileChanges f))"

fun mou_internal :: "mou_label \<Rightarrow> mou_state \<Rightarrow> bool" where
  "mou_internal (MouInner i l) s = ws_internal l (snd s ! i)"
| "mou_internal (MouMulti (MInnerError i e)) s = (e = err_closed ''accept'')"
| "mou_internal (MouMulti l) s = m_internal l (fst s)"

definition mou_doomed :: "mou_state \<Rightarrow> bool" where
  "mou_doomed s \<longleftrightarrow> mou_inv s \<and> never_closed (fst s) \<and> (\<forall>w \<in> set (snd s). ws_doomed w)"

definition mou_ended :: "mou_state \<Rightarrow> bool" where
  "mou_ended s \<longleftrightarrow> (\<forall>w \<in> set (snd s). \<not> ws_open w \<and> ws_watcher w = WReturned)
     \<and> (if m_callers (fst s) = 0 then \<forall>pc \<in> set (m_loops (fst s)). pc \<noteq> MAccept
        else m_stalled (fst s))"

definition mou_work :: "mou_state \<Rightarrow> nat" where
  "mou_work s = m_work (fst s) + (\<Sum>w \<leftarrow> snd s. watch_work (ws_watcher w))"

lemma watch_sum_update:
  assumes "i < length ws"
  shows "(\<Sum>w \<leftarrow> ws[i := v]. watch_work (ws_watcher w)) + watch_work (ws_watcher (ws ! i)) =
    (\<Sum>w \<leftarrow> ws. watch_work (ws_watcher w)) + watch_work (ws_watcher v)"
  using assms by (induction ws arbitrary: i) (auto split: nat.split)

lemma mou_doomed_parts:
  assumes "mou_doomed (m, ws)" and "i < length ws"
  shows "ws_doomed (ws ! i)" "\<not> ws_panicked (ws ! i)" "ws_callers (ws ! i) = 0" "ws_closing (ws ! i) = 0"
  using assms by (auto simp: mou_doomed_def mou_inv_def inner_ok_def)

lemma mou_call_same:
  assumes "mou_doomed (m, ws)" and "multi_step l m m'" and "mou_calls l m = Some (i, ks)"
    and "run watched_step (ws ! i) ks w'" and "i < length ws"
  shows "same_watch (ws ! i) w' \<and> ws_doomed w'"
proof -
  have "m_closing m = None" using assms(1) by (simp add: mou_doomed_def never_closed_def)
  then have "l \<noteq> MCloseInner" using multi_step_closing [of m m'] assms(2) by auto
  then have same: "same_watch (ws ! i) w'"
    using assms(3,4) accept_calls_same by (cases "(l, m)" rule: mou_calls.cases) auto
  have "watched_inv w'"
    using watched_inv_runs [OF assms(4)] mou_doomed_parts(1) [OF assms(1,5)] by (simp add: ws_doomed_def)
  then show ?thesis using doomed_same [OF same] mou_doomed_parts(1) [OF assms(1,5)] same by simp
qed

lemma mou_doomed_step:
  assumes "mou_left l s t" and d: "mou_doomed s"
  shows "mou_doomed t"
proof -
  have st: "mou_step l s t" and lab: "l \<noteq> MouMulti MCloseFirst" "\<forall>i f. l \<noteq> MouInner i (WFileChanges f)"
    using assms(1) by (auto simp: mou_left_def)
  have "mou_inv t" "never_closed (fst t)" and nc: "l \<noteq> MouMulti MCloseInner"
    using mou_inv_step [OF st] never_closed_step [OF st] lab d by (auto simp: mou_doomed_def)
  moreover have "\<forall>w \<in> set (snd t). ws_doomed w"
    using st
  proof cases
    case (mou_own ws k m m')
    then show ?thesis using d by (simp add: mou_doomed_def)
  next
    case (mou_call ws k m m' i ks w')
    then have "ws_doomed w'" using mou_call_same d by blast
    then show ?thesis using mou_call d by (auto simp: mou_doomed_def dest!: set_update_subset_insert [THEN subsetD])
  next
    case (mou_inner ws i k w' m)
    then have "replaced_step k (ws ! i) w'" using lab by (auto simp: replaced_step_def)
    then have "ws_doomed w'" using doomed_step mou_doomed_parts(1) mou_inner d by blast
    then show ?thesis using mou_inner d by (auto simp: mou_doomed_def dest!: set_update_subset_insert [THEN subsetD])
  qed (use nc in simp)
  ultimately show ?thesis by (simp add: mou_doomed_def)
qed

lemma m_work_told:
  "multi_step (MInnerError i (err_closed ''accept'')) m m' \<Longrightarrow> m_work m' < m_work m"
  by (auto elim!: multi_step_elims dest!: sum_loops_update [where f = mloop_work]
      simp: m_work_def multi_updates err_closed_def split: option.splits)

lemma mou_work_multi:
  assumes "multi_step l m m'" and "mou_internal (MouMulti l) (m, ws)"
  shows "m_work m' < m_work m"
proof (cases "\<exists>i e. l = MInnerError i e")
  case True
  then show ?thesis using assms m_work_told by auto
next
  case False
  then have "m_internal l m" using assms(2) by (cases l) auto
  then show ?thesis by (rule m_work_step [OF assms(1)])
qed

lemma mou_work_step:
  assumes "mou_left l s t" and "mou_doomed s" and "mou_internal l s"
  shows "mou_work t < mou_work s"
proof -
  have "mou_step l s t" using assms(1) by (simp add: mou_left_def)
  then show ?thesis
  proof cases
    case (mou_own ws k m m')
    then show ?thesis using mou_work_multi [of k m m' ws] assms(3) by (simp add: mou_work_def)
  next
    case (mou_call ws k m m' i ks w')
    then have "same_watch (ws ! i) w'" using mou_call_same assms(2) by blast
    then show ?thesis using mou_work_multi [of k m m' ws] watch_sum_update [of i ws w'] mou_call assms(3)
      by (simp add: mou_work_def same_watch_def)
  next
    case (mou_inner ws i k w' m)
    then show ?thesis using watch_work_step [of k "ws ! i" w'] watch_sum_update [of i ws w'] assms(3)
      by (simp add: mou_work_def)
  next
    case (mou_panic ws m i w')
    then show ?thesis using assms(2) by (simp add: mou_doomed_def never_closed_def)
  qed
qed

lemma mou_watcher_progress:
  assumes d: "mou_doomed (m, ws)" and i: "i < length ws" and "ws_open (ws ! i) \<or> ws_watcher (ws ! i) \<noteq> WReturned"
  shows "\<exists>l t. mou_internal l (m, ws) \<and> mou_left l (m, ws) t"
proof -
  obtain l w' where l: "of_watcher l" "ws_internal l (ws ! i)" "replaced_step l (ws ! i) w'"
    using watcher_progress [OF mou_doomed_parts [OF d i] assms(3)] .
  have "running ws" using d mou_inv_running by (auto simp: mou_doomed_def)
  then have "mou_step (MouInner i l) (m, ws) (m, ws[i := w'])"
    using mou_inner i l by (simp add: replaced_step_def)
  then have "mou_left (MouInner i l) (m, ws) (m, ws[i := w'])"
    using l(3) by (auto simp: mou_left_def replaced_step_def)
  then show ?thesis using l(2) by (intro exI [of _ "MouInner i l"]) auto
qed

lemma mou_loop_told:
  assumes "running ws" and "i < length ws" and "i < length (m_loops m)" and "m_loops m ! i = MAccept"
    and "\<not> ws_open (ws ! i)"
  shows "\<exists>t. mou_left (MouMulti (MInnerError i (err_closed ''accept''))) (m, ws) t"
proof -
  obtain w' where "run watched_step (ws ! i) (accept_error_calls (err_closed ''accept'')) w'"
    using loop_told [OF assms(5)] assms(1,2) by (auto simp: running_def)
  moreover have "multi_step (MInnerError i (err_closed ''accept'')) m (loop_to i MExited m)"
    using assms(3,4) by (intro multi_step.intros(3) mhandleAccepts_step.intros(1)) (simp_all add: err_closed_def)
  ultimately have "mou_step (MouMulti (MInnerError i (err_closed ''accept''))) (m, ws)
      (loop_to i MExited m, ws[i := w'])"
    using assms(1,2) by (intro mou_call) simp_all
  then show ?thesis by (auto simp: mou_left_def)
qed

lemma mou_loop_sends:
  assumes "running ws" and "i < length (m_loops m)" and "m_loops m ! i \<noteq> MAccept"
    and "m_loops m ! i \<noteq> MExited" and "0 < m_callers m"
  shows "\<exists>t. mou_left (MouMulti (MLoopStep i True)) (m, ws) t"
proof -
  have "\<exists>m'. multi_step (MLoopStep i True) m m'"
  proof (cases "m_loops m ! i")
    case (MSendError e)
    then have "mhandleAccepts_step (MLoopStep i True) m
        (loop_to i (if True then MAccept else MExited) (mAccept_error e m))"
      using assms by (intro mhandleAccepts_step.intros(4)) (simp_all add: msendError_iff)
    then show ?thesis by (blast intro: multi_step.intros(3))
  next
    case (MSendConn c)
    then have "mhandleAccepts_step (MLoopStep i True) m (loop_to i MAccept (mAccept_conn c m))"
      using assms by (intro mhandleAccepts_step.intros(5)) (simp_all add: msendConn_iff)
    then show ?thesis by (blast intro: multi_step.intros(3))
  qed (use assms in simp_all)
  then show ?thesis using mou_own [OF assms(1)] by (fastforce simp: mou_left_def)
qed

lemma mou_progress:
  assumes d: "mou_doomed s" and "\<not> mou_ended s"
  shows "\<exists>l t. mou_internal l s \<and> mou_left l s t"
proof -
  obtain m ws where s: "s = (m, ws)" by (cases s)
  have r: "running ws" and len: "length (m_loops m) = length ws" and nc: "never_closed m"
    using d mou_inv_running by (auto simp: s mou_doomed_def mou_inv_def)
  consider i where "i < length ws" "ws_open (ws ! i) \<or> ws_watcher (ws ! i) \<noteq> WReturned"
    | i where "i < length ws" "m_loops m ! i = MAccept" "\<not> ws_open (ws ! i)"
    | i where "i < length ws" "m_loops m ! i \<noteq> MAccept" "m_loops m ! i \<noteq> MExited" "0 < m_callers m"
    using assms(2) nc len
    by (auto simp: s mou_ended_def m_stalled_def never_closed_def in_set_conv_nth list_all_length split: if_splits)
  then show ?thesis
  proof cases
    case (1 i)
    then show ?thesis using mou_watcher_progress d s by blast
  next
    case (2 i)
    then show ?thesis using mou_loop_told [OF r 2(1) _ 2(2,3)] len s
      by (intro exI [of _ "MouMulti (MInnerError i (err_closed ''accept''))"]) simp
  next
    case (3 i)
    then show ?thesis using mou_loop_sends [OF r _ 3(2-4)] len s
      by (intro exI [of _ "MouMulti (MLoopStep i True)"]) simp
  qed
qed

interpretation mod: draining mou_left mou_internal mou_doomed mou_ended mou_work
  by unfold_locales (rule mou_doomed_step mou_work_step mou_progress, assumption+)+

text \<open>Callers that nobody answers.\<close>

definition m_unanswered :: "multi_state \<Rightarrow> multi_state \<Rightarrow> bool" where
  "m_unanswered m m' \<longleftrightarrow> m_stalled m' \<and> m_delivered m' = m_delivered m \<and> m_errors m' = m_errors m
     \<and> m_callers m \<le> m_callers m'"

lemma m_unanswered_run:
  assumes "run mou_step (m, ws) ls (m', ws')" and "m_stalled m" and "MouMulti MCloseFirst \<notin> set ls"
  shows "m_unanswered m m'"
proof -
  obtain ks where k: "run multi_step m ks m'" "MouMulti ` set ks \<subseteq> set ls"
    using mou_multi_run [OF assms(1)] by auto
  then have "MCloseFirst \<notin> set ks" using assms(3) by auto
  then show ?thesis using multi_Accept_blocks_when_stalled [OF k(1) assms(2)] by (simp add: m_unanswered_def)
qed

section \<open>Properties\<close>

text \<open>
  C19: Callers of an aggregating listener are not told that all its listeners are gone. When
  the files of all inner listeners were replaced and nobody calls \<^verbatim>\<open>Close\<close>, the goroutines' own
  steps end, after at most \<open>mou_work\<close> of them in any order, with every inner listener closed;
  and if somebody waits in \<^verbatim>\<open>Accept\<close> then, all loops are gone, and in every continuation without
  a call of \<^verbatim>\<open>Close\<close> no call of \<^verbatim>\<open>Accept\<close> returns a connection or an error.
\<close>

theorem multi_over_unix_hangs:
  assumes "run mou_step (mou_start is) ls (m, ws)" and "\<forall>w \<in> set ws. \<not> file_kept w" and "\<not> m_closed m"
  shows "(\<forall>ls' t. drain_run mou_internal mou_left (m, ws) ls' t \<longrightarrow> length ls' \<le> mou_work (m, ws))
    \<and> (\<exists>ls' t. drain_run mou_internal mou_left (m, ws) ls' t \<and> mou_ended t)
    \<and> (\<forall>ls' q vs. run mou_left (m, ws) ls' (q, vs) \<longrightarrow>
        (\<nexists>l u. mou_internal l (q, vs) \<and> mou_left l (q, vs) u) \<longrightarrow>
        (\<forall>w \<in> set vs. \<not> ws_open w) \<and> (0 < m_callers q \<longrightarrow>
          (\<forall>ls'' q' vs'. run mou_step (q, vs) ls'' (q', vs') \<longrightarrow>
             MouMulti MCloseFirst \<notin> set ls'' \<longrightarrow> m_unanswered q q')))"
proof (intro conjI allI impI)
  note inv = mou_inv_run [OF assms(1)] and len = mou_start_lengths [OF assms(1)]
  have "watched_inv (ws ! i)" if "i < length is" for i
    by (rule mou_start_inv [OF assms(1) that])
  then have "\<forall>w \<in> set ws. ws_doomed w" using assms(2) len by (auto simp: ws_doomed_def in_set_conv_nth)
  moreover have "never_closed m"
    using inv assms(3) by (cases "m_closing m") (auto simp: mou_inv_def closes_ok_def never_closed_def)
  ultimately have ok: "mou_doomed (m, ws)" using inv by (simp add: mou_doomed_def)
  show "length ls' \<le> mou_work (m, ws)" if "drain_run mou_internal mou_left (m, ws) ls' t" for ls' t
    using mod.drain_run_bound [OF that ok] by simp
  show "\<exists>ls' t. drain_run mou_internal mou_left (m, ws) ls' t \<and> mou_ended t"
    by (rule mod.drain_exists [OF ok])
  fix ls' q vs
  assume r: "run mou_left (m, ws) ls' (q, vs)"
    and "\<nexists>l u. mou_internal l (q, vs) \<and> mou_left l (q, vs) u"
  then have e: "mou_ended (q, vs)" using mod.drained [OF ok r] by blast
  then show "\<forall>w \<in> set vs. \<not> ws_open w" by (simp add: mou_ended_def)
  fix ls'' q' vs'
  assume "0 < m_callers q" and c: "run mou_step (q, vs) ls'' (q', vs')" "MouMulti MCloseFirst \<notin> set ls''"
  then have "m_stalled q" using e by (simp add: mou_ended_def)
  then show "m_unanswered q q'" by (rule m_unanswered_run [OF c(1) _ c(2)])
qed

theorem multi_over_unix_hangs_witness:
  "\<exists>ls' t. drain_run mou_internal mou_left (MultiListener 1, [demo_replaced]) ls' t
     \<and> length ls' \<le> 3 \<and> mou_ended t"
proof -
  let ?m = "MultiListener 1"
  have r: "run mou_step (mou_start [demo_inode]) [MouInner 0 (WFileChanges None)] (?m, [demo_replaced])"
    using demo_replaces [of "[demo_inode]" 0] by (simp add: run_Cons_iff)
  have "\<forall>w \<in> set [demo_replaced]. \<not> file_kept w" "\<not> m_closed ?m"
    by (simp_all add: demo_replaced_def MultiListener_def)
  from multi_over_unix_hangs [OF r this]
  have b: "\<forall>ls' t. drain_run mou_internal mou_left (?m, [demo_replaced]) ls' t \<longrightarrow> length ls' \<le> mou_work (?m, [demo_replaced])"
    and e: "\<exists>ls' t. drain_run mou_internal mou_left (?m, [demo_replaced]) ls' t \<and> mou_ended t"
    by blast+
  have "mou_work (?m, [demo_replaced]) = 3"
    by (simp add: demo_replaced_def mou_work_def m_work_def MultiListener_def watched_start_def)
  then show ?thesis using b e by (elim exE) (metis (no_types))
qed

end
