(* ===== verification/Listener_Registry.thy ===== *)
theory Listener_Registry
  imports Go_Prelude "HOL-Library.AList"
begin

text \<open>
  \<^verbatim>\<open>listener.go\<close>: the registry of listener types. An \<^verbatim>\<open>OpenListenerFunc\<close> is named
  by a constructor: the functions of \<^verbatim>\<open>builtin.go\<close> and \<^verbatim>\<open>tls/listener.go\<close>, and those
  of the program that uses the library.
\<close>

datatype OpenListenerFunc =
    OpenFD
  | OpenFDName
  | OpenTCP
  | OpenUnix
  | OpenProxy
  | OpenHTTPS
  | OpenCustom string

type_synonym registry = "(string \<times> OpenListenerFunc) list"

text \<open>A nil function is \<open>None\<close>.\<close>

definition RegisterListenerType ::
  "string \<Rightarrow> OpenListenerFunc option \<Rightarrow> registry \<Rightarrow> go_panic + registry"
where
  "RegisterListenerType name openListener listenerTypes =
     (case openListener of
        None \<Rightarrow> Inl (PanicMsg ''RegisterListenerType: openListener is nil'')
      | Some f \<Rightarrow>
          if map_of listenerTypes name \<noteq> None
            then Inl (PanicMsg (''RegisterListenerType: called twice for '' @ name))
          else Inr (AList.update name f listenerTypes))"

definition getOpenListenerFunc :: "registry \<Rightarrow> string \<Rightarrow> OpenListenerFunc option" where
  "getOpenListenerFunc listenerTypes listenerType = map_of listenerTypes listenerType"

text \<open>Registrations one after the other; a panic ends them.\<close>

fun register_all :: "(string \<times> OpenListenerFunc option) list \<Rightarrow> registry \<Rightarrow> go_panic + registry" where
  "register_all [] reg = Inr reg"
| "register_all ((name, f) # rs) reg =
     (case RegisterListenerType name f reg of Inl p \<Rightarrow> Inl p | Inr reg' \<Rightarrow> register_all rs reg')"

text \<open>The \<^verbatim>\<open>init\<close> functions of \<^verbatim>\<open>builtin.go\<close> and \<^verbatim>\<open>tls/listener.go\<close>.\<close>

definition builtin_init :: "registry \<Rightarrow> go_panic + registry" where
  "builtin_init = register_all [(''fd'', Some OpenFD), (''fdname'', Some OpenFDName),
     (''tcp'', Some OpenTCP), (''unix'', Some OpenUnix), (''proxy'', Some OpenProxy)]"

definition tls_init :: "registry \<Rightarrow> go_panic + registry" where
  "tls_init = register_all [(''tls'', Some OpenHTTPS), (''https'', Some OpenHTTPS)]"

definition default_registry :: registry where
  "default_registry =
     (case builtin_init [] of Inl _ \<Rightarrow> [] | Inr reg \<Rightarrow> (case tls_init reg of Inl _ \<Rightarrow> [] | Inr reg \<Rightarrow> reg))"

section \<open>Facts\<close>

text \<open>Registering never changes a type that is there.\<close>

lemma Register_get:
  "RegisterListenerType name f reg = Inr reg' \<Longrightarrow>
     getOpenListenerFunc reg' n = (if n = name then f else getOpenListenerFunc reg n)"
  by (auto simp: RegisterListenerType_def getOpenListenerFunc_def update_conv'
      split: option.splits if_splits)

lemma Register_fails_iff:
  "(\<exists>p. RegisterListenerType name f reg = Inl p) \<longleftrightarrow> f = None \<or> getOpenListenerFunc reg name \<noteq> None"
  by (auto simp: RegisterListenerType_def getOpenListenerFunc_def split: option.splits)

lemma Register_new: "RegisterListenerType name f reg = Inr reg' \<Longrightarrow> getOpenListenerFunc reg name = None \<and> f \<noteq> None"
  using Register_fails_iff [of name f reg] by auto

lemma default_registry_get:
  "getOpenListenerFunc default_registry ''fd'' = Some OpenFD"
  "getOpenListenerFunc default_registry ''fdname'' = Some OpenFDName"
  "getOpenListenerFunc default_registry ''tcp'' = Some OpenTCP"
  "getOpenListenerFunc default_registry ''unix'' = Some OpenUnix"
  "getOpenListenerFunc default_registry ''proxy'' = Some OpenProxy"
  "getOpenListenerFunc default_registry ''tls'' = Some OpenHTTPS"
  "getOpenListenerFunc default_registry ''https'' = Some OpenHTTPS"
  by code_simp+

section \<open>Properties\<close>

text \<open>
  Registration only ever adds. If a sequence of registrations succeeds, then every type
  it names had no opener before and has the one given now, no type is named twice, none is
  given a nil opener, and all other types are as before; so no package can take over a type
  that another one registered.
\<close>

theorem register_all_only_adds:
  assumes "register_all rs reg = Inr reg'"
  shows "distinct (map fst rs)
    \<and> (\<forall>(n, f) \<in> set rs. f \<noteq> None \<and> getOpenListenerFunc reg n = None \<and> getOpenListenerFunc reg' n = f)
    \<and> (\<forall>n. n \<notin> fst ` set rs \<longrightarrow> getOpenListenerFunc reg' n = getOpenListenerFunc reg n)"
  using assms
proof (induction rs arbitrary: reg)
  case (Cons r rs)
  obtain name f where r: "r = (name, f)" by (cases r)
  with Cons.prems obtain reg1 where R: "RegisterListenerType name f reg = Inr reg1"
    "register_all rs reg1 = Inr reg'" by (auto split: sum.splits)
  note IH = Cons.IH [OF R(2)] and new = Register_new [OF R(1)] and get = Register_get [OF R(1)]
  have "name \<notin> fst ` set rs" using IH get [of name] new by force
  then show ?case using IH get new r by (fastforce split: if_splits)
qed simp

end
