(* ===== verification/Go_NetParse.thy ===== *)
theory Go_NetParse
  imports Go_Net Go_Strings
begin

text \<open>
  \<^verbatim>\<open>net.SplitHostPort\<close> and \<^verbatim>\<open>net.ParseIP\<close>, which the TCP listener uses to
  read its argument.
\<close>

section \<open>SplitHostPort\<close>

definition AddrError :: "string \<Rightarrow> string \<Rightarrow> go_error" where
  "AddrError why a = Errorf why [ArgStr a]"

text \<open>
  The host must be in brackets when it contains a colon. With a bracketed host, the
  closing bracket stands right before the last colon.
\<close>

definition net_SplitHostPort :: "string \<Rightarrow> go_error + (string \<times> string)" where
  "net_SplitHostPort hostport =
     (let missingPort = Inl (AddrError ''missing port in address'' hostport);
          tooManyColons = Inl (AddrError ''too many colons in address'' hostport);
          brackets = (\<lambda>host j k i.
            if CHR ''['' \<in> set (drop j hostport)
              then Inl (AddrError (''unexpected '' @ [CHR ''['']) hostport)
            else if CHR '']'' \<in> set (drop k hostport)
              then Inl (AddrError (''unexpected '' @ [CHR '']'']) hostport)
            else Inr (host, drop (Suc i) hostport))
      in case strings_LastIndexByte hostport CHR '':'' of
           None \<Rightarrow> missingPort
         | Some i \<Rightarrow>
             if hd hostport = CHR ''['' then
               (case strings_IndexByte hostport CHR '']'' of
                  None \<Rightarrow> Inl (AddrError ''missing bracket in address'' hostport)
                | Some e \<Rightarrow>
                    if Suc e = length hostport then missingPort
                    else if Suc e = i then brackets (take (e - 1) (drop 1 hostport)) 1 (Suc e) i
                    else if hostport ! Suc e = CHR '':'' then tooManyColons
                    else missingPort)
             else if CHR '':'' \<in> set (take i hostport) then tooManyColons
             else brackets (take i hostport) 0 0 i)"

section \<open>ParseIP\<close>

text \<open>A dotted quad: four decimal fields up to 255, without leading zeros.\<close>

definition parse_octet :: "string \<Rightarrow> byte option" where
  "parse_octet f =
     (if f = [] \<or> 1 < length f \<and> hd f = CHR ''0'' then None
      else case parse_digits 0 f of
             Inl _ \<Rightarrow> None
           | Inr n \<Rightarrow> if n \<le> 255 then Some (word_of_int n) else None)"

definition parseIPv4 :: "string \<Rightarrow> bytes option" where
  "parseIPv4 s =
     (case map parse_octet (strings_Split CHR ''.'' s) of
        [Some a, Some b, Some c, Some d] \<Rightarrow> Some [a, b, c, d]
      | _ \<Rightarrow> None)"

definition hex_digit :: "char \<Rightarrow> int option" where
  "hex_digit c =
     (let n = of_char c
      in if 48 \<le> n \<and> n \<le> 57 then Some (n - 48)
         else if 97 \<le> n \<and> n \<le> 102 then Some (n - 87)
         else if 65 \<le> n \<and> n \<le> 70 then Some (n - 55) else None)"

definition is_hex :: "char \<Rightarrow> bool" where
  "is_hex c \<longleftrightarrow> hex_digit c \<noteq> None"

fun hex_value :: "int \<Rightarrow> string \<Rightarrow> int" where
  "hex_value n [] = n"
| "hex_value n (c # cs) = hex_value (16 * n + (case hex_digit c of None \<Rightarrow> 0 | Some d \<Rightarrow> d)) cs"

text \<open>The end of the IPv6 parser: the ellipsis must stand for at least one group.\<close>

definition v6_finish :: "bytes \<Rightarrow> nat option \<Rightarrow> string \<Rightarrow> bytes option" where
  "v6_finish out ellipsis s =
     (if s \<noteq> [] then None
      else if length out < 16 then
        (case ellipsis of
           None \<Rightarrow> None
         | Some e \<Rightarrow> Some (take e out @ replicate (16 - length out) 0 @ drop e out))
      else if ellipsis \<noteq> None then None else Some out)"

text \<open>
  The loop: a group of one to four hexadecimal digits, then the end, a colon, or an
  ellipsis; a dot after a group starts the trailing IPv4 address.
\<close>

function v6_loop :: "bytes \<Rightarrow> nat option \<Rightarrow> string \<Rightarrow> bytes option" where
  "v6_loop out ellipsis s =
     (if 16 \<le> length out then v6_finish out ellipsis s
      else
        let g = takeWhile is_hex s; r = dropWhile is_hex s
        in if g = [] \<or> 4 < length g then None
           else if r \<noteq> [] \<and> hd r = CHR ''.'' then
             (if ellipsis = None \<and> length out \<noteq> 12 then None
              else if 16 < length out + 4 then None
              else case parseIPv4 s of
                     None \<Rightarrow> None
                   | Some b \<Rightarrow> v6_finish (out @ b) ellipsis [])
           else
             let v = (word_of_int (hex_value 0 g) :: uint16);
                 out' = out @ be_PutUint16 v
             in (case r of
                   [] \<Rightarrow> v6_finish out' ellipsis []
                 | c # r' \<Rightarrow>
                     if c \<noteq> CHR '':'' \<or> r' = [] then None
                     else if hd r' = CHR '':'' then
                       (if ellipsis \<noteq> None then None
                        else if tl r' = [] then v6_finish out' (Some (length out')) []
                        else v6_loop out' (Some (length out')) (tl r'))
                     else v6_loop out' ellipsis r'))"
  by pat_completeness auto
termination
proof (relation "measure (\<lambda>(out, ellipsis, s). length s)", goal_cases)
  case (2 out ellipsis s g r v out' c r')
  then have "Suc (length r') \<le> length s"
    by (metis length_Cons length_dropWhile_le)
  then show ?case by simp
next
  case (3 out ellipsis s g r v out' c r')
  then have "Suc (length r') \<le> length s"
    by (metis length_Cons length_dropWhile_le)
  then show ?case by simp
qed simp

declare v6_loop.simps [simp del]

definition parseIPv6 :: "string \<Rightarrow> bytes option" where
  "parseIPv6 s =
     (if take 2 s = ''::'' then
        (if drop 2 s = [] then Some (replicate 16 0) else v6_loop [] (Some 0) (drop 2 s))
      else v6_loop [] None s)"

text \<open>
  \<^verbatim>\<open>net.ParseIP\<close>: the first dot or colon decides the format, zones are refused, the
  result has sixteen bytes. \<open>None\<close> is the nil slice.
\<close>

definition net_ParseIP :: "string \<Rightarrow> ip option" where
  "net_ParseIP s =
     (if CHR ''%'' \<in> set s then None
      else case dropWhile (\<lambda>c. c \<noteq> CHR ''.'' \<and> c \<noteq> CHR '':'') s of
             [] \<Rightarrow> None
           | c # _ \<Rightarrow>
               if c = CHR ''.'' then map_option (\<lambda>b. v4InV6Prefix @ b) (parseIPv4 s)
               else parseIPv6 s)"

lemma parseIPv4_length: "parseIPv4 s = Some b \<Longrightarrow> length b = 4"
  by (auto simp: parseIPv4_def split: list.splits option.splits)

lemma v6_finish_length:
  "v6_finish out e s = Some b \<Longrightarrow> length out \<le> 16 \<Longrightarrow> (\<And>k. e = Some k \<Longrightarrow> k \<le> length out) \<Longrightarrow>
     length b = 16"
  by (auto simp: v6_finish_def split: if_splits option.splits)

end
