(* ===== verification/Cert_Load.thy ===== *)
theory Cert_Load
  imports Go_Prelude "HOL-Library.AList"
begin

text \<open>
  \<^verbatim>\<open>cert/cert.go\<close>: reading a key and a certificate chain from a PEM file. The PEM
  decoder, the key parsers and the certificate parser are fields of a record: the code
  relies on their results only, and on the decoder making progress.
\<close>

section \<open>Types\<close>

record pem_block =
  Type :: string
  Headers :: "(string \<times> string) list"
  Bytes :: bytes

text \<open>
  The dynamic types of the keys that \<^verbatim>\<open>crypto/x509\<close> returns, and the two wrapper
  structs of \<^verbatim>\<open>makePrivateKey\<close>, which embed one interface and so have its methods
  only.
\<close>

datatype private_key =
    RSAKey bytes
  | ECDSAKey bytes
  | Ed25519Key bytes
  | ECDHKey bytes
  | DecrypterOnly private_key
  | SignerOnly private_key

text \<open>The type assertions \<^verbatim>\<open>key.(crypto.Decrypter)\<close> and \<^verbatim>\<open>key.(crypto.Signer)\<close>.\<close>

fun is_Decrypter :: "private_key \<Rightarrow> bool" where
  "is_Decrypter (RSAKey _) = True"
| "is_Decrypter (DecrypterOnly _) = True"
| "is_Decrypter _ = False"

fun is_Signer :: "private_key \<Rightarrow> bool" where
  "is_Signer (RSAKey _) = True"
| "is_Signer (ECDSAKey _) = True"
| "is_Signer (Ed25519Key _) = True"
| "is_Signer (SignerOnly _) = True"
| "is_Signer _ = False"

record x509_certificate =
  x509_Raw :: bytes
  NotAfter :: int

text \<open>\<^verbatim>\<open>tls.Certificate\<close>; a nil key, staple or leaf is \<open>None\<close>.\<close>

record tls_certificate =
  Certificate :: "bytes list"
  PrivateKey :: "private_key option"
  OCSPStaple :: "bytes option"
  SignedCertificateTimestamps :: "bytes list"
  Leaf :: "x509_certificate option"

definition new_certificate :: tls_certificate where
  "new_certificate = \<lparr>Certificate = [], PrivateKey = None, OCSPStaple = None,
     SignedCertificateTimestamps = [], Leaf = None\<rparr>"

record crypto_env =
  pem_Decode :: "bytes \<Rightarrow> (pem_block \<times> bytes) option"
  ParsePKCS8PrivateKey :: "bytes \<Rightarrow> go_error + private_key"
  ParsePKCS1PrivateKey :: "bytes \<Rightarrow> go_error + private_key"
  ParseECPrivateKey :: "bytes \<Rightarrow> go_error + private_key"
  ParseCertificate :: "bytes \<Rightarrow> go_error + x509_certificate"

text \<open>Indexing a Go map gives the zero value for a missing key.\<close>

definition header :: "pem_block \<Rightarrow> string \<Rightarrow> string" where
  "header block k = (case map_of (Headers block) k of None \<Rightarrow> [] | Some v \<Rightarrow> v)"

section \<open>Operations\<close>

definition parsePrivateKey :: "crypto_env \<Rightarrow> pem_block \<Rightarrow> go_error + private_key" where
  "parsePrivateKey env block =
     (if Type block = ''PRIVATE KEY'' then ParsePKCS8PrivateKey env (Bytes block)
      else if Type block = ''RSA PRIVATE KEY'' then ParsePKCS1PrivateKey env (Bytes block)
      else if Type block = ''EC PRIVATE KEY'' then ParseECPrivateKey env (Bytes block)
      else Inl (ErrorsNew (''unrecognized private key type `'' @ Type block @ [CHR 0x27])))"

definition makePrivateKey :: "crypto_env \<Rightarrow> pem_block \<Rightarrow> go_error + private_key" where
  "makePrivateKey env block =
     (case parsePrivateKey env block of
        Inl err \<Rightarrow> Inl err
      | Inr key \<Rightarrow>
          (let usage = header block ''Usage''
           in if usage = [] then Inr key
              else if usage = ''decrypt'' then
                (if is_Decrypter key then Inr (DecrypterOnly key)
                 else Inl (Errorf ''this key type does not support decryption'' []))
              else if usage = ''sign'' then
                (if is_Signer key then Inr (SignerOnly key)
                 else Inl (Errorf ''this key type does not support signing'' []))
              else Inl (ErrorsNew (''unrecognized usage `'' @ usage @ [CHR 0x27]))))"

text \<open>The body of the loop for one block, and the loop.\<close>

definition load_block ::
  "crypto_env \<Rightarrow> pem_block \<Rightarrow> tls_certificate \<Rightarrow> go_error + tls_certificate"
where
  "load_block env block cert =
     (if Type block \<in> set [''PRIVATE KEY'', ''RSA PRIVATE KEY'', ''EC PRIVATE KEY''] then
        (if PrivateKey cert \<noteq> None then Inl (ErrorsNew ''contains more than one private key'')
         else case makePrivateKey env block of
                Inl err \<Rightarrow> Inl (ErrorfW ''contains invalid private key: %w'' [] err)
              | Inr key \<Rightarrow> Inr (cert\<lparr>PrivateKey := Some key\<rparr>))
      else if Type block = ''CERTIFICATE'' then
        Inr (cert\<lparr>Certificate := Certificate cert @ [Bytes block]\<rparr>)
      else if Type block = ''OCSP RESPONSE'' then
        (if OCSPStaple cert \<noteq> None then Inl (ErrorsNew ''contains more than one OCSP response'')
         else Inr (cert\<lparr>OCSPStaple := Some (Bytes block)\<rparr>))
      else if Type block = ''SIGNED CERTIFICATE TIMESTAMP'' then
        Inr (cert\<lparr>SignedCertificateTimestamps := SignedCertificateTimestamps cert @ [Bytes block]\<rparr>)
      else Inl (ErrorsNew (''contains unrecognized PEM block `'' @ Type block @ [CHR 0x27])))"

partial_function (option) load_loop ::
  "crypto_env \<Rightarrow> bytes \<Rightarrow> tls_certificate \<Rightarrow> (go_error + tls_certificate) option"
where
  [code]: "load_loop env data cert =
     (case pem_Decode env data of
        None \<Rightarrow> Some (Inr cert)
      | Some (block, rest) \<Rightarrow>
          (case load_block env block cert of
             Inl err \<Rightarrow> Some (Inl err)
           | Inr cert' \<Rightarrow> load_loop env rest cert'))"

definition load_finish :: "crypto_env \<Rightarrow> tls_certificate \<Rightarrow> go_error + tls_certificate" where
  "load_finish env cert =
     (if PrivateKey cert = None then Inl (ErrorsNew ''doesn't contain any private key'')
      else case Certificate cert of
             [] \<Rightarrow> Inl (ErrorsNew ''doesn't contain any certificates'')
           | c # _ \<Rightarrow>
               (case ParseCertificate env c of
                  Inl err \<Rightarrow> Inl (ErrorfW ''contains invalid leaf certificate: %w'' [] err)
                | Inr leaf \<Rightarrow> Inr (cert\<lparr>Leaf := Some leaf\<rparr>)))"

text \<open>
  \<^verbatim>\<open>LoadCertificate\<close>, after and with the read of the file. No result means that the
  loop does not end.
\<close>

definition parse_certificate :: "crypto_env \<Rightarrow> bytes \<Rightarrow> (go_error + tls_certificate) option" where
  "parse_certificate env data =
     (case load_loop env data new_certificate of
        None \<Rightarrow> None
      | Some (Inl err) \<Rightarrow> Some (Inl err)
      | Some (Inr cert) \<Rightarrow> Some (load_finish env cert))"

definition LoadCertificate ::
  "crypto_env \<Rightarrow> (string \<Rightarrow> go_error + bytes) \<Rightarrow> string \<Rightarrow> (go_error + tls_certificate) option"
where
  "LoadCertificate env os_ReadFile filename =
     (case os_ReadFile filename of
        Inl err \<Rightarrow> Some (Inl err)
      | Inr data \<Rightarrow> parse_certificate env data)"

section \<open>Blocks of a file\<close>

text \<open>The decoder consumes something with every block it returns.\<close>

definition pem_progress :: "crypto_env \<Rightarrow> bool" where
  "pem_progress env \<longleftrightarrow> (\<forall>d b r. pem_Decode env d = Some (b, r) \<longrightarrow> length r < length d)"

inductive pem_blocks :: "crypto_env \<Rightarrow> bytes \<Rightarrow> pem_block list \<Rightarrow> bool" for env where
  "pem_Decode env d = None \<Longrightarrow> pem_blocks env d []"
| "pem_Decode env d = Some (b, r) \<Longrightarrow> pem_blocks env r bs \<Longrightarrow> pem_blocks env d (b # bs)"

lemma pem_blocks_exist:
  assumes "pem_progress env"
  shows "\<exists>bs. pem_blocks env d bs"
proof (induction d rule: length_induct)
  case (1 d)
  show ?case
  proof (cases "pem_Decode env d")
    case (Some br)
    obtain b r where "br = (b, r)" by (cases br)
    with Some have D: "pem_Decode env d = Some (b, r)" by simp
    then have "length r < length d" using assms by (auto simp: pem_progress_def)
    with 1 obtain bs where "pem_blocks env r bs" by blast
    with D show ?thesis by (blast intro: pem_blocks.intros)
  qed (blast intro: pem_blocks.intros)
qed

text \<open>The loop folds its body over the blocks.\<close>

primrec load_blocks ::
  "crypto_env \<Rightarrow> pem_block list \<Rightarrow> tls_certificate \<Rightarrow> go_error + tls_certificate"
where
  "load_blocks env [] cert = Inr cert"
| "load_blocks env (b # bs) cert =
     (case load_block env b cert of Inl e \<Rightarrow> Inl e | Inr c \<Rightarrow> load_blocks env bs c)"

lemma load_loop_blocks: "pem_blocks env d bs \<Longrightarrow> load_loop env d cert = Some (load_blocks env bs cert)"
  by (induction arbitrary: cert rule: pem_blocks.induct)
    (simp_all add: load_loop.simps split: sum.split)

section \<open>What a well-formed file holds\<close>

definition is_key_block :: "pem_block \<Rightarrow> bool" where
  "is_key_block b \<longleftrightarrow> Type b = ''PRIVATE KEY'' \<or> Type b = ''RSA PRIVATE KEY'' \<or> Type b = ''EC PRIVATE KEY''"

definition blocks_of :: "string \<Rightarrow> pem_block list \<Rightarrow> bytes list" where
  "blocks_of ty bs = map Bytes (filter (\<lambda>b. Type b = ty) bs)"

definition known_block :: "pem_block \<Rightarrow> bool" where
  "known_block b \<longleftrightarrow> is_key_block b
     \<or> Type b \<in> {''CERTIFICATE'', ''OCSP RESPONSE'', ''SIGNED CERTIFICATE TIMESTAMP''}"

text \<open>
  The contract in the comment of \<^verbatim>\<open>LoadCertificate\<close>: exactly one key, a chain whose
  first element parses, up to one staple, any number of timestamps, and nothing else.
\<close>

definition certificate_file :: "crypto_env \<Rightarrow> pem_block list \<Rightarrow> tls_certificate \<Rightarrow> bool" where
  "certificate_file env bs cert \<longleftrightarrow>
     (\<forall>b \<in> set bs. known_block b)
   \<and> (\<exists>kb key. filter is_key_block bs = [kb] \<and> makePrivateKey env kb = Inr key
        \<and> PrivateKey cert = Some key)
   \<and> Certificate cert = blocks_of ''CERTIFICATE'' bs \<and> Certificate cert \<noteq> []
   \<and> blocks_of ''OCSP RESPONSE'' bs = (case OCSPStaple cert of None \<Rightarrow> [] | Some r \<Rightarrow> [r])
   \<and> SignedCertificateTimestamps cert = blocks_of ''SIGNED CERTIFICATE TIMESTAMP'' bs
   \<and> (\<exists>leaf. ParseCertificate env (hd (Certificate cert)) = Inr leaf \<and> Leaf cert = Some leaf)"

text \<open>What the loop adds to the certificate it has so far.\<close>

definition key_added :: "crypto_env \<Rightarrow> private_key option \<Rightarrow> pem_block list \<Rightarrow> private_key option \<Rightarrow> bool" where
  "key_added env k0 kbs k1 \<longleftrightarrow>
     (kbs = [] \<and> k1 = k0) \<or>
     (\<exists>kb key. k0 = None \<and> kbs = [kb] \<and> makePrivateKey env kb = Inr key \<and> k1 = Some key)"

definition ocsp_added :: "bytes option \<Rightarrow> bytes list \<Rightarrow> bytes option \<Rightarrow> bool" where
  "ocsp_added o0 rs o1 \<longleftrightarrow> (rs = [] \<and> o1 = o0) \<or> (\<exists>r. o0 = None \<and> rs = [r] \<and> o1 = Some r)"

definition blocks_added :: "crypto_env \<Rightarrow> tls_certificate \<Rightarrow> pem_block list \<Rightarrow> tls_certificate \<Rightarrow> bool" where
  "blocks_added env c0 bs c1 \<longleftrightarrow>
     (\<forall>b \<in> set bs. known_block b)
   \<and> key_added env (PrivateKey c0) (filter is_key_block bs) (PrivateKey c1)
   \<and> Certificate c1 = Certificate c0 @ blocks_of ''CERTIFICATE'' bs
   \<and> ocsp_added (OCSPStaple c0) (blocks_of ''OCSP RESPONSE'' bs) (OCSPStaple c1)
   \<and> SignedCertificateTimestamps c1 =
       SignedCertificateTimestamps c0 @ blocks_of ''SIGNED CERTIFICATE TIMESTAMP'' bs
   \<and> Leaf c1 = Leaf c0"

lemma blocks_of_simps [simp]:
  "blocks_of ty [] = []"
  "blocks_of ty (b # bs) = (if Type b = ty then Bytes b # blocks_of ty bs else blocks_of ty bs)"
  by (simp_all add: blocks_of_def)

lemma load_block_added:
  "load_block env b c0 = Inr c1 \<longleftrightarrow> blocks_added env c0 [b] c1"
  by (cases c0; cases c1)
    (auto simp: load_block_def blocks_added_def known_block_def is_key_block_def key_added_def
      ocsp_added_def split: sum.splits)

lemma key_added_append:
  "key_added env k0 (xs @ ys) k2 \<longleftrightarrow> (\<exists>k1. key_added env k0 xs k1 \<and> key_added env k1 ys k2)"
  by (auto simp: key_added_def append_eq_Cons_conv)

lemma ocsp_added_append:
  "ocsp_added o0 (xs @ ys) o2 \<longleftrightarrow> (\<exists>o1. ocsp_added o0 xs o1 \<and> ocsp_added o1 ys o2)"
  by (auto simp: ocsp_added_def append_eq_Cons_conv)

lemma blocks_of_append: "blocks_of ty (xs @ ys) = blocks_of ty xs @ blocks_of ty ys"
  by (simp add: blocks_of_def)

lemma blocks_added_Cons:
  "blocks_added env c0 (b # bs) c1 \<longleftrightarrow>
     (\<exists>c. blocks_added env c0 [b] c \<and> blocks_added env c bs c1)"
  (is "?L \<longleftrightarrow> ?R")
proof
  assume ?R
  then obtain c where c: "blocks_added env c0 [b] c" "blocks_added env c bs c1" by blast
  then have "key_added env (PrivateKey c0) (filter is_key_block ([b] @ bs)) (PrivateKey c1)"
    "ocsp_added (OCSPStaple c0) (blocks_of ''OCSP RESPONSE'' ([b] @ bs)) (OCSPStaple c1)"
    unfolding filter_append key_added_append blocks_of_append ocsp_added_append
    by (auto simp only: blocks_added_def)
  moreover have "Certificate c1 = Certificate c0 @ blocks_of ''CERTIFICATE'' ([b] @ bs)"
    "SignedCertificateTimestamps c1 =
      SignedCertificateTimestamps c0 @ blocks_of ''SIGNED CERTIFICATE TIMESTAMP'' ([b] @ bs)"
    using c by (simp_all add: blocks_added_def blocks_of_append [of _ "[b]" bs, simplified append_Cons append_Nil]
        del: blocks_of_simps)
  ultimately show ?L using c unfolding blocks_added_def by simp
next
  assume L: ?L
  then have "key_added env (PrivateKey c0) (filter is_key_block ([b] @ bs)) (PrivateKey c1)"
    "ocsp_added (OCSPStaple c0) (blocks_of ''OCSP RESPONSE'' ([b] @ bs)) (OCSPStaple c1)"
    by (simp_all only: blocks_added_def append_Cons append_Nil)
  then obtain k r where
    "key_added env (PrivateKey c0) (filter is_key_block [b]) k"
    "key_added env k (filter is_key_block bs) (PrivateKey c1)"
    "ocsp_added (OCSPStaple c0) (blocks_of ''OCSP RESPONSE'' [b]) r"
    "ocsp_added r (blocks_of ''OCSP RESPONSE'' bs) (OCSPStaple c1)"
    unfolding filter_append key_added_append blocks_of_append ocsp_added_append by blast
  then have "blocks_added env c0 [b] (c0\<lparr>PrivateKey := k, OCSPStaple := r,
      Certificate := Certificate c0 @ blocks_of ''CERTIFICATE'' [b],
      SignedCertificateTimestamps :=
        SignedCertificateTimestamps c0 @ blocks_of ''SIGNED CERTIFICATE TIMESTAMP'' [b]\<rparr>) \<and>
    blocks_added env (c0\<lparr>PrivateKey := k, OCSPStaple := r,
      Certificate := Certificate c0 @ blocks_of ''CERTIFICATE'' [b],
      SignedCertificateTimestamps :=
        SignedCertificateTimestamps c0 @ blocks_of ''SIGNED CERTIFICATE TIMESTAMP'' [b]\<rparr>) bs c1"
    using L by (simp add: blocks_added_def del: filter.simps)
  then show ?R by blast
qed

lemma load_blocks_added: "load_blocks env bs c0 = Inr c1 \<longleftrightarrow> blocks_added env c0 bs c1"
proof (induction bs arbitrary: c0)
  case Nil
  show ?case by (cases c0; cases c1) (auto simp: blocks_added_def key_added_def ocsp_added_def)
next
  case (Cons b bs)
  have "load_blocks env (b # bs) c0 = Inr c1 \<longleftrightarrow>
      (\<exists>c. load_block env b c0 = Inr c \<and> load_blocks env bs c = Inr c1)"
    by (auto split: sum.splits)
  then show ?case by (simp add: Cons.IH load_block_added blocks_added_Cons [of env c0 b bs])
qed

lemma certificate_file_iff:
  "certificate_file env bs cert \<longleftrightarrow>
     (\<exists>c. blocks_added env new_certificate bs c \<and> load_finish env c = Inr cert)"
  (is "?L \<longleftrightarrow> ?R")
proof
  assume L: ?L
  have "blocks_added env new_certificate bs (cert\<lparr>Leaf := None\<rparr>)"
    using L by (auto simp: certificate_file_def blocks_added_def new_certificate_def key_added_def
        ocsp_added_def split: option.splits)
  moreover have "load_finish env (cert\<lparr>Leaf := None\<rparr>) = Inr cert"
    using L by (cases cert) (auto simp: certificate_file_def load_finish_def split: list.splits)
  ultimately show ?R by blast
next
  assume ?R
  then obtain c where c: "blocks_added env new_certificate bs c" "load_finish env c = Inr cert" by blast
  then obtain l leaf where l: "PrivateKey c \<noteq> None" "Certificate c = l" "l \<noteq> []"
    "ParseCertificate env (hd l) = Inr leaf" "cert = c\<lparr>Leaf := Some leaf\<rparr>"
    by (auto simp: load_finish_def split: list.splits sum.splits if_splits)
  moreover from c(1) have "blocks_of ''OCSP RESPONSE'' bs =
      (case OCSPStaple c of None \<Rightarrow> [] | Some r \<Rightarrow> [r])"
    by (auto simp: blocks_added_def ocsp_added_def new_certificate_def)
  ultimately show ?L
    using c(1) by (auto simp: certificate_file_def blocks_added_def new_certificate_def key_added_def)
qed

text \<open>The certificate of a file, with the decoder evaluated.\<close>

lemma parse_certificate_blocks:
  assumes "pem_blocks env data bs"
  shows "parse_certificate env data =
    Some (case load_blocks env bs new_certificate of Inl e \<Rightarrow> Inl e | Inr c \<Rightarrow> load_finish env c)"
  by (simp add: parse_certificate_def load_loop_blocks [OF assms] split: sum.split)

lemma parse_certificate_total: "pem_progress env \<Longrightarrow> \<exists>r. parse_certificate env data = Some r"
  using pem_blocks_exist parse_certificate_blocks by blast

lemma parse_certificate_file:
  assumes "pem_blocks env data bs"
  shows "parse_certificate env data = Some (Inr cert) \<longleftrightarrow> certificate_file env bs cert"
  unfolding certificate_file_iff parse_certificate_blocks [OF assms] load_blocks_added [symmetric]
  by (auto split: sum.splits)

lemma load_finish_Leaf: "load_finish env c = Inr cert \<Longrightarrow> Leaf cert \<noteq> None"
  by (auto simp: load_finish_def split: if_splits list.splits sum.splits)

lemma parse_certificate_Leaf:
  "parse_certificate env data = Some (Inr cert) \<Longrightarrow> Leaf cert \<noteq> None"
  by (auto simp: parse_certificate_def simp del: not_None_eq split: option.splits sum.splits
      dest: load_finish_Leaf)

text \<open>
  An instance of the parameters: a block is a type byte, a length byte and that many bytes,
  a key that starts with 8 is RSA, a certificate expires at the time its first byte
  gives.
\<close>

definition demo_type :: "byte \<Rightarrow> string" where
  "demo_type t = (if t = 1 then ''PRIVATE KEY'' else if t = 2 then ''CERTIFICATE''
     else if t = 3 then ''OCSP RESPONSE'' else if t = 4 then ''SIGNED CERTIFICATE TIMESTAMP''
     else ''DH PARAMETERS'')"

definition demo_crypto :: crypto_env where
  "demo_crypto = \<lparr>
     pem_Decode = (\<lambda>d. case d of
         t # n # rest \<Rightarrow> Some (\<lparr>Type = demo_type t, Headers = [], Bytes = take (unat n) rest\<rparr>,
           drop (unat n) rest)
       | _ \<Rightarrow> None),
     ParsePKCS8PrivateKey = (\<lambda>b. if b = [] then Inl (ErrorsNew ''asn1'')
       else if hd b = 8 then Inr (RSAKey b) else Inr (ECDSAKey b)),
     ParsePKCS1PrivateKey = (\<lambda>b. Inr (RSAKey b)),
     ParseECPrivateKey = (\<lambda>b. Inr (ECDSAKey b)),
     ParseCertificate = (\<lambda>b. if b = [] then Inl (ErrorsNew ''x509'')
       else Inr \<lparr>x509_Raw = b, NotAfter = uint (hd b)\<rparr>)\<rparr>"

lemma demo_crypto_progress: "pem_progress demo_crypto"
  by (auto simp: pem_progress_def demo_crypto_def split: list.splits)

definition demo_pem :: bytes where
  "demo_pem = [2, 2, 50, 9, 1, 1, 8, 2, 1, 60]"

definition demo_cert :: tls_certificate where
  "demo_cert = \<lparr>Certificate = [[50, 9], [60]], PrivateKey = Some (RSAKey [8]), OCSPStaple = None,
     SignedCertificateTimestamps = [], Leaf = Some \<lparr>x509_Raw = [50, 9], NotAfter = 50\<rparr>\<rparr>"

section \<open>Properties\<close>

text \<open>
  C10: \<^verbatim>\<open>LoadCertificate\<close> always returns, and it returns a certificate exactly for the
  files its comment describes (and those with a key in one of the two traditional formats,
  which the comment leaves out): only known blocks, exactly one key, which parses for its
  usage, at least one certificate, the first of which parses, at most one OCSP response. The
  certificate then holds the contents of these blocks in the order of the file.
\<close>

theorem LoadCertificate_iff_well_formed:
  assumes "pem_progress env" and "os_ReadFile filename = Inr data"
  shows "\<exists>bs r. pem_blocks env data bs \<and> LoadCertificate env os_ReadFile filename = Some r
    \<and> (\<forall>cert. r = Inr cert \<longleftrightarrow> certificate_file env bs cert)"
proof -
  obtain bs where bs: "pem_blocks env data bs" using pem_blocks_exist [OF assms(1)] by blast
  moreover obtain r where "parse_certificate env data = Some r"
    using parse_certificate_total [OF assms(1)] by blast
  ultimately show ?thesis
    using assms(2) parse_certificate_file [OF bs] by (auto simp: LoadCertificate_def)
qed

theorem LoadCertificate_iff_well_formed_witness:
  "\<exists>bs. pem_blocks demo_crypto demo_pem bs \<and> certificate_file demo_crypto bs demo_cert"
proof -
  have "parse_certificate demo_crypto demo_pem = Some (Inr demo_cert)" by code_simp
  then show ?thesis
    using LoadCertificate_iff_well_formed [OF demo_crypto_progress, of "\<lambda>_. Inr demo_pem" "[]" demo_pem]
    by (auto simp: LoadCertificate_def)
qed

text \<open>
  The usage header limits what a key can do: with usage ``decrypt'' the key decrypts
  and does not sign, with ``sign'' it signs and does not decrypt, without a usage it is the
  parsed key, and any other usage is refused.
\<close>

theorem makePrivateKey_usage:
  assumes "makePrivateKey env block = Inr key"
  shows "header block ''Usage'' = [] \<and> parsePrivateKey env block = Inr key
    \<or> header block ''Usage'' = ''decrypt'' \<and> is_Decrypter key \<and> \<not> is_Signer key
    \<or> header block ''Usage'' = ''sign'' \<and> is_Signer key \<and> \<not> is_Decrypter key"
  using assms by (auto simp: makePrivateKey_def Let_def split: sum.splits if_splits)

end
