(* ===== verification/Cert_Cache.thy ===== *)
theory Cert_Cache
  imports Cert_Load
begin

text \<open>
  \<^verbatim>\<open>cert/cache.go\<close> and \<^verbatim>\<open>cert/globalcache.go\<close>: the cache of certificate files,
  first as the functions of the code, then with any number of loads, cleanings and changes
  of the files interleaved. What a read of the disk gives is a record of functions, the
  disk at that moment.
\<close>

section \<open>Operations\<close>

record disk =
  os_Stat :: "string \<Rightarrow> go_error + int"
  os_ReadFile :: "string \<Rightarrow> go_error + bytes"

text \<open>The embedded certificate pointer may be nil; the zero time is 0.\<close>

record cachedFile =
  cf_Certificate :: "tls_certificate option"
  modTime :: int

definition no_cachedFile :: cachedFile where
  "no_cachedFile = \<lparr>cf_Certificate = None, modTime = 0\<rparr>"

definition isFresh :: "cachedFile \<Rightarrow> int \<Rightarrow> bool" where
  "isFresh c latestModTime \<longleftrightarrow> cf_Certificate c \<noteq> None \<and> modTime c = latestModTime"

text \<open>The map of the cache; its mutex makes each of the operations below one step.\<close>

type_synonym fileCache = "(string \<times> cachedFile) list"

definition newFileCache :: fileCache where "newFileCache = []"

definition fc_get :: "fileCache \<Rightarrow> string \<Rightarrow> cachedFile" where
  "fc_get c filename = (case map_of c filename of None \<Rightarrow> no_cachedFile | Some f \<Rightarrow> f)"

definition fc_add :: "fileCache \<Rightarrow> string \<Rightarrow> cachedFile \<Rightarrow> fileCache" where
  "fc_add c filename cert = AList.update filename cert c"

definition fc_Load ::
  "crypto_env \<Rightarrow> disk \<Rightarrow> fileCache \<Rightarrow> string \<Rightarrow> ((go_error + tls_certificate option) \<times> fileCache) option"
where
  "fc_Load env d c filename =
     (case os_Stat d filename of
        Inl err \<Rightarrow> Some (Inl err, c)
      | Inr mtime \<Rightarrow>
          (let cachedFile = fc_get c filename
           in if isFresh cachedFile mtime then Some (Inr (cf_Certificate cachedFile), c)
              else case LoadCertificate env (os_ReadFile d) filename of
                     None \<Rightarrow> None
                   | Some (Inl err) \<Rightarrow> Some (Inl err, c)
                   | Some (Inr cert) \<Rightarrow>
                       Some (Inr (Some cert),
                         fc_add c filename \<lparr>cf_Certificate = Some cert, modTime = mtime\<rparr>)))"

text \<open>
  \<^verbatim>\<open>Clean\<close>: the range over the map, in its order; an entry without a certificate or
  without a leaf is a nil dereference.
\<close>

fun fc_Clean :: "int \<Rightarrow> fileCache \<Rightarrow> go_panic + fileCache" where
  "fc_Clean now [] = Inr []"
| "fc_Clean now ((filename, cert) # c) =
     (case cf_Certificate cert of
        None \<Rightarrow> Inl NilDereference
      | Some crt \<Rightarrow>
          (case Leaf crt of
             None \<Rightarrow> Inl NilDereference
           | Some leaf \<Rightarrow>
               (case fc_Clean now c of
                  Inl p \<Rightarrow> Inl p
                | Inr c' \<Rightarrow> Inr (if NotAfter leaf < now then c' else (filename, cert) # c'))))"

section \<open>The global cache\<close>

text \<open>
  The pointer, the \<^verbatim>\<open>sync.Once\<close> and the number of cleaning goroutines started.
\<close>

record global_cache =
  globalFileCachePtr :: "fileCache option"
  globalFileCacheInit :: bool
  cleaners :: nat

definition initial_global :: global_cache where
  "initial_global = \<lparr>globalFileCachePtr = None, globalFileCacheInit = False, cleaners = 0\<rparr>"

definition globalFileCache :: "global_cache \<Rightarrow> fileCache option \<times> global_cache" where
  "globalFileCache g =
     (let g = (if globalFileCacheInit g then g
               else g\<lparr>globalFileCacheInit := True, globalFileCachePtr := Some newFileCache,
                      cleaners := cleaners g + 1\<rparr>)
      in (globalFileCachePtr g, g))"

text \<open>\<^verbatim>\<open>cleanGlobalFileCache\<close>: the cache after the ticks at the given times.\<close>

fun cleanGlobalFileCache :: "int list \<Rightarrow> global_cache \<Rightarrow> go_panic + global_cache" where
  "cleanGlobalFileCache [] g = Inr g"
| "cleanGlobalFileCache (now # ticks) g =
     (case globalFileCachePtr g of
        None \<Rightarrow> Inl NilDereference
      | Some c \<Rightarrow>
          (case fc_Clean now c of
             Inl p \<Rightarrow> Inl p
           | Inr c' \<Rightarrow> cleanGlobalFileCache ticks (g\<lparr>globalFileCachePtr := Some c'\<rparr>)))"

section \<open>Loads that interleave\<close>

text \<open>
  The versions a file had, oldest first, each with its modification time; whether the file
  is there, with the last version; the cache; and the calls of \<^verbatim>\<open>Load\<close>. A call has a
  name of the file, where it is, and, as a ghost, how many versions were past when it was
  made.
\<close>

datatype load_pc =
    LStat
  | LGet int
  | LRead int
  | LAdd int tls_certificate
  | LReturned "go_error + tls_certificate option"

record load_call =
  lc_file :: string
  lc_since :: nat
  lc_pc :: load_pc

record cache_state =
  cs_versions :: "string \<Rightarrow> (int \<times> bytes) list"
  cs_present :: "string \<Rightarrow> bool"
  cs_cache :: fileCache
  cs_calls :: "load_call list"

definition past_versions :: "cache_state \<Rightarrow> string \<Rightarrow> nat" where
  "past_versions s p = (if cs_present s p then length (cs_versions s p) - 1 else length (cs_versions s p))"

definition current :: "cache_state \<Rightarrow> string \<Rightarrow> (int \<times> bytes) option" where
  "current s p = (if cs_present s p then Some (last (cs_versions s p)) else None)"

definition goto_call :: "nat \<Rightarrow> load_pc \<Rightarrow> cache_state \<Rightarrow> cache_state" where
  "goto_call i pc s = s\<lparr>cs_calls := (cs_calls s)[i := (cs_calls s ! i)\<lparr>lc_pc := pc\<rparr>]\<rparr>"

definition call_at :: "nat \<Rightarrow> string \<Rightarrow> load_pc \<Rightarrow> cache_state \<Rightarrow> bool" where
  "call_at i p pc s \<longleftrightarrow>
     i < length (cs_calls s) \<and> lc_file (cs_calls s ! i) = p \<and> lc_pc (cs_calls s ! i) = pc"

datatype cache_label =
    WriteFile string int bytes
  | RemoveFile string
  | CleanTick int
  | CallLoad string
  | DoStat nat
  | StatFails nat go_error
  | DoGet nat
  | DoRead nat
  | ReadFails nat go_error
  | DoAdd nat

text \<open>
  Every change of a file, partial or not, is a write of a version with a modification time
  the file did not have before.
\<close>

inductive cache_step :: "crypto_env \<Rightarrow> cache_label \<Rightarrow> cache_state \<Rightarrow> cache_state \<Rightarrow> bool" for env where
  file_written: "m \<notin> fst ` set (cs_versions s p) \<Longrightarrow>
    cache_step env (WriteFile p m b) s
      (s\<lparr>cs_versions := (cs_versions s)(p := cs_versions s p @ [(m, b)]),
         cs_present := (cs_present s)(p := True)\<rparr>)"
| file_removed: "cache_step env (RemoveFile p) s (s\<lparr>cs_present := (cs_present s)(p := False)\<rparr>)"
| cleaned: "fc_Clean now (cs_cache s) = Inr c \<Longrightarrow> cache_step env (CleanTick now) s (s\<lparr>cs_cache := c\<rparr>)"
| called: "cache_step env (CallLoad p) s
    (s\<lparr>cs_calls := cs_calls s @ [\<lparr>lc_file = p, lc_since = past_versions s p, lc_pc = LStat\<rparr>]\<rparr>)"
| stat_ok: "call_at i p LStat s \<Longrightarrow> current s p = Some (m, b) \<Longrightarrow>
    cache_step env (DoStat i) s (goto_call i (LGet m) s)"
| stat_fails: "call_at i p LStat s \<Longrightarrow>
    cache_step env (StatFails i e) s (goto_call i (LReturned (Inl e)) s)"
| get_fresh: "call_at i p (LGet m) s \<Longrightarrow> isFresh (fc_get (cs_cache s) p) m \<Longrightarrow>
    cache_step env (DoGet i) s (goto_call i (LReturned (Inr (cf_Certificate (fc_get (cs_cache s) p)))) s)"
| get_stale: "call_at i p (LGet m) s \<Longrightarrow> \<not> isFresh (fc_get (cs_cache s) p) m \<Longrightarrow>
    cache_step env (DoGet i) s (goto_call i (LRead m) s)"
| read_ok: "call_at i p (LRead m) s \<Longrightarrow> current s p = Some (m', b) \<Longrightarrow>
    parse_certificate env b = Some (Inr cert) \<Longrightarrow>
    cache_step env (DoRead i) s (goto_call i (LAdd m cert) s)"
| read_invalid: "call_at i p (LRead m) s \<Longrightarrow> current s p = Some (m', b) \<Longrightarrow>
    parse_certificate env b = Some (Inl e) \<Longrightarrow>
    cache_step env (DoRead i) s (goto_call i (LReturned (Inl e)) s)"
| read_fails: "call_at i p (LRead m) s \<Longrightarrow>
    cache_step env (ReadFails i e) s (goto_call i (LReturned (Inl e)) s)"
| added: "call_at i p (LAdd m cert) s \<Longrightarrow>
    cache_step env (DoAdd i) s (goto_call i (LReturned (Inr (Some cert)))
      (s\<lparr>cs_cache := fc_add (cs_cache s) p \<lparr>cf_Certificate = Some cert, modTime = m\<rparr>\<rparr>))"

inductive_cases cache_stepE: "cache_step env l s t"

definition initial_cache_state :: cache_state where
  "initial_cache_state = \<lparr>cs_versions = (\<lambda>_. []), cs_present = (\<lambda>_. False),
     cs_cache = newFileCache, cs_calls = []\<rparr>"

section \<open>Entries of the cache\<close>

lemma set_update: "x \<in> set (AList.update k v xs) \<Longrightarrow> x = (k, v) \<or> x \<in> set xs"
  by (induction xs) (auto split: if_splits)

lemma fc_get_set:
  "cf_Certificate (fc_get c p) = Some cert \<Longrightarrow> (p, fc_get c p) \<in> set c"
  by (auto simp: fc_get_def no_cachedFile_def dest: map_of_SomeD split: option.splits)

lemma fc_get_add [simp]: "fc_get (fc_add c p f) q = (if p = q then f else fc_get c q)"
  by (simp add: fc_get_def fc_add_def update_conv')

lemma fc_Clean_filter:
  assumes "\<forall>(p, f) \<in> set c. \<exists>crt leaf. cf_Certificate f = Some crt \<and> Leaf crt = Some leaf"
  shows "fc_Clean now c = Inr (filter (\<lambda>(p, f). now \<le> NotAfter (the (Leaf (the (cf_Certificate f))))) c)"
  using assms by (induction now c rule: fc_Clean.induct) auto

lemma fc_Clean_subset: "fc_Clean now c = Inr c' \<Longrightarrow> set c' \<subseteq> set c"
  by (induction now c arbitrary: c' rule: fc_Clean.induct)
    (fastforce split: option.splits sum.splits if_splits)+

lemma map_of_filter:
  "distinct (map fst c) \<Longrightarrow>
     map_of (filter P c) k = (case map_of c k of None \<Rightarrow> None | Some v \<Rightarrow> if P (k, v) then Some v else None)"
  by (induction c) (auto split: option.splits dest: map_of_SomeD simp: image_iff map_of_eq_None_iff)

section \<open>The invariant\<close>

text \<open>
  A certificate is from version \<open>k\<close> on when one of the versions from number \<open>k\<close> on
  parses to it. The version a modification time belongs to is unique.
\<close>

definition version_from :: "crypto_env \<Rightarrow> (int \<times> bytes) list \<Rightarrow> nat \<Rightarrow> tls_certificate \<Rightarrow> bool" where
  "version_from env vs k cert \<longleftrightarrow>
     (\<exists>(m, b) \<in> set (drop k vs). parse_certificate env b = Some (Inr cert))"

definition has_time :: "(int \<times> bytes) list \<Rightarrow> nat \<Rightarrow> int \<Rightarrow> bool" where
  "has_time vs j m \<longleftrightarrow> j < length vs \<and> fst (vs ! j) = m"

definition entry_ok :: "crypto_env \<Rightarrow> (int \<times> bytes) list \<Rightarrow> cachedFile \<Rightarrow> bool" where
  "entry_ok env vs f \<longleftrightarrow> (\<exists>cert j. cf_Certificate f = Some cert \<and> Leaf cert \<noteq> None
     \<and> has_time vs j (modTime f) \<and> version_from env vs j cert)"

fun pc_ok :: "crypto_env \<Rightarrow> (int \<times> bytes) list \<Rightarrow> nat \<Rightarrow> load_pc \<Rightarrow> bool" where
  "pc_ok env vs k LStat = True"
| "pc_ok env vs k (LGet m) = (\<exists>j \<ge> k. has_time vs j m)"
| "pc_ok env vs k (LRead m) = (\<exists>j \<ge> k. has_time vs j m)"
| "pc_ok env vs k (LAdd m cert) =
     (\<exists>j \<ge> k. has_time vs j m \<and> version_from env vs j cert \<and> Leaf cert \<noteq> None)"
| "pc_ok env vs k (LReturned (Inl e)) = True"
| "pc_ok env vs k (LReturned (Inr co)) = (\<exists>cert. co = Some cert \<and> version_from env vs k cert)"

definition cache_inv :: "crypto_env \<Rightarrow> cache_state \<Rightarrow> bool" where
  "cache_inv env s \<longleftrightarrow>
     (\<forall>p. distinct (map fst (cs_versions s p)) \<and> (cs_present s p \<longrightarrow> cs_versions s p \<noteq> []))
   \<and> (\<forall>(p, f) \<in> set (cs_cache s). entry_ok env (cs_versions s p) f)
   \<and> (\<forall>c \<in> set (cs_calls s). lc_since c \<le> past_versions s (lc_file c)
        \<and> pc_ok env (cs_versions s (lc_file c)) (lc_since c) (lc_pc c))"

lemma version_from_append: "version_from env vs k cert \<Longrightarrow> version_from env (vs @ ws) k cert"
  by (force simp: version_from_def)

lemma version_from_mono: "version_from env vs j cert \<Longrightarrow> k \<le> j \<Longrightarrow> version_from env vs k cert"
  by (auto simp: version_from_def dest: set_drop_subset_set_drop [THEN subsetD, rotated])

lemma has_time_append: "has_time vs j m \<Longrightarrow> has_time (vs @ ws) j m"
  by (auto simp: has_time_def nth_append)

lemma has_time_unique:
  "has_time vs j m \<Longrightarrow> has_time vs k m \<Longrightarrow> distinct (map fst vs) \<Longrightarrow> j = k"
  by (auto simp: has_time_def distinct_conv_nth)

lemma entry_ok_append: "entry_ok env vs f \<Longrightarrow> entry_ok env (vs @ ws) f"
  unfolding entry_ok_def by (blast intro: version_from_append has_time_append)

lemma pc_ok_append: "pc_ok env vs k pc \<Longrightarrow> pc_ok env (vs @ ws) k pc"
  by (cases "(env, vs, k, pc)" rule: pc_ok.cases)
    (auto intro: version_from_append has_time_append)

lemmas append_stable = entry_ok_append pc_ok_append

text \<open>The last version is one from any earlier point on.\<close>

lemma current_last:
  assumes "current s p = Some (m, b)" and "cache_inv env s"
  shows "cs_versions s p \<noteq> []" "last (cs_versions s p) = (m, b)"
    "past_versions s p = length (cs_versions s p) - 1"
    "has_time (cs_versions s p) (length (cs_versions s p) - 1) m"
  using assms
  by (auto simp: current_def cache_inv_def past_versions_def has_time_def last_conv_nth split: if_splits)

lemma last_version_from:
  assumes "last vs = (m, b)" and "parse_certificate env b = Some (Inr cert)" and "j < length vs"
  shows "version_from env vs j cert"
proof -
  have "last (drop j vs) = (m, b)" "drop j vs \<noteq> []" using assms by simp_all
  then have "(m, b) \<in> set (drop j vs)" by (metis last_in_set)
  then show ?thesis using assms(2) by (auto simp: version_from_def)
qed

section \<open>The invariant is kept\<close>

lemma past_versions_frame [simp]:
  "past_versions (s\<lparr>cs_cache := c\<rparr>) p = past_versions s p"
  "past_versions (s\<lparr>cs_calls := cs\<rparr>) p = past_versions s p"
  by (simp_all add: past_versions_def)

lemma cache_inv_initial: "cache_inv env initial_cache_state"
  by (simp add: cache_inv_def initial_cache_state_def newFileCache_def)

text \<open>A step of one call, with at most an addition to the cache.\<close>

lemma cache_inv_goto:
  assumes "cache_inv env s" and "call_at i p pc s"
    and "pc_ok env (cs_versions s p) (lc_since (cs_calls s ! i)) pc'"
  shows "cache_inv env (goto_call i pc' s)"
proof -
  let ?c = "(cs_calls s ! i)\<lparr>lc_pc := pc'\<rparr>"
  have i: "cs_calls s ! i \<in> set (cs_calls s)" "lc_file (cs_calls s ! i) = p"
    using assms(2) by (auto simp: call_at_def)
  have "lc_since c \<le> past_versions s (lc_file c)
      \<and> pc_ok env (cs_versions s (lc_file c)) (lc_since c) (lc_pc c)"
    if c: "c \<in> set ((cs_calls s)[i := ?c])" for c
  proof -
    from c have "c = ?c \<or> c \<in> set (cs_calls s)" using set_update_subset_insert by fastforce
    then show ?thesis using assms i by (auto simp: cache_inv_def)
  qed
  then show ?thesis using assms(1) by (simp add: cache_inv_def goto_call_def)
qed

lemma cache_inv_cache:
  assumes "cache_inv env s" and "\<And>p f. (p, f) \<in> set c \<Longrightarrow> entry_ok env (cs_versions s p) f"
  shows "cache_inv env (s\<lparr>cs_cache := c\<rparr>)"
  using assms by (auto simp: cache_inv_def)

lemma call_ok:
  assumes "cache_inv env s" and "call_at i p pc s"
  shows "lc_since (cs_calls s ! i) \<le> past_versions s p"
    "pc_ok env (cs_versions s p) (lc_since (cs_calls s ! i)) pc"
  using assms by (auto simp: cache_inv_def call_at_def)

lemma cache_inv_write:
  assumes inv: "cache_inv env s" and m: "m \<notin> fst ` set (cs_versions s p)"
  shows "cache_inv env (s\<lparr>cs_versions := (cs_versions s)(p := cs_versions s p @ [(m, b)]),
         cs_present := (cs_present s)(p := True)\<rparr>)" (is "cache_inv env ?t")
proof -
  have past: "past_versions s q \<le> past_versions ?t q" for q
    by (auto simp: past_versions_def)
  have "entry_ok env (cs_versions ?t q) f" if "(q, f) \<in> set (cs_cache s)" for q f
    using inv that by (auto simp: cache_inv_def intro: entry_ok_append)
  moreover have "lc_since c \<le> past_versions ?t (lc_file c)
      \<and> pc_ok env (cs_versions ?t (lc_file c)) (lc_since c) (lc_pc c)" if "c \<in> set (cs_calls s)" for c
    using inv that past [of "lc_file c"] by (auto simp: cache_inv_def intro: pc_ok_append)
  ultimately show ?thesis using inv m by (auto simp: cache_inv_def)
qed

lemma cache_inv_remove:
  assumes "cache_inv env s"
  shows "cache_inv env (s\<lparr>cs_present := (cs_present s)(p := False)\<rparr>)" (is "cache_inv env ?t")
proof -
  have "past_versions s q \<le> past_versions ?t q" for q by (auto simp: past_versions_def)
  then show ?thesis using assms by (auto simp: cache_inv_def intro: le_trans)
qed

lemma cache_inv_call:
  assumes "cache_inv env s"
  shows "cache_inv env
    (s\<lparr>cs_calls := cs_calls s @ [\<lparr>lc_file = p, lc_since = past_versions s p, lc_pc = LStat\<rparr>]\<rparr>)"
  using assms by (auto simp: cache_inv_def)

lemma cache_inv_fresh:
  assumes inv: "cache_inv env s" and at: "call_at i p (LGet m) s" and f: "isFresh (fc_get (cs_cache s) p) m"
  shows "cache_inv env (goto_call i (LReturned (Inr (cf_Certificate (fc_get (cs_cache s) p)))) s)"
proof -
  let ?f = "fc_get (cs_cache s) p"
  obtain cert where cert: "cf_Certificate ?f = Some cert" "modTime ?f = m"
    using f by (auto simp: isFresh_def)
  obtain j where j: "has_time (cs_versions s p) j m" "version_from env (cs_versions s p) j cert"
    using fc_get_set [OF cert(1)] inv cert by (fastforce simp: cache_inv_def entry_ok_def)
  obtain k where k: "has_time (cs_versions s p) k m" "lc_since (cs_calls s ! i) \<le> k"
    using call_ok(2) [OF inv at] by auto
  have "j = k" using has_time_unique [OF j(1) k(1)] inv by (simp add: cache_inv_def)
  then have "version_from env (cs_versions s p) (lc_since (cs_calls s ! i)) cert"
    using version_from_mono [OF j(2)] k(2) by simp
  then show ?thesis by (intro cache_inv_goto [OF inv at]) (simp add: cert)
qed

lemma cache_inv_added:
  assumes inv: "cache_inv env s" and at: "call_at i p (LAdd m cert) s"
  shows "cache_inv env (goto_call i (LReturned (Inr (Some cert)))
    (s\<lparr>cs_cache := fc_add (cs_cache s) p \<lparr>cf_Certificate = Some cert, modTime = m\<rparr>\<rparr>))"
proof -
  let ?f = "\<lparr>cf_Certificate = Some cert, modTime = m\<rparr>"
  obtain j where j: "lc_since (cs_calls s ! i) \<le> j" "has_time (cs_versions s p) j m"
    "version_from env (cs_versions s p) j cert" "Leaf cert \<noteq> None"
    using call_ok(2) [OF inv at] by auto
  then have "entry_ok env (cs_versions s p) ?f" by (auto simp: entry_ok_def)
  then have c: "cache_inv env (s\<lparr>cs_cache := fc_add (cs_cache s) p ?f\<rparr>)"
    using inv by (intro cache_inv_cache) (auto simp: fc_add_def cache_inv_def dest!: set_update)
  have "call_at i p (LAdd m cert) (s\<lparr>cs_cache := fc_add (cs_cache s) p ?f\<rparr>)"
    using at by (simp add: call_at_def)
  then show ?thesis using j(1) version_from_mono [OF j(3)] by (intro cache_inv_goto [OF c]) auto
qed

lemma cache_inv_step:
  assumes "cache_step env l s t" and inv: "cache_inv env s"
  shows "cache_inv env t"
  using assms(1)
proof cases
  case (cleaned now c)
  then show ?thesis using fc_Clean_subset inv by (fastforce simp: cache_inv_def)
next
  case (stat_ok i p m b)
  note cur = current_last [OF stat_ok(4) inv]
  have "pc_ok env (cs_versions s p) (lc_since (cs_calls s ! i)) (LGet m)"
    using call_ok(1) [OF inv stat_ok(3)] cur(3,4) by auto
  then show ?thesis unfolding stat_ok(2) by (rule cache_inv_goto [OF inv stat_ok(3)])
next
  case (get_fresh i p m)
  then show ?thesis using cache_inv_fresh inv by blast
next
  case (get_stale i p m)
  show ?thesis unfolding get_stale(2) using call_ok(2) [OF inv get_stale(3)]
    by (intro cache_inv_goto [OF inv get_stale(3)]) simp
next
  case (read_ok i p m m' b cert)
  note cur = current_last [OF read_ok(4) inv]
  obtain j where j: "lc_since (cs_calls s ! i) \<le> j" "has_time (cs_versions s p) j m"
    using call_ok(2) [OF inv read_ok(3)] by auto
  then have "version_from env (cs_versions s p) j cert"
    using last_version_from [OF cur(2) read_ok(5)] by (simp add: has_time_def)
  then show ?thesis unfolding read_ok(2) using j parse_certificate_Leaf [OF read_ok(5)]
    by (intro cache_inv_goto [OF inv read_ok(3)]) auto
next
  case (added i p m cert)
  then show ?thesis using cache_inv_added inv by blast
qed (use inv in \<open>auto intro: cache_inv_write cache_inv_remove cache_inv_call cache_inv_goto
    dest: call_ok\<close>)

lemma cache_inv_run:
  "run (cache_step env) initial_cache_state ls s \<Longrightarrow> cache_inv env s"
  using run_invariant [where I = "cache_inv env"] cache_inv_initial cache_inv_step by blast

section \<open>The function and the steps\<close>

text \<open>
  The disk of a state. Without other steps in between, the steps of one call compute what
  the function \<open>fc_Load\<close> does.
\<close>

definition disk_of :: "go_error \<Rightarrow> cache_state \<Rightarrow> disk" where
  "disk_of e s = \<lparr>
     os_Stat = (\<lambda>p. case current s p of None \<Rightarrow> Inl e | Some (m, b) \<Rightarrow> Inr m),
     os_ReadFile = (\<lambda>p. case current s p of None \<Rightarrow> Inl e | Some (m, b) \<Rightarrow> Inr b)\<rparr>"

lemma goto_call_frame [simp]:
  "cs_cache (goto_call i pc s) = cs_cache s"
  "current (goto_call i pc s) = current s"
  "call_at i p pc s \<Longrightarrow> call_at i p pc' (goto_call i pc' s)"
  "goto_call i pc (s\<lparr>cs_cache := c\<rparr>) = (goto_call i pc s)\<lparr>cs_cache := c\<rparr>"
  by (auto simp: goto_call_def current_def call_at_def fun_eq_iff)

lemma goto_call_twice [simp]: "goto_call i pc (goto_call i pc' s) = goto_call i pc s"
  by (cases "length (cs_calls s) \<le> i") (simp_all add: goto_call_def list_update_beyond)

lemma goto_call_same_cache [simp]: "(goto_call i pc s)\<lparr>cs_cache := cs_cache s\<rparr> = goto_call i pc s"
  by (simp add: goto_call_def)

text \<open>
  The steps of load number \<open>n\<close> alone: a file is not found, with the error \<open>e\<close>, only if it is
  not there.
\<close>

fun quiet :: "go_error \<Rightarrow> nat \<Rightarrow> cache_state \<Rightarrow> cache_label \<Rightarrow> bool" where
  "quiet e n s (DoStat i) = (i = n)"
| "quiet e n s (DoGet i) = (i = n)"
| "quiet e n s (DoRead i) = (i = n)"
| "quiet e n s (DoAdd i) = (i = n)"
| "quiet e n s (StatFails i err) = (i = n \<and> err = e \<and> current s (lc_file (cs_calls s ! n)) = None)"
| "quiet e n s (ReadFails i err) = (i = n \<and> err = e \<and> current s (lc_file (cs_calls s ! n)) = None)"
| "quiet e n s _ = False"

definition quiet_step :: "crypto_env \<Rightarrow> go_error \<Rightarrow> nat \<Rightarrow> cache_label \<Rightarrow> cache_state \<Rightarrow> cache_state \<Rightarrow> bool" where
  "quiet_step env e n l s t \<longleftrightarrow> cache_step env l s t \<and> quiet e n s l"

lemma quiet_step_at: "quiet_step env e n l s t \<Longrightarrow> n < length (cs_calls s) \<and> (\<forall>r. lc_pc (cs_calls s ! n) \<noteq> LReturned r)"
  unfolding quiet_step_def by (elim conjE, erule cache_stepE) (auto simp: call_at_def)

lemma quiet_step_deterministic:
  assumes "quiet_step env e n l s t" and "quiet_step env e n l' s t'"
  shows "l = l' \<and> t = t'"
proof -
  have "n < length (cs_calls s)" using quiet_step_at [OF assms(1)] by simp
  then show ?thesis using assms unfolding quiet_step_def
    by (elim conjE; cases "lc_pc (cs_calls s ! n)"; elim cache_stepE; simp add: call_at_def)
qed

lemma Load_steps:
  assumes at: "call_at i p LStat s" and L: "fc_Load env (disk_of e s) (cs_cache s) p = Some (r, c)"
  shows "\<exists>ls. run (quiet_step env e i) s ls ((goto_call i (LReturned r) s)\<lparr>cs_cache := c\<rparr>)"
proof (cases "current s p")
  case None
  then have "r = Inl e" "c = cs_cache s" using L by (simp_all add: fc_Load_def disk_of_def)
  moreover have "quiet_step env e i (StatFails i e) s (goto_call i (LReturned (Inl e)) s)"
    using stat_fails [OF at, of env e] None at by (simp add: quiet_step_def call_at_def)
  ultimately show ?thesis
    by (intro exI [of _ "[StatFails i e]"]) (simp add: run_Cons_iff run_Nil_iff)
next
  case (Some mb)
  then obtain m b where cur: "current s p = Some (m, b)" by (cases mb) auto
  let ?s = "goto_call i (LGet m) s" and ?s' = "goto_call i (LRead m) s"
  have get: "quiet_step env e i (DoStat i) s ?s" using stat_ok [OF at cur] by (simp add: quiet_step_def)
  note at' = goto_call_frame(3) [OF at, of "LGet m"]
  show ?thesis
  proof (cases "isFresh (fc_get (cs_cache s) p) m")
    case True
    then have "r = Inr (cf_Certificate (fc_get (cs_cache s) p))" "c = cs_cache s"
      using L cur by (auto simp: fc_Load_def disk_of_def Let_def)
    then show ?thesis using get get_fresh [OF at', of env] True
      by (intro exI [of _ "[DoStat i, DoGet i]"]) (auto simp: run_Cons_iff run_Nil_iff quiet_step_def)
  next
    case False
    then have "quiet_step env e i (DoGet i) ?s ?s'"
      using get_stale [OF at', of env] by (simp add: quiet_step_def)
    note pre = get this
    note at'' = goto_call_frame(3) [OF at, of "LRead m"]
    have cur': "current ?s' p = Some (m, b)" using cur by simp
    obtain pr where pr: "parse_certificate env b = Some pr"
      and rc: "case pr of Inl err \<Rightarrow> r = Inl err \<and> c = cs_cache s
        | Inr cert \<Rightarrow> r = Inr (Some cert) \<and>
            c = fc_add (cs_cache s) p \<lparr>cf_Certificate = Some cert, modTime = m\<rparr>"
      using L cur False
      by (auto simp: fc_Load_def disk_of_def Let_def LoadCertificate_def split: option.splits sum.splits)
    show ?thesis
    proof (cases pr)
      case (Inl err)
      then have "quiet_step env e i (DoRead i) ?s' (goto_call i (LReturned r) s)"
        using read_invalid [OF at'' cur', of env err] pr rc by (simp add: quiet_step_def)
      then show ?thesis using pre rc Inl
        by (intro exI [of _ "[DoStat i, DoGet i, DoRead i]"]) (auto simp: run_Cons_iff run_Nil_iff)
    next
      case (Inr cert)
      have "quiet_step env e i (DoRead i) ?s' (goto_call i (LAdd m cert) s)"
        using read_ok [OF at'' cur', of env cert] pr Inr by (simp add: quiet_step_def)
      moreover have "quiet_step env e i (DoAdd i) (goto_call i (LAdd m cert) s)
          ((goto_call i (LReturned r) s)\<lparr>cs_cache := c\<rparr>)"
        using added [OF goto_call_frame(3) [OF at, of "LAdd m cert"], of env] rc Inr
        by (simp add: quiet_step_def)
      ultimately show ?thesis using pre
        by (intro exI [of _ "[DoStat i, DoGet i, DoRead i, DoAdd i]"])
          (auto simp: run_Cons_iff run_Nil_iff)
    qed
  qed
qed

lemma quiet_run: "run (quiet_step env e i) s ls t \<Longrightarrow> run (cache_step env) s ls t"
  by (erule run_mono) (simp add: quiet_step_def)

text \<open>An instance: one file, loaded once.\<close>

definition demo_called :: cache_state where
  "demo_called = \<lparr>cs_versions = (\<lambda>p. if p = ''/c'' then [(100, demo_pem)] else []),
     cs_present = (\<lambda>p. if p = ''/c'' then True else False), cs_cache = [],
     cs_calls = [\<lparr>lc_file = ''/c'', lc_since = 0, lc_pc = LStat\<rparr>]\<rparr>"

definition demo_cache :: fileCache where
  "demo_cache = [(''/c'', \<lparr>cf_Certificate = Some demo_cert, modTime = 100\<rparr>)]"

definition demo_loaded :: cache_state where
  "demo_loaded = (goto_call 0 (LReturned (Inr (Some demo_cert))) demo_called)\<lparr>cs_cache := demo_cache\<rparr>"

lemma demo_called_at: "call_at 0 ''/c'' LStat demo_called"
  by (simp add: call_at_def demo_called_def)

lemma demo_load:
  "fc_Load demo_crypto (disk_of (SysError ''gone'') demo_called) [] ''/c'' = Some (Inr (Some demo_cert), demo_cache)"
proof -
  have "parse_certificate demo_crypto demo_pem = Some (Inr demo_cert)" by code_simp
  then show ?thesis
    by (simp add: fc_Load_def disk_of_def demo_called_def current_def fc_get_def no_cachedFile_def
        isFresh_def LoadCertificate_def fc_add_def demo_cache_def)
qed

lemma demo_loaded_run: "\<exists>ls. run (cache_step demo_crypto) initial_cache_state ls demo_loaded"
proof -
  let ?w = "initial_cache_state\<lparr>cs_versions := (cs_versions initial_cache_state)(''/c'' := [] @ [(100, demo_pem)]),
    cs_present := (cs_present initial_cache_state)(''/c'' := True)\<rparr>"
  have "cache_step demo_crypto (WriteFile ''/c'' 100 demo_pem) initial_cache_state ?w"
    using file_written [of 100 initial_cache_state "''/c''" demo_crypto demo_pem]
    by (simp add: initial_cache_state_def)
  moreover have "cache_step demo_crypto (CallLoad ''/c'') ?w demo_called"
    using called [of demo_crypto "''/c''" ?w]
    by (simp add: initial_cache_state_def demo_called_def past_versions_def newFileCache_def fun_upd_def)
  moreover obtain ls where "run (cache_step demo_crypto) demo_called ls demo_loaded"
    using Load_steps [OF demo_called_at, of demo_crypto "SysError ''gone''"] demo_load quiet_run
    by (fastforce simp: demo_loaded_def demo_called_def)
  ultimately show ?thesis
    by (intro exI [of _ "WriteFile ''/c'' 100 demo_pem # CallLoad ''/c'' # ls"])
      (auto simp: run_Cons_iff)
qed

section \<open>Properties\<close>

text \<open>
  C3: The cache never serves a stale or a made-up certificate. Whatever loads, cleanings
  and changes of files interleave, each change with a new modification time, a call of \<^verbatim>\<open>Load\<close> that has returned a certificate
  returned one that a version of the file parses to that was current at some moment after
  the call was made (as it holds in every reachable state, in particular when the call
  returns, that version was written before the return).
\<close>

theorem fc_Load_linearizable:
  assumes "run (cache_step env) initial_cache_state ls s"
    and "c \<in> set (cs_calls s)" and "lc_pc c = LReturned (Inr co)"
  shows "\<exists>cert m b. co = Some cert \<and> (m, b) \<in> set (drop (lc_since c) (cs_versions s (lc_file c)))
    \<and> parse_certificate env b = Some (Inr cert)"
  using cache_inv_run [OF assms(1)] assms(2,3) by (fastforce simp: cache_inv_def version_from_def)

theorem fc_Load_linearizable_witness:
  "\<exists>m b. (m, b) \<in> set (cs_versions demo_loaded ''/c'') \<and> parse_certificate demo_crypto b = Some (Inr demo_cert)"
proof -
  obtain ls where r: "run (cache_step demo_crypto) initial_cache_state ls demo_loaded"
    using demo_loaded_run ..
  show ?thesis
    using fc_Load_linearizable [OF r, of "cs_calls demo_loaded ! 0" "Some demo_cert"]
    by (simp add: demo_loaded_def goto_call_def demo_called_def)
qed

text \<open>
  C35: Cleaning the cache cannot fail: in every reachable state \<^verbatim>\<open>Clean\<close> dereferences no
  nil pointer, removes exactly the certificates that have expired and keeps the others.
\<close>

theorem fc_Clean_safe:
  assumes "run (cache_step env) initial_cache_state ls s"
  shows "fc_Clean now (cs_cache s) =
    Inr (filter (\<lambda>(p, f). now \<le> NotAfter (the (Leaf (the (cf_Certificate f))))) (cs_cache s))"
proof (rule fc_Clean_filter, rule ballI)
  fix x assume "x \<in> set (cs_cache s)"
  then show "case x of (p, f) \<Rightarrow> \<exists>crt leaf. cf_Certificate f = Some crt \<and> Leaf crt = Some leaf"
    using cache_inv_run [OF assms] by (fastforce simp: cache_inv_def entry_ok_def)
qed

theorem fc_Clean_safe_witness: "fc_Clean 70 (cs_cache demo_loaded) = Inr []"
proof -
  obtain ls where "run (cache_step demo_crypto) initial_cache_state ls demo_loaded"
    using demo_loaded_run ..
  from fc_Clean_safe [OF this, of 70] show ?thesis
    by (simp add: demo_loaded_def demo_cache_def demo_cert_def)
qed

text \<open>
  Without interference the step by step calls are the sequential \<^verbatim>\<open>Load\<close>: from any
  state with a call about to begin, some run of that call's steps ends with the result and
  the cache that \<open>fc_Load\<close> gives on the disk of that state.
\<close>

theorem fc_Load_refined_by_steps:
  assumes "call_at i p LStat s" and "fc_Load env (disk_of e s) (cs_cache s) p = Some (r, c)"
  shows "\<exists>ls t. run (cache_step env) s ls t \<and> call_at i p (LReturned r) t \<and> cs_cache t = c
    \<and> cs_versions t = cs_versions s \<and> cs_present t = cs_present s"
proof -
  obtain ls where "run (cache_step env) s ls ((goto_call i (LReturned r) s)\<lparr>cs_cache := c\<rparr>)"
    using Load_steps [OF assms] quiet_run by blast
  moreover have "call_at i p (LReturned r) ((goto_call i (LReturned r) s)\<lparr>cs_cache := c\<rparr>)"
    using goto_call_frame(3) [OF assms(1), of "LReturned r"] by (simp add: call_at_def)
  ultimately show ?thesis
    by (intro exI [of _ ls] exI [of _ "(goto_call i (LReturned r) s)\<lparr>cs_cache := c\<rparr>"])
      (simp add: goto_call_def)
qed

text \<open>
  A loaded certificate is served from memory as long as the modification time stays the
  same: the next \<^verbatim>\<open>Load\<close> returns the same certificate whatever reading the file would
  give, and leaves the cache as it is; a load of another file does not disturb it.
\<close>

theorem fc_Load_hit:
  assumes "fc_Load env d c p = Some (Inr co, c')" and "os_Stat d' p = os_Stat d p"
  shows "fc_Load env d' c' p = Some (Inr co, c') \<and> (\<forall>q. q \<noteq> p \<longrightarrow> fc_get c' q = fc_get c q)"
  using assms
  by (auto simp: fc_Load_def Let_def isFresh_def split: sum.splits option.splits if_splits)

end
