(* ===== verification/Cert_KeyType.thy ===== *)
theory Cert_KeyType
  imports Go_Prelude
begin

text \<open>
  \<^verbatim>\<open>cert/keytype.go\<close>: which kinds of key the client accepts, from the signature
  schemes of its hello or, when it sent none, from its cipher suites.
\<close>

section \<open>Constants of crypto/tls\<close>

type_synonym SignatureScheme = uint16

named_theorems tls_consts \<open>values of the schemes and suites\<close>

definition PKCS1WithSHA1 :: SignatureScheme where [tls_consts]: "PKCS1WithSHA1 = 0x0201"
definition PKCS1WithSHA256 :: SignatureScheme where [tls_consts]: "PKCS1WithSHA256 = 0x0401"
definition PKCS1WithSHA384 :: SignatureScheme where [tls_consts]: "PKCS1WithSHA384 = 0x0501"
definition PKCS1WithSHA512 :: SignatureScheme where [tls_consts]: "PKCS1WithSHA512 = 0x0601"
definition PSSWithSHA256 :: SignatureScheme where [tls_consts]: "PSSWithSHA256 = 0x0804"
definition PSSWithSHA384 :: SignatureScheme where [tls_consts]: "PSSWithSHA384 = 0x0805"
definition PSSWithSHA512 :: SignatureScheme where [tls_consts]: "PSSWithSHA512 = 0x0806"
definition ECDSAWithSHA1 :: SignatureScheme where [tls_consts]: "ECDSAWithSHA1 = 0x0203"
definition ECDSAWithP256AndSHA256 :: SignatureScheme where
  [tls_consts]: "ECDSAWithP256AndSHA256 = 0x0403"
definition ECDSAWithP384AndSHA384 :: SignatureScheme where
  [tls_consts]: "ECDSAWithP384AndSHA384 = 0x0503"
definition ECDSAWithP521AndSHA512 :: SignatureScheme where
  [tls_consts]: "ECDSAWithP521AndSHA512 = 0x0603"

definition TLS_RSA_WITH_RC4_128_SHA :: uint16 where [tls_consts]: "TLS_RSA_WITH_RC4_128_SHA = 0x0005"
definition TLS_RSA_WITH_3DES_EDE_CBC_SHA :: uint16 where
  [tls_consts]: "TLS_RSA_WITH_3DES_EDE_CBC_SHA = 0x000a"
definition TLS_RSA_WITH_AES_128_CBC_SHA :: uint16 where
  [tls_consts]: "TLS_RSA_WITH_AES_128_CBC_SHA = 0x002f"
definition TLS_RSA_WITH_AES_256_CBC_SHA :: uint16 where
  [tls_consts]: "TLS_RSA_WITH_AES_256_CBC_SHA = 0x0035"
definition TLS_RSA_WITH_AES_128_CBC_SHA256 :: uint16 where
  [tls_consts]: "TLS_RSA_WITH_AES_128_CBC_SHA256 = 0x003c"
definition TLS_RSA_WITH_AES_128_GCM_SHA256 :: uint16 where
  [tls_consts]: "TLS_RSA_WITH_AES_128_GCM_SHA256 = 0x009c"
definition TLS_RSA_WITH_AES_256_GCM_SHA384 :: uint16 where
  [tls_consts]: "TLS_RSA_WITH_AES_256_GCM_SHA384 = 0x009d"
definition TLS_ECDHE_ECDSA_WITH_RC4_128_SHA :: uint16 where
  [tls_consts]: "TLS_ECDHE_ECDSA_WITH_RC4_128_SHA = 0xc007"
definition TLS_ECDHE_ECDSA_WITH_AES_128_CBC_SHA :: uint16 where
  [tls_consts]: "TLS_ECDHE_ECDSA_WITH_AES_128_CBC_SHA = 0xc009"
definition TLS_ECDHE_ECDSA_WITH_AES_256_CBC_SHA :: uint16 where
  [tls_consts]: "TLS_ECDHE_ECDSA_WITH_AES_256_CBC_SHA = 0xc00a"
definition TLS_ECDHE_RSA_WITH_RC4_128_SHA :: uint16 where
  [tls_consts]: "TLS_ECDHE_RSA_WITH_RC4_128_SHA = 0xc011"
definition TLS_ECDHE_RSA_WITH_3DES_EDE_CBC_SHA :: uint16 where
  [tls_consts]: "TLS_ECDHE_RSA_WITH_3DES_EDE_CBC_SHA = 0xc012"
definition TLS_ECDHE_RSA_WITH_AES_128_CBC_SHA :: uint16 where
  [tls_consts]: "TLS_ECDHE_RSA_WITH_AES_128_CBC_SHA = 0xc013"
definition TLS_ECDHE_RSA_WITH_AES_256_CBC_SHA :: uint16 where
  [tls_consts]: "TLS_ECDHE_RSA_WITH_AES_256_CBC_SHA = 0xc014"
definition TLS_ECDHE_ECDSA_WITH_AES_128_CBC_SHA256 :: uint16 where
  [tls_consts]: "TLS_ECDHE_ECDSA_WITH_AES_128_CBC_SHA256 = 0xc023"
definition TLS_ECDHE_RSA_WITH_AES_128_CBC_SHA256 :: uint16 where
  [tls_consts]: "TLS_ECDHE_RSA_WITH_AES_128_CBC_SHA256 = 0xc027"
definition TLS_ECDHE_RSA_WITH_AES_128_GCM_SHA256 :: uint16 where
  [tls_consts]: "TLS_ECDHE_RSA_WITH_AES_128_GCM_SHA256 = 0xc02f"
definition TLS_ECDHE_ECDSA_WITH_AES_128_GCM_SHA256 :: uint16 where
  [tls_consts]: "TLS_ECDHE_ECDSA_WITH_AES_128_GCM_SHA256 = 0xc02b"
definition TLS_ECDHE_RSA_WITH_AES_256_GCM_SHA384 :: uint16 where
  [tls_consts]: "TLS_ECDHE_RSA_WITH_AES_256_GCM_SHA384 = 0xc030"
definition TLS_ECDHE_ECDSA_WITH_AES_256_GCM_SHA384 :: uint16 where
  [tls_consts]: "TLS_ECDHE_ECDSA_WITH_AES_256_GCM_SHA384 = 0xc02c"
definition TLS_ECDHE_RSA_WITH_CHACHA20_POLY1305_SHA256 :: uint16 where
  [tls_consts]: "TLS_ECDHE_RSA_WITH_CHACHA20_POLY1305_SHA256 = 0xcca8"
definition TLS_ECDHE_ECDSA_WITH_CHACHA20_POLY1305_SHA256 :: uint16 where
  [tls_consts]: "TLS_ECDHE_ECDSA_WITH_CHACHA20_POLY1305_SHA256 = 0xcca9"

section \<open>The client hello\<close>

text \<open>
  The fields of \<^verbatim>\<open>tls.ClientHelloInfo\<close> that the library reads; a nil slice of
  signature schemes, which a client that does not send the extension leaves, is
  \<open>None\<close>.
\<close>

record ClientHelloInfo =
  ServerName :: string
  SignatureSchemes :: "SignatureScheme list option"
  CipherSuites :: "uint16 list"

section \<open>Key types\<close>

datatype keyTypes = KeyTypes (rsa: bool) (ecdsa: bool)

text \<open>The zero value of the struct, and assignments to its fields.\<close>

definition no_keyTypes :: keyTypes where "no_keyTypes = KeyTypes False False"

definition set_ecdsa :: "keyTypes \<Rightarrow> keyTypes" where "set_ecdsa types = KeyTypes (rsa types) True"
definition set_rsa :: "keyTypes \<Rightarrow> keyTypes" where "set_rsa types = KeyTypes True (ecdsa types)"

definition keyTypesForSignatureSchemes :: "SignatureScheme list \<Rightarrow> keyTypes" where
  "keyTypesForSignatureSchemes schemes =
     fold (\<lambda>scheme types.
       if scheme \<in> set [ECDSAWithSHA1, ECDSAWithP256AndSHA256, ECDSAWithP384AndSHA384,
           ECDSAWithP521AndSHA512] then set_ecdsa types
       else if scheme \<in> set [PKCS1WithSHA1, PKCS1WithSHA256, PKCS1WithSHA384, PKCS1WithSHA512,
           PSSWithSHA256, PSSWithSHA384, PSSWithSHA512] then set_rsa types
       else types) schemes no_keyTypes"

definition keyTypesForCipherSuites :: "uint16 list \<Rightarrow> keyTypes" where
  "keyTypesForCipherSuites suites =
     fold (\<lambda>suite types.
       if suite \<in> set [TLS_ECDHE_ECDSA_WITH_RC4_128_SHA, TLS_ECDHE_ECDSA_WITH_AES_128_CBC_SHA,
           TLS_ECDHE_ECDSA_WITH_AES_256_CBC_SHA, TLS_ECDHE_ECDSA_WITH_AES_128_CBC_SHA256,
           TLS_ECDHE_ECDSA_WITH_AES_128_GCM_SHA256, TLS_ECDHE_ECDSA_WITH_AES_256_GCM_SHA384,
           TLS_ECDHE_ECDSA_WITH_CHACHA20_POLY1305_SHA256] then set_ecdsa types
       else if suite \<in> set [TLS_RSA_WITH_RC4_128_SHA, TLS_RSA_WITH_3DES_EDE_CBC_SHA,
           TLS_RSA_WITH_AES_128_CBC_SHA, TLS_RSA_WITH_AES_256_CBC_SHA,
           TLS_RSA_WITH_AES_128_CBC_SHA256, TLS_RSA_WITH_AES_128_GCM_SHA256,
           TLS_RSA_WITH_AES_256_GCM_SHA384, TLS_ECDHE_RSA_WITH_RC4_128_SHA,
           TLS_ECDHE_RSA_WITH_3DES_EDE_CBC_SHA, TLS_ECDHE_RSA_WITH_AES_128_CBC_SHA,
           TLS_ECDHE_RSA_WITH_AES_256_CBC_SHA, TLS_ECDHE_RSA_WITH_AES_128_CBC_SHA256,
           TLS_ECDHE_RSA_WITH_AES_128_GCM_SHA256, TLS_ECDHE_RSA_WITH_AES_256_GCM_SHA384,
           TLS_ECDHE_RSA_WITH_CHACHA20_POLY1305_SHA256] then set_rsa types
       else types) suites no_keyTypes"

definition getSupportedKeyTypes :: "ClientHelloInfo \<Rightarrow> keyTypes" where
  "getSupportedKeyTypes clientHello =
     (case SignatureSchemes clientHello of
        Some schemes \<Rightarrow> keyTypesForSignatureSchemes schemes
      | None \<Rightarrow> keyTypesForCipherSuites (CipherSuites clientHello))"

section \<open>Key types as a semilattice\<close>

text \<open>One set of key types is below another if it allows no more.\<close>

instantiation keyTypes :: bounded_semilattice_sup_bot
begin

definition less_eq_keyTypes :: "keyTypes \<Rightarrow> keyTypes \<Rightarrow> bool" where
  "less_eq_keyTypes a b \<longleftrightarrow> (rsa a \<longrightarrow> rsa b) \<and> (ecdsa a \<longrightarrow> ecdsa b)"

definition less_keyTypes :: "keyTypes \<Rightarrow> keyTypes \<Rightarrow> bool" where
  "less_keyTypes a b \<longleftrightarrow> a \<le> b \<and> a \<noteq> b"

definition sup_keyTypes :: "keyTypes \<Rightarrow> keyTypes \<Rightarrow> keyTypes" where
  "sup_keyTypes a b = KeyTypes (rsa a \<or> rsa b) (ecdsa a \<or> ecdsa b)"

definition bot_keyTypes :: keyTypes where "bot_keyTypes = no_keyTypes"

instance
  by standard (auto simp: less_eq_keyTypes_def less_keyTypes_def sup_keyTypes_def bot_keyTypes_def
      no_keyTypes_def intro: keyTypes.expand)

end

lemma keyTypes_sup_sel [simp]: "rsa (sup a b) = (rsa a \<or> rsa b)" "ecdsa (sup a b) = (ecdsa a \<or> ecdsa b)"
  by (simp_all add: sup_keyTypes_def)

text \<open>What one scheme or suite adds.\<close>

definition scheme_key :: "SignatureScheme \<Rightarrow> keyTypes" where
  "scheme_key s = keyTypesForSignatureSchemes [s]"

definition suite_key :: "uint16 \<Rightarrow> keyTypes" where
  "suite_key s = keyTypesForCipherSuites [s]"

lemma fold_flags:
  assumes "\<And>x t. f x t = (if P x then set_ecdsa t else if Q x then set_rsa t else t)"
  shows "fold f xs t = sup t (KeyTypes (\<exists>x \<in> set xs. \<not> P x \<and> Q x) (\<exists>x \<in> set xs. P x))"
  using assms
  by (induction xs arbitrary: t)
    (auto simp: sup_keyTypes_def set_ecdsa_def set_rsa_def intro: keyTypes.expand)

lemmas keyTypes_folds =
  keyTypesForSignatureSchemes_def [unfolded fold_flags [OF refl]]
  keyTypesForCipherSuites_def [unfolded fold_flags [OF refl]]

lemma keyTypes_any:
  "ecdsa (keyTypesForSignatureSchemes ss) \<longleftrightarrow> (\<exists>s \<in> set ss. ecdsa (scheme_key s))"
  "rsa (keyTypesForSignatureSchemes ss) \<longleftrightarrow> (\<exists>s \<in> set ss. rsa (scheme_key s))"
  "ecdsa (keyTypesForCipherSuites cs) \<longleftrightarrow> (\<exists>s \<in> set cs. ecdsa (suite_key s))"
  "rsa (keyTypesForCipherSuites cs) \<longleftrightarrow> (\<exists>s \<in> set cs. rsa (suite_key s))"
  unfolding scheme_key_def suite_key_def
  by (simp_all only: keyTypes_folds keyTypes_sup_sel no_keyTypes_def keyTypes.sel) auto

end
