(* ===== verification/Cert_Dir.thy ===== *)
theory Cert_Dir
  imports Cert_Cache Cert_KeyType Go_Strings
begin

text \<open>
  \<^verbatim>\<open>cert/dir.go\<close>: the choice of a certificate file for the name the client asks for.
  The search is written over the function that loads one file, so that what it depends on
  can be said; \<open>dir_loadCertificate\<close> is the one the code passes.
\<close>

section \<open>Operations\<close>

record directory =
  Path :: string
  Cache :: "fileCache option"

definition dir_loadCertificate ::
  "crypto_env \<Rightarrow> disk \<Rightarrow> string \<Rightarrow> directory \<Rightarrow> ((go_error + tls_certificate option) \<times> directory) option"
where
  "dir_loadCertificate env d filename dir =
     (let fullpath = filepath_Join (Path dir) filename
      in case Cache dir of
           Some c \<Rightarrow> map_option (\<lambda>(r, c). (r, dir\<lparr>Cache := Some c\<rparr>)) (fc_Load env d c fullpath)
         | None \<Rightarrow> map_option (\<lambda>r. (map_sum id Some r, dir)) (LoadCertificate env (os_ReadFile d) fullpath))"

text \<open>
  One attempt: a certificate is returned, after an error (which would at most be logged) the
  search goes on.
\<close>

definition dir_try ::
  "(string \<Rightarrow> 's \<Rightarrow> ((go_error + 'c) \<times> 's) option) \<Rightarrow> string \<Rightarrow>
   ('s \<Rightarrow> ((go_error + 'c) \<times> 's) option) \<Rightarrow> 's \<Rightarrow> ((go_error + 'c) \<times> 's) option"
where
  "dir_try load filename next s =
     (case load filename s of
        None \<Rightarrow> None
      | Some (Inr cert, s') \<Rightarrow> Some (Inr cert, s')
      | Some (Inl err, s') \<Rightarrow> next s')"

definition serverNameSuffix :: "string \<Rightarrow> string" where
  "serverNameSuffix serverName =
     (case strings_IndexByte serverName CHR ''.'' of None \<Rightarrow> [] | Some dot \<Rightarrow> drop dot serverName)"

definition dir_GetCertificate ::
  "(string \<Rightarrow> 's \<Rightarrow> ((go_error + 'c) \<times> 's) option) \<Rightarrow> ClientHelloInfo \<Rightarrow> 's \<Rightarrow>
   ((go_error + 'c) \<times> 's) option"
where
  "dir_GetCertificate load hello s =
     (let serverName = ServerName hello
      in if serverName = [] then
           Some (Inl (ErrorsNew ''go-listener: client does not support SNI''), s)
         else if hd serverName = CHR ''.'' \<or> strings_IndexByte serverName CHR ''/'' \<noteq> None then
           Some (Inl (ErrorsNew ''go-listener: client sent an invalid server name''), s)
         else
           (let suffix = serverNameSuffix serverName;
                keyTypes = getSupportedKeyTypes hello;
                none = (\<lambda>s. Some (Inl (Errorf ''go-listener: no certificate found for %q''
                                       [ArgStr serverName]), s));
                plain = dir_try load (serverName @ ''.pem'')
                          (dir_try load (''_'' @ suffix @ ''.pem'') none);
                after_ecdsa = (if rsa keyTypes
                  then dir_try load (serverName @ ''.pem.rsa'')
                         (dir_try load (''_'' @ suffix @ ''.pem.rsa'') plain)
                  else plain);
                search = (if ecdsa keyTypes
                  then dir_try load (serverName @ ''.pem.ecdsa'')
                         (dir_try load (''_'' @ suffix @ ''.pem.ecdsa'') after_ecdsa)
                  else after_ecdsa)
            in search s))"

section \<open>The documented search order\<close>

text \<open>
  The wildcard name: the first label replaced with an underscore. The candidates, in the
  order of the comment of \<^verbatim>\<open>GetCertificateFromDirectory\<close>.
\<close>

definition wildcard_name :: "string \<Rightarrow> string" where
  "wildcard_name serverName =
     strings_Join (''_'' # tl (strings_Split CHR ''.'' serverName)) CHR ''.''"

definition candidates :: "ClientHelloInfo \<Rightarrow> string list" where
  "candidates hello =
     (let names = [ServerName hello, wildcard_name (ServerName hello)];
          types = getSupportedKeyTypes hello
      in concat (map (\<lambda>ext. map (\<lambda>n. n @ ext) names)
           ((if ecdsa types then [''.pem.ecdsa''] else []) @
            (if rsa types then [''.pem.rsa''] else []) @ [''.pem''])))"

definition valid_server_name :: "string \<Rightarrow> bool" where
  "valid_server_name n \<longleftrightarrow> n \<noteq> [] \<and> hd n \<noteq> CHR ''.'' \<and> CHR ''/'' \<notin> set n"

text \<open>The first file that loads.\<close>

fun first_loaded ::
  "(string \<Rightarrow> 's \<Rightarrow> ((go_error + 'c) \<times> 's) option) \<Rightarrow> go_error \<Rightarrow> string list \<Rightarrow> 's \<Rightarrow>
   ((go_error + 'c) \<times> 's) option"
where
  "first_loaded load err [] s = Some (Inl err, s)"
| "first_loaded load err (f # fs) s = dir_try load f (first_loaded load err fs) s"

lemma wildcard_name_eq: "wildcard_name n = ''_'' @ serverNameSuffix n"
proof (cases "strings_IndexByte n CHR ''.''")
  case None
  then have "strings_Split CHR ''.'' n = [n]" by (simp add: Split_no_sep)
  then show ?thesis by (simp add: wildcard_name_def serverNameSuffix_def None del: IndexByte_None_iff)
next
  case (Some i)
  note IndexByte_SomeD [OF Some]
  then have n: "n = take i n @ CHR ''.'' # drop (Suc i) n" and c: "CHR ''.'' \<notin> set (take i n)"
    and i: "drop i n = CHR ''.'' # drop (Suc i) n"
    by (auto simp flip: Cons_nth_drop_Suc)
  have "strings_Split CHR ''.'' n = take i n # strings_Split CHR ''.'' (drop (Suc i) n)"
    by (subst n) (simp add: Split_append_sep Split_no_sep [OF c])
  then show ?thesis using Some i by (simp add: wildcard_name_def serverNameSuffix_def Join_Cons)
qed

lemma dir_GetCertificate_candidates:
  "dir_GetCertificate load hello s =
     (if valid_server_name (ServerName hello)
      then first_loaded load (Errorf ''go-listener: no certificate found for %q''
             [ArgStr (ServerName hello)]) (candidates hello) s
      else Some (Inl (ErrorsNew (if ServerName hello = [] then ''go-listener: client does not support SNI''
             else ''go-listener: client sent an invalid server name'')), s))"
proof -
  have "first_loaded load err [] = (\<lambda>s. Some (Inl err, s))" for err
    by (simp add: fun_eq_iff)
  moreover have "first_loaded load err (f # fs) = dir_try load f (first_loaded load err fs)" for err f fs
    by (simp add: fun_eq_iff)
  ultimately show ?thesis
    by (simp add: dir_GetCertificate_def valid_server_name_def candidates_def Let_def
        wildcard_name_eq del: first_loaded.simps)
qed

section \<open>Which files are looked at\<close>

lemma set_Suffix: "set (serverNameSuffix n) \<subseteq> set n"
  by (auto simp: serverNameSuffix_def dest: in_set_dropD split: option.splits)

lemma candidates_file_names:
  assumes "valid_server_name (ServerName hello)" and "f \<in> set (candidates hello)"
  shows "is_file_name f"
  using assms set_Suffix [of "ServerName hello"]
  by (cases "ServerName hello")
    (auto simp: candidates_def Let_def valid_server_name_def is_file_name_def wildcard_name_eq
      split: if_splits)

lemma dir_try_cong:
  assumes "load f s = load' f s" and "\<And>r s'. load f s = Some (r, s') \<Longrightarrow> next s' = next' s'"
  shows "dir_try load f next s = dir_try load' f next' s"
  using assms by (auto simp: dir_try_def split: option.splits sum.splits)

text \<open>
  The search is the same for two loaders that agree on file names, in the states the search
  goes through.
\<close>

lemma first_loaded_cong:
  assumes "\<And>f s. is_file_name f \<Longrightarrow> Q s \<Longrightarrow> load f s = load' f s"
    and "\<And>f s r s'. Q s \<Longrightarrow> load f s = Some (r, s') \<Longrightarrow> Q s'"
    and "\<forall>f \<in> set fs. is_file_name f" and "Q s"
  shows "first_loaded load err fs s = first_loaded load' err fs s"
  using assms(3,4) by (induction fs arbitrary: s) (auto intro!: dir_try_cong assms(1) dest: assms(2))

text \<open>A path that names a direct child of a directory.\<close>

definition child_of :: "string \<Rightarrow> string \<Rightarrow> bool" where
  "child_of dir p \<longleftrightarrow> path_rooted p = path_rooted dir \<and>
     (\<exists>f. is_file_name f \<and> path_comps p = path_comps dir @ [f])"

lemma child_of_Join: "d \<noteq> [] \<Longrightarrow> is_file_name f \<Longrightarrow> child_of d (filepath_Join d f)"
  by (auto simp: child_of_def path_of_Join_child)

definition same_children :: "string \<Rightarrow> disk \<Rightarrow> disk \<Rightarrow> bool" where
  "same_children dir d d' \<longleftrightarrow>
     (\<forall>p. child_of dir p \<longrightarrow> os_Stat d p = os_Stat d' p \<and> os_ReadFile d p = os_ReadFile d' p)"

lemma dir_loadCertificate_children:
  assumes "same_children (Path dir) d d'" and "Path dir \<noteq> []" and "is_file_name f"
  shows "dir_loadCertificate env d f dir = dir_loadCertificate env d' f dir"
proof -
  let ?p = "filepath_Join (Path dir) f"
  have "os_Stat d ?p = os_Stat d' ?p" "os_ReadFile d ?p = os_ReadFile d' ?p"
    using assms child_of_Join [OF assms(2,3)] by (simp_all add: same_children_def)
  note eq = this
  have "LoadCertificate env (os_ReadFile d) ?p = LoadCertificate env (os_ReadFile d') ?p"
    "fc_Load env d c ?p = fc_Load env d' c ?p" for c
    unfolding LoadCertificate_def fc_Load_def eq by (rule refl)+
  then show ?thesis by (simp only: dir_loadCertificate_def Let_def)
qed

lemma dir_loadCertificate_Path:
  "dir_loadCertificate env d f dir = Some (r, dir') \<Longrightarrow> Path dir' = Path dir"
  by (auto simp: dir_loadCertificate_def Let_def split: option.splits)

text \<open>What is returned was loaded from one of the candidates.\<close>

lemma first_loaded_source:
  assumes "first_loaded load err fs s = Some (Inr cert, t)" and "Q s"
    and "\<And>f s r s'. Q s \<Longrightarrow> load f s = Some (r, s') \<Longrightarrow> Q s'"
  shows "\<exists>f \<in> set fs. \<exists>u. Q u \<and> load f u = Some (Inr cert, t)"
  using assms(1,2)
proof (induction fs arbitrary: s)
  case (Cons f fs)
  then obtain r u where l: "load f s = Some (r, u)"
    by (auto simp: dir_try_def split: option.splits)
  show ?case
  proof (cases r)
    case (Inl e)
    with l Cons.prems have "first_loaded load err fs u = Some (Inr cert, t)" by (simp add: dir_try_def)
    from Cons.IH [OF this assms(3) [OF Cons.prems(2) l]] show ?thesis by auto
  next
    case (Inr c)
    with l Cons.prems show ?thesis by (auto simp: dir_try_def)
  qed
qed simp

text \<open>
  What the client offered: a signature scheme or, if it sent none, a cipher suite that gives
  a key type.
\<close>

definition offers :: "(keyTypes \<Rightarrow> bool) \<Rightarrow> ClientHelloInfo \<Rightarrow> bool" where
  "offers k hello \<longleftrightarrow>
     (case SignatureSchemes hello of
        Some ss \<Rightarrow> \<exists>x \<in> set ss. k (scheme_key x)
      | None \<Rightarrow> \<exists>x \<in> set (CipherSuites hello). k (suite_key x))"

lemma getSupportedKeyTypes_offers:
  "ecdsa (getSupportedKeyTypes hello) = offers ecdsa hello"
  "rsa (getSupportedKeyTypes hello) = offers rsa hello"
  by (simp_all add: getSupportedKeyTypes_def offers_def keyTypes_any split: option.split)

definition extension_for :: "ClientHelloInfo \<Rightarrow> string \<Rightarrow> bool" where
  "extension_for hello ext \<longleftrightarrow> ext = ''.pem'' \<or> ext = ''.pem.ecdsa'' \<and> offers ecdsa hello
     \<or> ext = ''.pem.rsa'' \<and> offers rsa hello"

lemma candidates_iff:
  "f \<in> set (candidates hello) \<longleftrightarrow>
     (\<exists>n ext. f = n @ ext \<and> n \<in> {ServerName hello, wildcard_name (ServerName hello)}
        \<and> extension_for hello ext)"
  by (auto simp: candidates_def Let_def extension_for_def getSupportedKeyTypes_offers)

text \<open>An instance: two directories, a wildcard certificate for ECDSA in one of them.\<close>

definition demo_dir :: directory where
  "demo_dir = \<lparr>Path = ''/certs'', Cache = Some []\<rparr>"

definition demo_disk :: "bytes \<Rightarrow> disk" where
  "demo_disk secret = \<lparr>
     os_Stat = (\<lambda>p. if p = ''/certs/_.a.org.pem.ecdsa'' \<or> p = ''/secret.pem'' then Inr 7
       else Inl (SysError ''no such file or directory'')),
     os_ReadFile = (\<lambda>p. if p = ''/certs/_.a.org.pem.ecdsa'' then Inr demo_pem
       else if p = ''/secret.pem'' then Inr secret
       else Inl (SysError ''no such file or directory''))\<rparr>"

definition demo_hello :: "string \<Rightarrow> ClientHelloInfo" where
  "demo_hello name = \<lparr>ServerName = name, SignatureSchemes = Some [0x0807, 0x0403], CipherSuites = []\<rparr>"

lemma demo_secret_outside: "\<not> child_of ''/certs'' ''/secret.pem''"
proof -
  have "length (path_comps ''/secret.pem'') = 1" "length (path_comps ''/certs'') = 1" by code_simp+
  then show ?thesis by (auto simp: child_of_def)
qed

lemma demo_same_children: "same_children (Path demo_dir) (demo_disk b) (demo_disk b')"
  using demo_secret_outside by (auto simp: same_children_def demo_disk_def demo_dir_def)

definition demo_dir_after :: directory where
  "demo_dir_after = \<lparr>Path = ''/certs'',
     Cache = Some [(''/certs/_.a.org.pem.ecdsa'', \<lparr>cf_Certificate = Some demo_cert, modTime = 7\<rparr>)]\<rparr>"

lemma demo_dir_search:
  "dir_GetCertificate (dir_loadCertificate demo_crypto (demo_disk [])) (demo_hello ''www.a.org'') demo_dir
     = Some (Inr (Some demo_cert), demo_dir_after)"
  by code_simp

section \<open>Properties\<close>

text \<open>
  C23: \<^verbatim>\<open>GetCertificate\<close> of a directory follows the documented order: for a server name
  that is not empty, does not start with a dot and has no slash, the result is that of the
  first of the documented file names that loads, and every other server name is refused
  without looking at a file.
\<close>

theorem dir_GetCertificate_search_order:
  "dir_GetCertificate (dir_loadCertificate env d) hello dir =
     (if valid_server_name (ServerName hello)
      then first_loaded (dir_loadCertificate env d)
             (Errorf ''go-listener: no certificate found for %q'' [ArgStr (ServerName hello)])
             (candidates hello) dir
      else Some (Inl (ErrorsNew (if ServerName hello = [] then ''go-listener: client does not support SNI''
             else ''go-listener: client sent an invalid server name'')), dir))"
  by (rule dir_GetCertificate_candidates)

text \<open>
  C11: No server name makes \<^verbatim>\<open>GetCertificate\<close> look outside the directory: on two disks
  that agree on the direct children of the directory it gives the same result and the same
  cache, however different they are elsewhere.
\<close>

theorem dir_GetCertificate_stays_inside:
  assumes "same_children (Path dir) d d'" and "Path dir \<noteq> []"
  shows "dir_GetCertificate (dir_loadCertificate env d) hello dir =
    dir_GetCertificate (dir_loadCertificate env d') hello dir"
proof (cases "valid_server_name (ServerName hello)")
  case True
  have "first_loaded (dir_loadCertificate env d) err (candidates hello) dir =
      first_loaded (dir_loadCertificate env d') err (candidates hello) dir" for err
  proof (rule first_loaded_cong [where Q = "\<lambda>s. Path s = Path dir"])
    show "dir_loadCertificate env d f s = dir_loadCertificate env d' f s"
      if "is_file_name f" "Path s = Path dir" for f s
      using dir_loadCertificate_children [of s d d' f env] that assms by simp
    show "Path s' = Path dir" if "Path s = Path dir" "dir_loadCertificate env d f s = Some (r, s')"
      for f s r s'
      using dir_loadCertificate_Path [OF that(2)] that(1) by simp
  qed (use candidates_file_names [OF True] in auto)
  with True show ?thesis by (simp add: dir_GetCertificate_candidates)
qed (simp add: dir_GetCertificate_candidates)

theorem dir_GetCertificate_stays_inside_witness:
  "dir_GetCertificate (dir_loadCertificate demo_crypto (demo_disk demo_pem)) (demo_hello ''../secret'') demo_dir =
    dir_GetCertificate (dir_loadCertificate demo_crypto (demo_disk [])) (demo_hello ''../secret'') demo_dir"
  by (rule dir_GetCertificate_stays_inside [OF demo_same_children]) (simp add: demo_dir_def)

text \<open>
  A certificate that \<^verbatim>\<open>GetCertificate\<close> returns was loaded from a file for the
  server name or its wildcard name, and from a file for ECDSA or RSA keys only if the client
  offered a signature scheme (or, having sent no schemes, a cipher suite) for such keys.
\<close>

theorem dir_GetCertificate_for_client:
  assumes "dir_GetCertificate (dir_loadCertificate env d) hello dir = Some (Inr cert, dir')"
  shows "\<exists>n ext u. n \<in> {ServerName hello, wildcard_name (ServerName hello)} \<and> extension_for hello ext
    \<and> Path u = Path dir \<and> dir_loadCertificate env d (n @ ext) u = Some (Inr cert, dir')"
proof -
  obtain err where "first_loaded (dir_loadCertificate env d) err (candidates hello) dir = Some (Inr cert, dir')"
    using assms by (auto simp: dir_GetCertificate_candidates split: if_splits)
  then have "\<exists>f \<in> set (candidates hello). \<exists>u. Path u = Path dir
      \<and> dir_loadCertificate env d f u = Some (Inr cert, dir')"
  proof (rule first_loaded_source [where Q = "\<lambda>u. Path u = Path dir"])
    show "Path s' = Path dir" if "Path s = Path dir" "dir_loadCertificate env d f s = Some (r, s')" for f s r s'
      using dir_loadCertificate_Path [OF that(2)] that(1) by simp
  qed (rule refl)
  then obtain f u where f: "f \<in> set (candidates hello)"
    and u: "Path u = Path dir" "dir_loadCertificate env d f u = Some (Inr cert, dir')" by blast
  obtain n ext where "f = n @ ext" "n \<in> {ServerName hello, wildcard_name (ServerName hello)}"
    "extension_for hello ext"
    using f unfolding candidates_iff by blast
  with u show ?thesis by (intro exI [of _ n] exI [of _ ext] exI [of _ u]) simp
qed

end
