(* ===== verification/Cert_Getter.thy ===== *)
theory Cert_Getter
  imports Cert_Dir Go_Os
begin

text \<open>
  \<^verbatim>\<open>cert/file.go\<close>, \<^verbatim>\<open>cert/sni.go\<close>, \<^verbatim>\<open>cert/auto.go\<close> and the constructor of
  \<^verbatim>\<open>cert/dir.go\<close>: the functions the library gives to the TLS server. A closure is a
  value of a datatype, with what it captures; \<open>getCertificate\<close> runs it. The certificate
  manager of \<^verbatim>\<open>golang.org/x/crypto/acme/autocert\<close> is a parameter.
\<close>

section \<open>Base64\<close>

text \<open>
  \<^verbatim>\<open>base64.RawURLEncoding.DecodeString\<close>: carriage returns and line feeds are skipped,
  a single left over character is an error, left over bits are ignored. The offsets of the
  error are not modelled.
\<close>

definition b64_digit :: "char \<Rightarrow> nat option" where
  "b64_digit c =
     (let n = of_char c
      in if 65 \<le> n \<and> n \<le> 90 then Some (n - 65)
         else if 97 \<le> n \<and> n \<le> 122 then Some (n - 71)
         else if 48 \<le> n \<and> n \<le> 57 then Some (n + 4)
         else if c = CHR ''-'' then Some 62
         else if c = CHR ''_'' then Some 63 else None)"

definition corrupt_input :: go_error where "corrupt_input = SysError ''illegal base64 data''"

fun b64_groups :: "nat list \<Rightarrow> go_error + bytes" where
  "b64_groups [] = Inr []"
| "b64_groups [a] = Inl corrupt_input"
| "b64_groups [a, b] = Inr [of_nat (a * 4 + b div 16)]"
| "b64_groups [a, b, c] = Inr [of_nat (a * 4 + b div 16), of_nat (b mod 16 * 16 + c div 4)]"
| "b64_groups (a # b # c # d # ds) =
     (case b64_groups ds of
        Inl e \<Rightarrow> Inl e
      | Inr bs \<Rightarrow> Inr (of_nat (a * 4 + b div 16) # of_nat (b mod 16 * 16 + c div 4)
                     # of_nat (c mod 4 * 64 + d) # bs))"

definition base64_RawURL_DecodeString :: "string \<Rightarrow> go_error + bytes" where
  "base64_RawURL_DecodeString s =
     (let t = filter (\<lambda>c. c \<noteq> CHR 0x0A \<and> c \<noteq> CHR 0x0D) s
      in if list_all (\<lambda>c. b64_digit c \<noteq> None) t
         then b64_groups (map (\<lambda>c. the (b64_digit c)) t) else Inl corrupt_input)"

section \<open>auto.go\<close>

record ExternalAccountBinding =
  KID :: string
  Key :: bytes

text \<open>
  The fields of \<^verbatim>\<open>autocert.Manager\<close> the code sets; the cache directory and the white
  list of host names may be nil.
\<close>

record autocert_manager =
  DirectoryURL :: string
  AcceptTOS :: bool
  CacheDir :: "string option"
  HostPolicy :: "string list option"
  Email :: string
  EAB :: "ExternalAccountBinding option"

text \<open>\<^verbatim>\<open>os.UserHomeDir\<close> on UNIX.\<close>

definition os_UserHomeDir :: "os_env \<Rightarrow> go_error + string" where
  "os_UserHomeDir env =
     (if os_Getenv env ''HOME'' \<noteq> [] then Inr (os_Getenv env ''HOME'')
      else Inl (ErrorsNew ''$HOME is not defined''))"

definition getAutocertCache :: "os_env \<Rightarrow> string option" where
  "getAutocertCache env =
     (let cacheDir = os_Getenv env ''AUTOCERT_CACHE_DIR''
      in if cacheDir \<noteq> [] then Some cacheDir
         else if os_Getuid env = 0 then Some ''/var/lib/autocert-cache''
         else let dataDir = os_Getenv env ''XDG_DATA_HOME''
           in if dataDir \<noteq> [] then Some (filepath_Join dataDir ''autocert-cache'')
              else case os_UserHomeDir env of
                     Inr homeDir \<Rightarrow> Some (filepath_Join homeDir ''.local/share/autocert-cache'')
                   | Inl _ \<Rightarrow> None)"

definition getAutocertEAB :: "os_env \<Rightarrow> ExternalAccountBinding option" where
  "getAutocertEAB env =
     (let kidString = os_Getenv env ''AUTOCERT_EAB_KID'';
          keyString = os_Getenv env ''AUTOCERT_EAB_KEY''
      in if kidString = [] \<or> keyString = [] then None
         else case base64_RawURL_DecodeString keyString of
                Inl err \<Rightarrow> None
              | Inr key \<Rightarrow> Some \<lparr>KID = kidString, Key = key\<rparr>)"

text \<open>Closures, with what they capture.\<close>

datatype GetCertificateFunc =
    FromFile string
  | FromDirectory string
  | FromManager autocert_manager
  | DefaultServerName string GetCertificateFunc

definition getCertificateAutomatically :: "os_env \<Rightarrow> string list option \<Rightarrow> GetCertificateFunc" where
  "getCertificateAutomatically env hostPolicy = FromManager
     \<lparr>DirectoryURL = os_Getenv env ''AUTOCERT_ACME_SERVER'', AcceptTOS = True,
      CacheDir = getAutocertCache env, HostPolicy = hostPolicy,
      Email = os_Getenv env ''AUTOCERT_EMAIL'', EAB = getAutocertEAB env\<rparr>"

definition GetCertificateAutomatically :: "os_env \<Rightarrow> string list option \<Rightarrow> GetCertificateFunc" where
  "GetCertificateAutomatically env hostnames =
     (case hostnames of
        None \<Rightarrow> getCertificateAutomatically env None
      | Some hs \<Rightarrow> getCertificateAutomatically env (Some hs))"

section \<open>Files, directories and default names\<close>

text \<open>The constructors initialise the global cache, which the closures then use.\<close>

definition GetCertificateFromFile :: "string \<Rightarrow> global_cache \<Rightarrow> GetCertificateFunc \<times> global_cache" where
  "GetCertificateFromFile path g = (FromFile path, snd (globalFileCache g))"

definition GetCertificateFromDirectory :: "string \<Rightarrow> global_cache \<Rightarrow> GetCertificateFunc \<times> global_cache" where
  "GetCertificateFromDirectory path g = (FromDirectory path, snd (globalFileCache g))"

definition GetCertificateDefaultServerName :: "string \<Rightarrow> GetCertificateFunc \<Rightarrow> GetCertificateFunc" where
  "GetCertificateDefaultServerName = DefaultServerName"

text \<open>
  Calling a closure. That of a file finds the global cache set, since its constructor set
  it and nothing resets it; without one there is no result.
\<close>

type_synonym manager_fun =
  "autocert_manager \<Rightarrow> ClientHelloInfo \<Rightarrow> go_error + tls_certificate option"

fun getCertificate ::
  "crypto_env \<Rightarrow> manager_fun \<Rightarrow> disk \<Rightarrow> GetCertificateFunc \<Rightarrow> ClientHelloInfo \<Rightarrow> global_cache \<Rightarrow>
   ((go_error + tls_certificate option) \<times> global_cache) option"
where
  "getCertificate env mgr d (FromFile path) hello g =
     (case globalFileCachePtr g of
        None \<Rightarrow> None
      | Some c \<Rightarrow> map_option (\<lambda>(r, c). (r, g\<lparr>globalFileCachePtr := Some c\<rparr>)) (fc_Load env d c path))"
| "getCertificate env mgr d (FromDirectory path) hello g =
     map_option (\<lambda>(r, dir). (r, g\<lparr>globalFileCachePtr := Cache dir\<rparr>))
       (dir_GetCertificate (dir_loadCertificate env d) hello
          \<lparr>Path = path, Cache = globalFileCachePtr g\<rparr>)"
| "getCertificate env mgr d (FromManager m) hello g = Some (mgr m hello, g)"
| "getCertificate env mgr d (DefaultServerName defaultServerName f) hello g =
     (if ServerName hello = [] then
        getCertificate env mgr d f (hello\<lparr>ServerName := defaultServerName\<rparr>) g
      else getCertificate env mgr d f hello g)"

section \<open>Where certificates come from\<close>

text \<open>
  On a disk that does not change meanwhile: the cache tracks the disk when every entry whose
  modification time is that of the file holds what the file parses to.
\<close>

definition cache_tracks :: "crypto_env \<Rightarrow> disk \<Rightarrow> fileCache \<Rightarrow> bool" where
  "cache_tracks env d c \<longleftrightarrow> (\<forall>(p, f) \<in> set c. \<exists>cert. cf_Certificate f = Some cert \<and>
     (os_Stat d p = Inr (modTime f) \<longrightarrow> LoadCertificate env (os_ReadFile d) p = Some (Inr cert)))"

definition loads :: "crypto_env \<Rightarrow> disk \<Rightarrow> string \<Rightarrow> tls_certificate option \<Rightarrow> bool" where
  "loads env d p co \<longleftrightarrow>
     (\<exists>cert. co = Some cert \<and> LoadCertificate env (os_ReadFile d) p = Some (Inr cert))"

text \<open>
  The reference: what a file holds now, read without a cache, and the file a directory is to
  serve, which is the first of the documented file names that holds a certificate.
\<close>

definition load_current :: "crypto_env \<Rightarrow> disk \<Rightarrow> string \<Rightarrow> (go_error + tls_certificate option) option" where
  "load_current env d p =
     (case os_Stat d p of
        Inl err \<Rightarrow> Some (Inl err)
      | Inr _ \<Rightarrow> map_option (map_sum id Some) (LoadCertificate env (os_ReadFile d) p))"

definition holds_certificate :: "crypto_env \<Rightarrow> disk \<Rightarrow> string \<Rightarrow> bool" where
  "holds_certificate env d p = (case load_current env d p of Some (Inr _) \<Rightarrow> True | _ \<Rightarrow> False)"

definition search_current ::
  "crypto_env \<Rightarrow> disk \<Rightarrow> string \<Rightarrow> ClientHelloInfo \<Rightarrow> (go_error + tls_certificate option) option"
where
  "search_current env d dir hello =
     (if valid_server_name (ServerName hello) then
        (case find (holds_certificate env d) (map (filepath_Join dir) (candidates hello)) of
           Some p \<Rightarrow> load_current env d p
         | None \<Rightarrow> Some (Inl (Errorf ''go-listener: no certificate found for %q'' [ArgStr (ServerName hello)])))
      else if ServerName hello = [] then
        Some (Inl (ErrorsNew ''go-listener: client does not support SNI''))
      else Some (Inl (ErrorsNew ''go-listener: client sent an invalid server name'')))"

text \<open>The answer a getter owes to a hello; with a default name the hello changes first.\<close>

fun served ::
  "crypto_env \<Rightarrow> manager_fun \<Rightarrow> disk \<Rightarrow> GetCertificateFunc \<Rightarrow> ClientHelloInfo \<Rightarrow>
   (go_error + tls_certificate option) option"
where
  "served env mgr d (FromFile path) hello = load_current env d path"
| "served env mgr d (FromDirectory path) hello = search_current env d path hello"
| "served env mgr d (FromManager m) hello = Some (mgr m hello)"
| "served env mgr d (DefaultServerName n f) hello =
     served env mgr d f
       (hello\<lparr>ServerName := (if ServerName hello = [] then n else ServerName hello)\<rparr>)"

lemma load_current_loads: "load_current env d p = Some (Inr co) \<Longrightarrow> loads env d p co"
  by (cases "LoadCertificate env (os_ReadFile d) p"; cases "the (LoadCertificate env (os_ReadFile d) p)")
    (auto simp: load_current_def loads_def split: sum.splits)

lemma search_current_loads:
  assumes "search_current env d dir hello = Some (Inr co)"
  shows "\<exists>f \<in> set (candidates hello). loads env d (filepath_Join dir f) co"
proof -
  obtain p where "find (holds_certificate env d) (map (filepath_Join dir) (candidates hello)) = Some p"
    "load_current env d p = Some (Inr co)"
    using assms by (auto simp: search_current_def split: if_splits option.splits)
  then show ?thesis using load_current_loads by (fastforce simp: find_Some_iff)
qed

lemma LoadCertificate_total: "pem_progress env \<Longrightarrow> \<exists>r. LoadCertificate env rf p = Some r"
  using parse_certificate_total by (auto simp: LoadCertificate_def split: sum.split)

lemma fc_Load_total: "pem_progress env \<Longrightarrow> \<exists>r c'. fc_Load env d c p = Some (r, c')"
  using LoadCertificate_total [of env "os_ReadFile d" p]
  by (auto simp: fc_Load_def Let_def split: sum.split)

lemma fc_Load_tracks:
  assumes c: "cache_tracks env d c" and L: "fc_Load env d c p = Some (r, c')"
  shows "cache_tracks env d c' \<and> load_current env d p = Some r"
proof (cases "os_Stat d p")
  case (Inl e)
  then show ?thesis using L c by (auto simp: fc_Load_def load_current_def)
next
  case (Inr m)
  show ?thesis
  proof (cases "isFresh (fc_get c p) m")
    case True
    then obtain cert where f: "cf_Certificate (fc_get c p) = Some cert" "modTime (fc_get c p) = m"
      by (auto simp: isFresh_def)
    then have "LoadCertificate env (os_ReadFile d) p = Some (Inr cert)"
      using c fc_get_set [OF f(1)] Inr by (fastforce simp: cache_tracks_def)
    then show ?thesis using L c True Inr f by (auto simp: fc_Load_def load_current_def)
  next
    case False
    then obtain lr where lr: "LoadCertificate env (os_ReadFile d) p = Some lr"
      using L Inr by (auto simp: fc_Load_def split: option.splits)
    then show ?thesis using L c Inr False
      by (cases lr) (auto simp: fc_Load_def load_current_def fc_add_def cache_tracks_def dest!: set_update)
  qed
qed

text \<open>A directory with a cache that tracks the disk.\<close>

definition dir_tracks :: "crypto_env \<Rightarrow> disk \<Rightarrow> string \<Rightarrow> directory \<Rightarrow> bool" where
  "dir_tracks env d path dir \<longleftrightarrow> Path dir = path \<and> (\<exists>c. Cache dir = Some c \<and> cache_tracks env d c)"

lemma dir_loadCertificate_tracks:
  assumes "pem_progress env" and "dir_tracks env d path dir"
  shows "\<exists>r dir'. dir_loadCertificate env d f dir = Some (r, dir') \<and> dir_tracks env d path dir'
    \<and> load_current env d (filepath_Join path f) = Some r"
proof -
  obtain c where c: "Path dir = path" "Cache dir = Some c" "cache_tracks env d c"
    using assms(2) by (auto simp: dir_tracks_def)
  obtain r c' where L: "fc_Load env d c (filepath_Join path f) = Some (r, c')"
    using fc_Load_total [OF assms(1)] by blast
  then have "dir_loadCertificate env d f dir = Some (r, dir\<lparr>Cache := Some c'\<rparr>)"
    using c by (simp add: dir_loadCertificate_def)
  then show ?thesis using fc_Load_tracks [OF c(3) L] c(1) by (simp add: dir_tracks_def)
qed

lemma first_loaded_current:
  assumes "pem_progress env" and "dir_tracks env d path dir"
  shows "\<exists>r dir'. first_loaded (dir_loadCertificate env d) err fs dir = Some (r, dir') \<and> dir_tracks env d path dir'
    \<and> Some r = (case find (holds_certificate env d) (map (filepath_Join path) fs) of
         Some p \<Rightarrow> load_current env d p | None \<Rightarrow> Some (Inl err))"
  using assms(2)
proof (induction fs arbitrary: dir)
  case (Cons f fs)
  obtain r dir' where "dir_loadCertificate env d f dir = Some (r, dir')" "dir_tracks env d path dir'"
    "load_current env d (filepath_Join path f) = Some r"
    using dir_loadCertificate_tracks [OF assms(1) Cons.prems] by blast
  then show ?case using Cons.IH [of dir']
    by (cases r) (simp_all add: dir_try_def holds_certificate_def)
qed simp

lemma dir_GetCertificate_tracks:
  assumes "pem_progress env" and "dir_tracks env d path dir"
  shows "\<exists>r dir'. dir_GetCertificate (dir_loadCertificate env d) hello dir = Some (r, dir')
    \<and> dir_tracks env d path dir' \<and> search_current env d path hello = Some r"
proof (cases "valid_server_name (ServerName hello)")
  case True
  from first_loaded_current [OF assms, of _ "candidates hello"] True show ?thesis
    by (simp add: dir_GetCertificate_candidates search_current_def eq_commute)
next
  case False
  then show ?thesis using assms(2) by (simp add: dir_GetCertificate_candidates search_current_def)
qed

text \<open>
  What a getter may answer for a hello: a file it names, one of the candidates in its
  directory, or what the manager answers; with a default name the hello changes first.
\<close>

fun may_serve ::
  "crypto_env \<Rightarrow> manager_fun \<Rightarrow> disk \<Rightarrow> GetCertificateFunc \<Rightarrow> ClientHelloInfo \<Rightarrow>
   tls_certificate option \<Rightarrow> bool"
where
  "may_serve env mgr d (FromFile path) hello co = loads env d path co"
| "may_serve env mgr d (FromDirectory path) hello co =
     (\<exists>f \<in> set (candidates hello). loads env d (filepath_Join path f) co)"
| "may_serve env mgr d (FromManager m) hello co = (mgr m hello = Inr co)"
| "may_serve env mgr d (DefaultServerName n f) hello co =
     may_serve env mgr d f
       (hello\<lparr>ServerName := (if ServerName hello = [] then n else ServerName hello)\<rparr>) co"

lemma served_may_serve: "served env mgr d f hello = Some (Inr co) \<Longrightarrow> may_serve env mgr d f hello co"
  by (induction f arbitrary: hello) (auto dest: load_current_loads search_current_loads)

definition global_tracks :: "crypto_env \<Rightarrow> disk \<Rightarrow> global_cache \<Rightarrow> bool" where
  "global_tracks env d g \<longleftrightarrow> (\<exists>c. globalFileCachePtr g = Some c \<and> cache_tracks env d c)"

lemma getCertificate_current:
  assumes "pem_progress env" and "global_tracks env d g"
  shows "\<exists>r g'. getCertificate env mgr d f hello g = Some (r, g') \<and> global_tracks env d g'
    \<and> served env mgr d f hello = Some r"
proof (induction f arbitrary: hello)
  case (FromFile path)
  obtain c where c: "globalFileCachePtr g = Some c" "cache_tracks env d c"
    using assms(2) by (auto simp: global_tracks_def)
  obtain r c' where "fc_Load env d c path = Some (r, c')"
    using fc_Load_total [OF assms(1)] by blast
  then show ?case using c fc_Load_tracks [OF c(2)] by (simp add: global_tracks_def)
next
  case (FromDirectory path)
  have "dir_tracks env d path \<lparr>Path = path, Cache = globalFileCachePtr g\<rparr>"
    using assms(2) by (auto simp: global_tracks_def dir_tracks_def)
  from dir_GetCertificate_tracks [OF assms(1) this, of hello]
  show ?case by (auto simp: global_tracks_def dir_tracks_def)
next
  case (FromManager m)
  then show ?case using assms(2) by simp
next
  case (DefaultServerName n f)
  show ?case
    using DefaultServerName [of hello] DefaultServerName [of "hello\<lparr>ServerName := n\<rparr>"]
    by (cases "ServerName hello = []") simp_all
qed

text \<open>An instance: the wildcard certificate of the directory, for a client that sent no name.\<close>

lemma demo_served:
  "served demo_crypto (\<lambda>_ _. Inr None) (demo_disk [])
     (DefaultServerName ''www.a.org'' (FromDirectory ''/certs'')) (demo_hello []) = Some (Inr (Some demo_cert))"
  by code_simp

section \<open>Properties\<close>

text \<open>
  C14: The cache cannot be seen. Every getter answers every hello, and the answer is the one
  that reading the files without a cache gives: for a file, the certificate it holds now or
  the error of reading it; for a directory, the certificate of the first of the documented
  file names that holds one now, and an error only for a refused name or if none of them
  holds one; otherwise what the certificate manager says. The cache may hold anything that
  tracks the disk, and still tracks it afterwards.
\<close>

theorem getCertificate_serves_current_files:
  assumes "pem_progress env" and "global_tracks env d g"
  shows "\<exists>r g'. getCertificate env mgr d f hello g = Some (r, g') \<and> served env mgr d f hello = Some r
    \<and> global_tracks env d g'"
  using getCertificate_current [OF assms] by blast

theorem getCertificate_serves_current_files_witness:
  "\<exists>g'. getCertificate demo_crypto (\<lambda>_ _. Inr None) (demo_disk [])
      (DefaultServerName ''www.a.org'' (FromDirectory ''/certs'')) (demo_hello [])
      (snd (globalFileCache initial_global)) = Some (Inr (Some demo_cert), g')
    \<and> global_tracks demo_crypto (demo_disk []) g'"
proof -
  have "global_tracks demo_crypto (demo_disk []) (snd (globalFileCache initial_global))"
    by (simp add: global_tracks_def globalFileCache_def initial_global_def cache_tracks_def
        newFileCache_def)
  from getCertificate_serves_current_files [OF demo_crypto_progress this, of "\<lambda>_ _. Inr None"
      "DefaultServerName ''www.a.org'' (FromDirectory ''/certs'')" "demo_hello []"] demo_served
  show ?thesis by auto
qed

end
