(* ===== verification/Listener_Open.thy ===== *)
theory Listener_Open
  imports Listener_Registry Go_NetParse Unix_Listener Cert_Getter
begin

text \<open>
  \<^verbatim>\<open>open.go\<close>, \<^verbatim>\<open>builtin.go\<close>, \<^verbatim>\<open>close.go\<close> and \<^verbatim>\<open>tls/listener.go\<close>: from a
  specification, as a string or as a JSON object, to a listener. The state is that of the
  operating system and the global certificate cache.
\<close>

section \<open>Parameters\<close>

text \<open>
  The dynamic values of \<^verbatim>\<open>interface{}\<close> in a specification. A JSON document decoded
  with \<^verbatim>\<open>UseNumber\<close> has the first six; a program can also build a map with a
  \<^verbatim>\<open>[]string\<close> or with other types.
\<close>

datatype goval =
    GoNull
  | GoBool bool
  | GoNumber string
  | GoString string
  | GoArray "goval list"
  | GoObject "(string \<times> goval) list"
  | GoStrings "string list"
  | GoOther

type_synonym object = "(string \<times> goval) list"

fun gsize :: "goval \<Rightarrow> nat" where
  "gsize (GoArray vs) = Suc (sum_list (map gsize vs))"
| "gsize (GoObject m) = Suc (sum_list (map (\<lambda>(k, v). gsize v) m))"
| "gsize v = 1"

text \<open>
  Indexing a map, nil included, gives nil for a missing key; the type assertions succeed
  for the one type they name.
\<close>

definition param :: "object option \<Rightarrow> string \<Rightarrow> goval" where
  "param params k =
     (case params of None \<Rightarrow> GoNull
      | Some m \<Rightarrow> (case map_of m k of None \<Rightarrow> GoNull | Some v \<Rightarrow> v))"

fun as_string :: "goval \<Rightarrow> string option" where
  "as_string (GoString s) = Some s"
| "as_string _ = None"

fun as_Number :: "goval \<Rightarrow> string option" where
  "as_Number (GoNumber s) = Some s"
| "as_Number _ = None"

fun as_object :: "goval \<Rightarrow> object option" where
  "as_object (GoObject m) = Some m"
| "as_object _ = None"

fun as_strings :: "goval \<Rightarrow> string list option" where
  "as_strings (GoStrings ss) = Some ss"
| "as_strings _ = None"

definition params_size :: "object option \<Rightarrow> nat" where
  "params_size params = (case params of None \<Rightarrow> 0 | Some m \<Rightarrow> gsize (GoObject m))"

lemma as_object_size: "as_object (param params k) = Some m \<Longrightarrow> params_size (Some m) < params_size params"
proof -
  assume "as_object (param params k) = Some m"
  then obtain p where p: "params = Some p" "map_of p k = Some (GoObject m)"
    by (cases "param params k") (auto simp: param_def split: option.splits)
  have "gsize (GoObject m) \<le> sum_list (map (\<lambda>(k, v). gsize v) p)"
    using map_of_SomeD [OF p(2)] by (intro member_le_sum_list) (force, simp)
  then show ?thesis using p(1) by (simp add: params_size_def)
qed

section \<open>Listeners\<close>

record tls_config =
  GetCertificate :: GetCertificateFunc
  NextProtos :: "string list"

text \<open>
  A listener: a socket, a watched UNIX socket, a PROXY listener (whether it was closed, and
  its inner listener), a TLS listener.
\<close>

datatype listener =
    SocketListener nat
  | WatchedListener watchedListener
  | ProxyListener bool listener
  | TLSListener listener tls_config

record world =
  w_os :: os_state
  w_global :: global_cache

text \<open>
  An opener returns a listener or an error, or it panics; in any case the world may have
  changed.
\<close>

type_synonym open_result = "(failure + listener) \<times> world"

text \<open>
  What the functions read: the operating system, the registry, the openers that the program
  registered, and the constant \<^verbatim>\<open>acme.ALPNProto\<close>.
\<close>

record open_env =
  oe_os :: os_env
  oe_registry :: registry
  oe_custom :: "string \<Rightarrow> object option \<Rightarrow> string \<Rightarrow> world \<Rightarrow> open_result"
  oe_ALPNProto :: string

definition with_os ::
  "(os_state \<Rightarrow> (go_error + 'a) \<times> os_state) \<Rightarrow> ('a \<Rightarrow> listener) \<Rightarrow> world \<Rightarrow> open_result"
where
  "with_os f g w = (case f (w_os w) of (r, s) \<Rightarrow> (map_sum Fails g r, w\<lparr>w_os := s\<rparr>))"

section \<open>builtin.go\<close>

text \<open>
  \<^verbatim>\<open>net.FileListener\<close> on a new file for the descriptor. The deferred close of the file
  runs on every path after it was made.
\<close>

definition file_listener :: "open_env \<Rightarrow> int \<Rightarrow> string \<Rightarrow> world \<Rightarrow> open_result" where
  "file_listener env fd name w =
     (let file = os_NewFile fd
      in case net_FileListener (oe_os env) file name (w_os w) of
           (r, s) \<Rightarrow> (map_sum id SocketListener r, w\<lparr>w_os := os_CloseFile file s\<rparr>))"

definition openFDListener ::
  "open_env \<Rightarrow> object option \<Rightarrow> string \<Rightarrow> world \<Rightarrow> open_result"
where
  "openFDListener env params arg w =
     (case (if arg \<noteq> [] then Some arg
            else case as_Number (param params ''fd'') of
                   Some p \<Rightarrow> Some p
                 | None \<Rightarrow> as_string (param params ''fd'')) of
        None \<Rightarrow> (Inl (Fails (ErrorsNew ''file descriptor not specified for FD listener'')), w)
      | Some fdString \<Rightarrow>
          (case strconv_ParseUint fdString of
             Inl err \<Rightarrow> (Inl (Fails (Errorf (CHR 0x27 # ''%s'' @ CHR 0x27 # '' is a malformed file descriptor'') [ArgStr fdString])), w)
           | Inr fd \<Rightarrow> file_listener env fd fdString w))"

text \<open>The loop over the names, from position \<open>i\<close> on.\<close>

fun fdname_loop ::
  "open_env \<Rightarrow> string \<Rightarrow> string list \<Rightarrow> int \<Rightarrow> world \<Rightarrow> open_result"
where
  "fdname_loop env name [] i w = (Inl (Fails (Errorf ''fdname: %q not found in $LISTEN_FDNAMES'' [ArgStr name])), w)"
| "fdname_loop env name (ithname # names) i w =
     (if ithname = name then file_listener env (3 + i) name w
      else fdname_loop env name names (i + 1) w)"

definition openFDNameListener ::
  "open_env \<Rightarrow> object option \<Rightarrow> string \<Rightarrow> world \<Rightarrow> open_result"
where
  "openFDNameListener env params arg w =
     (case (if arg \<noteq> [] then Some arg else as_string (param params ''name'')) of
        None \<Rightarrow> (Inl (Fails (ErrorsNew ''name not specified for fdname listener'')), w)
      | Some name \<Rightarrow>
          (let listenPidStr = os_Getenv (oe_os env) ''LISTEN_PID''
           in if listenPidStr = [] then
                (Inl (Fails (ErrorsNew ''cannot create fdname listener because $LISTEN_PID is not set'')), w)
              else case strconv_Atoi listenPidStr of
                     Inl err \<Rightarrow>
                       (Inl (Fails (ErrorsNew ''cannot create fdname listener because $LISTEN_PID does not contain an integer'')), w)
                   | Inr listenPid \<Rightarrow>
                       (if listenPid \<noteq> os_Getpid (oe_os env) then
                          (Inl (Fails (Errorf ''cannot create fdname listener because $LISTEN_PID (%d) does not match our PID (%d)''
                             [ArgInt listenPid, ArgInt (os_Getpid (oe_os env))])), w)
                        else fdname_loop env name
                               (strings_Split CHR '':'' (os_Getenv (oe_os env) ''LISTEN_FDNAMES'')) 0 w)))"

text \<open>The first part of \<^verbatim>\<open>openTCPListener\<close>: the IP and port strings.\<close>

definition tcp_strings :: "object option \<Rightarrow> string \<Rightarrow> go_error + (string \<times> string)" where
  "tcp_strings params arg =
     (if arg \<noteq> [] then
        (if strings_Contains arg CHR '':'' then
           (case net_SplitHostPort arg of
              Inl err \<Rightarrow> Inl (ErrorfW ''TCP listener has invalid argument: %w'' [] err)
            | Inr (ipString, portString) \<Rightarrow> Inr (ipString, portString))
         else Inr ([], arg))
      else case as_string (param params ''address'') of
             Some p \<Rightarrow> Inr (p, [])
           | None \<Rightarrow>
               (case as_Number (param params ''port'') of
                  Some p \<Rightarrow> Inr ([], p)
                | None \<Rightarrow>
                    (case as_string (param params ''port'') of
                       Some p \<Rightarrow> Inr ([], p)
                     | None \<Rightarrow> Inr ([], []))))"

definition openTCPListener ::
  "open_env \<Rightarrow> object option \<Rightarrow> string \<Rightarrow> world \<Rightarrow> open_result"
where
  "openTCPListener env params arg w =
     (case tcp_strings params arg of
        Inl err \<Rightarrow> (Inl (Fails err), w)
      | Inr (ipString, portString) \<Rightarrow>
          (case (if ipString = [] then Inr (''tcp'', None)
                 else case net_ParseIP ipString of
                        None \<Rightarrow> Inl (ErrorsNew ''TCP listener has invalid IP address'')
                      | Some i \<Rightarrow> Inr (if To4 i = None then ''tcp6'' else ''tcp4'', Some i)) of
             Inl err \<Rightarrow> (Inl (Fails err), w)
           | Inr (network, ip) \<Rightarrow>
               (case strconv_Atoi portString of
                  Inl err \<Rightarrow> (Inl (Fails (ErrorfW ''TCP listener has invalid port: %w'' [] err)), w)
                | Inr port \<Rightarrow> with_os (net_ListenTCP (oe_os env) network ip port) SocketListener w)))"

definition openUnixListener ::
  "open_env \<Rightarrow> object option \<Rightarrow> string \<Rightarrow> world \<Rightarrow> open_result"
where
  "openUnixListener env params arg w =
     (case (if arg \<noteq> [] then Some arg else as_string (param params ''path'')) of
        None \<Rightarrow> (Inl (Fails (ErrorsNew ''path not specified for UNIX listener'')), w)
      | Some path \<Rightarrow> with_os (Listen (oe_os env) path 438) WatchedListener w)"

section \<open>open.go, the PROXY and the TLS listener\<close>

text \<open>\<^verbatim>\<open>proxy.NewListener\<close> and \<^verbatim>\<open>tls.NewListener\<close> around the inner listener.\<close>

definition wrap ::
  "(listener \<Rightarrow> listener) \<Rightarrow> open_result \<Rightarrow> open_result"
where
  "wrap f = map_prod (map_sum id f) id"

text \<open>Which getter and protocols \<^verbatim>\<open>openHTTPSListener\<close> takes for a string argument.\<close>

definition https_arg_getter ::
  "open_env \<Rightarrow> string \<Rightarrow> world \<Rightarrow> (GetCertificateFunc \<times> string list) \<times> world"
where
  "https_arg_getter env certSpec w =
     (let nextProtos = [''h2'', ''http/1.1'']
      in if strings_HasPrefix certSpec CHR ''/'' \<and> strings_HasSuffix certSpec CHR ''/'' then
           (case GetCertificateFromDirectory certSpec (w_global w) of
              (f, g) \<Rightarrow> ((f, nextProtos), w\<lparr>w_global := g\<rparr>))
         else if strings_HasPrefix certSpec CHR ''/'' then
           (case GetCertificateFromFile certSpec (w_global w) of
              (f, g) \<Rightarrow> ((f, nextProtos), w\<lparr>w_global := g\<rparr>))
         else ((GetCertificateAutomatically (oe_os env) (Some (strings_Split CHR '','' certSpec)),
                nextProtos @ [oe_ALPNProto env]), w))"

text \<open>The same for the parameters of an object.\<close>

definition https_params_getter ::
  "open_env \<Rightarrow> object option \<Rightarrow> world \<Rightarrow> (go_error + (GetCertificateFunc \<times> string list)) \<times> world"
where
  "https_params_getter env params w =
     (let nextProtos = [''h2'', ''http/1.1'']
      in case as_string (param params ''cert'') of
           Some path \<Rightarrow>
             (case GetCertificateFromFile path (w_global w) of
                (f, g) \<Rightarrow> (Inr (f, nextProtos), w\<lparr>w_global := g\<rparr>))
         | None \<Rightarrow>
             (case as_string (param params ''cert_directory'') of
                Some path \<Rightarrow>
                  (case GetCertificateFromDirectory path (w_global w) of
                     (f, g) \<Rightarrow> (Inr (f, nextProtos), w\<lparr>w_global := g\<rparr>))
              | None \<Rightarrow>
                  (case as_strings (param params ''autocert_hostnames'') of
                     Some hostnames \<Rightarrow>
                       (Inr (GetCertificateAutomatically (oe_os env) (Some hostnames),
                             nextProtos @ [oe_ALPNProto env]), w)
                   | None \<Rightarrow> (Inl (ErrorsNew ''certificate not specified for TLS listener''), w))))"

definition https_config :: "object option \<Rightarrow> GetCertificateFunc \<times> string list \<Rightarrow> tls_config" where
  "https_config params gp =
     (case gp of (getCert, nextProtos) \<Rightarrow>
        \<lparr>GetCertificate =
           (case as_string (param params ''default_server_name'') of
              Some defaultServerName \<Rightarrow>
                (if defaultServerName \<noteq> []
                 then GetCertificateDefaultServerName defaultServerName getCert
                 else getCert)
            | None \<Rightarrow> getCert),
         NextProtos = nextProtos\<rparr>)"

lemma fields_shorter:
  "strings_Contains s c \<Longrightarrow> length (strings_SplitN2 c s ! 1) < length s"
  "\<not> length (strings_SplitN2 c s) < 2 \<Longrightarrow> length (strings_SplitN2 c s ! 1) < length s"
  using IndexByte_None_iff [of s c]
  by (auto simp: strings_Contains_def strings_SplitN2_def simp del: IndexByte_None_iff
      dest: IndexByte_SomeD split: option.splits)

function (sequential)
  Open :: "open_env \<Rightarrow> string \<Rightarrow> world \<Rightarrow> open_result" and
  openType ::
    "open_env \<Rightarrow> string \<Rightarrow> object option \<Rightarrow> string \<Rightarrow> world \<Rightarrow> open_result" and
  OpenJSON :: "open_env \<Rightarrow> object \<Rightarrow> world \<Rightarrow> open_result" and
  openProxyListener ::
    "open_env \<Rightarrow> object option \<Rightarrow> string \<Rightarrow> world \<Rightarrow> open_result" and
  openHTTPSListener ::
    "open_env \<Rightarrow> object option \<Rightarrow> string \<Rightarrow> world \<Rightarrow> open_result"
where
  "Open env spec w =
     (if strings_Contains spec CHR '':'' then
        (let fields = strings_SplitN2 CHR '':'' spec
         in openType env (fields ! 0) None (fields ! 1) w)
      else openTCPListener env None spec w)"
| "openType env listenerType params argument w =
     (case getOpenListenerFunc (oe_registry env) listenerType of
        None \<Rightarrow> (Inl (Fails (Errorf (''Unknown listener type: '' @ listenerType) [])), w)
      | Some OpenFD \<Rightarrow> openFDListener env params argument w
      | Some OpenFDName \<Rightarrow> openFDNameListener env params argument w
      | Some OpenTCP \<Rightarrow> openTCPListener env params argument w
      | Some OpenUnix \<Rightarrow> openUnixListener env params argument w
      | Some OpenProxy \<Rightarrow> openProxyListener env params argument w
      | Some OpenHTTPS \<Rightarrow> openHTTPSListener env params argument w
      | Some (OpenCustom name) \<Rightarrow> oe_custom env name params argument w)"
| "OpenJSON env spec w =
     (case as_string (param (Some spec) ''type'') of
        None \<Rightarrow> (Inl (Fails (ErrorsNew ''listener object does not contain a string type field'')), w)
      | Some listenerType \<Rightarrow> openType env listenerType (Some spec) [] w)"
| "openProxyListener env params arg w =
     (if arg \<noteq> [] then wrap (ProxyListener False) (Open env arg w)
      else case as_object (param params ''listener'') of
             Some spec \<Rightarrow> wrap (ProxyListener False) (OpenJSON env spec w)
           | None \<Rightarrow> (Inl (Fails (ErrorsNew ''inner socket not specified for proxy listener'')), w))"
| "openHTTPSListener env params arg w =
     (if arg \<noteq> [] then
        (let fields = strings_SplitN2 CHR '':'' arg
         in if length fields < 2 then
              (Inl (Fails (ErrorsNew ''TLS listener spec invalid; must be CERT_SPEC:SOCKET_SPEC'')), w)
            else case https_arg_getter env (fields ! 0) w of
                   (gp, w) \<Rightarrow>
                     wrap (\<lambda>inner. TLSListener inner (https_config params gp)) (Open env (fields ! 1) w))
      else case https_params_getter env params w of
             (Inl err, w) \<Rightarrow> (Inl (Fails err), w)
           | (Inr gp, w) \<Rightarrow>
               (case as_object (param params ''listener'') of
                  None \<Rightarrow> (Inl (Fails (ErrorsNew ''inner socket not specified for TLS listener'')), w)
                | Some innerSpec \<Rightarrow>
                    wrap (\<lambda>inner. TLSListener inner (https_config params gp)) (OpenJSON env innerSpec w)))"
  by pat_completeness auto

text \<open>Strings get shorter with every level, objects smaller.\<close>

termination
proof (relation "measure (\<lambda>x. case x of
      Inl (Inl (e, s, w)) \<Rightarrow> 3 * length s
    | Inl (Inr (e, t, p, a, w)) \<Rightarrow> 3 * (length a + params_size p) + 2
    | Inr (Inl (e, p, w)) \<Rightarrow> 3 * params_size (Some p) + 3
    | Inr (Inr (Inl (e, p, a, w))) \<Rightarrow> 3 * (length a + params_size p) + 1
    | Inr (Inr (Inr (e, p, a, w))) \<Rightarrow> 3 * (length a + params_size p) + 1)", simp_all add: Let_def, goal_cases)
  case (1 spec fields)
  then show ?case using fields_shorter(1) [of spec "CHR '':''"] by (simp add: params_size_def)
next
  case (2 params arg spec)
  then show ?case using as_object_size [of params "''listener''" spec] by simp
next
  case (3 env params arg w fields gp w')
  then show ?case using fields_shorter(2) [of "CHR '':''" arg] by simp
next
  case (4 env params arg w r w' gp spec)
  then show ?case using as_object_size [of params "''listener''" spec] by simp
qed

declare Open.simps [simp del] openType.simps [simp del] OpenJSON.simps [simp del]
  openProxyListener.simps [simp del] openHTTPSListener.simps [simp del]

section \<open>Open all, close all\<close>

text \<open>\<^verbatim>\<open>Close\<close> of a listener: the result, the listener and the system afterwards.\<close>

fun listener_Close ::
  "listener \<Rightarrow> os_state \<Rightarrow> go_panic + (go_error option \<times> listener \<times> os_state)"
where
  "listener_Close (SocketListener n) s =
     (case sock_Close n s of (r, s) \<Rightarrow> Inr (r, SocketListener n, s))"
| "listener_Close (WatchedListener wl) s =
     map_sum id (\<lambda>(r, wl, s). (r, WatchedListener wl, s)) (wl_Close wl s)"
| "listener_Close (ProxyListener closed inner) s =
     (if closed then Inr (Some NetErrClosed, ProxyListener closed inner, s)
      else map_sum id (\<lambda>(r, inner, s). (r, ProxyListener True inner, s)) (listener_Close inner s))"
| "listener_Close (TLSListener inner config) s =
     map_sum id (\<lambda>(r, inner, s). (r, TLSListener inner config, s)) (listener_Close inner s)"

text \<open>
  \<^verbatim>\<open>Addr\<close>: the PROXY and the TLS listener pass the call on. \<open>addr_of\<close> is the
  standard library's answer for a TCP or an inherited socket, for which the kernel may have
  chosen the port.
\<close>

fun listener_Addr :: "(nat \<Rightarrow> socket \<Rightarrow> addr) \<Rightarrow> listener \<Rightarrow> os_state \<Rightarrow> addr option" where
  "listener_Addr addr_of (SocketListener n) s = map_option (addr_of n) (map_of (os_socks s) n)"
| "listener_Addr addr_of (WatchedListener wl) s = wl_Addr wl s"
| "listener_Addr addr_of (ProxyListener closed inner) s = listener_Addr addr_of inner s"
| "listener_Addr addr_of (TLSListener inner config) s = listener_Addr addr_of inner s"

fun CloseAll :: "listener list \<Rightarrow> os_state \<Rightarrow> go_panic + os_state" where
  "CloseAll [] s = Inr s"
| "CloseAll (listener # listeners) s =
     (case listener_Close listener s of
        Inl p \<Rightarrow> Inl p
      | Inr (_, _, s) \<Rightarrow> CloseAll listeners s)"

text \<open>
  The loop of \<^verbatim>\<open>OpenAll\<close>, over the function that opens one listener. A panic there ends
  it as it is: what was opened before stays open.
\<close>

fun OpenAll_loop ::
  "(string \<Rightarrow> world \<Rightarrow> open_result) \<Rightarrow> string list \<Rightarrow> listener list \<Rightarrow> world \<Rightarrow>
   go_panic + ((go_error + listener list) \<times> world)"
where
  "OpenAll_loop opn [] listeners w = Inr (Inr listeners, w)"
| "OpenAll_loop opn (spec # specs) listeners w =
     (case opn spec w of
        (Inl (Panics p), w) \<Rightarrow> Inl p
      | (Inl (Fails err), w) \<Rightarrow>
          (case CloseAll listeners (w_os w) of
             Inl p \<Rightarrow> Inl p
           | Inr s \<Rightarrow> Inr (Inl (ErrorfW ''%s: %w'' [ArgStr spec] err), w\<lparr>w_os := s\<rparr>))
      | (Inr listener, w) \<Rightarrow> OpenAll_loop opn specs (listeners @ [listener]) w)"

definition OpenAll ::
  "open_env \<Rightarrow> string list \<Rightarrow> world \<Rightarrow> go_panic + ((go_error + listener list) \<times> world)"
where
  "OpenAll env specs w = OpenAll_loop (Open env) specs [] w"

end
