(* ===== verification/Listener_Contract.thy ===== *)
theory Listener_Contract
  imports Listener_Open
begin

text \<open>
  What every opener promises, whatever the specification: after an error or a panic the open
  sockets are those there were, after a success there is exactly one more, the one at the bottom of
  the listener that is returned. The locale \<open>opener_contract\<close> states it; what \<^verbatim>\<open>OpenAll\<close>
  and \<^verbatim>\<open>CloseAll\<close> do is proved from it alone, and the openers of the library are shown
  to keep it.
\<close>

section \<open>Sockets of a listener\<close>

fun base_socket :: "listener \<Rightarrow> nat" where
  "base_socket (SocketListener n) = n"
| "base_socket (WatchedListener wl) = wl_listener wl"
| "base_socket (ProxyListener closed inner) = base_socket inner"
| "base_socket (TLSListener inner config) = base_socket inner"

fun is_open :: "listener \<Rightarrow> bool" where
  "is_open (SocketListener n) = True"
| "is_open (WatchedListener wl) = (\<not> wl_closed wl)"
| "is_open (ProxyListener closed inner) = (\<not> closed \<and> is_open inner)"
| "is_open (TLSListener inner config) = is_open inner"

text \<open>From \<open>s\<close> to \<open>t\<close> the socket \<open>n\<close> was opened, and nothing else.\<close>

definition os_opens :: "nat \<Rightarrow> os_state \<Rightarrow> os_state \<Rightarrow> bool" where
  "os_opens n s t \<longleftrightarrow> (\<exists>k. os_socks t = (n, k) # os_socks s) \<and> map_of (os_socks s) n = None"

definition opened :: "failure + listener \<Rightarrow> os_state \<Rightarrow> os_state \<Rightarrow> bool" where
  "opened r s t \<longleftrightarrow> os_wf t \<and>
     (case r of
        Inl _ \<Rightarrow> os_socks t = os_socks s
      | Inr l \<Rightarrow> is_open l \<and> os_opens (base_socket l) s t)"

locale opener_contract =
  fixes opn :: "string \<Rightarrow> world \<Rightarrow> open_result"
  assumes opn_opened: "os_wf (w_os w) \<Longrightarrow> opn spec w = (r, w') \<Longrightarrow> opened r (w_os w) (w_os w')"

section \<open>Closing\<close>

lemma listener_Close_open:
  "is_open l \<Longrightarrow> map_of (os_socks s) (base_socket l) = Some k \<Longrightarrow>
     \<exists>l' t. listener_Close l s = Inr (None, l', t) \<and> \<not> (\<exists>p. listener_Close l s = Inl p)
       \<and> os_socks t = AList.delete (base_socket l) (os_socks s) \<and> os_next t = os_next s"
  by (induction l arbitrary: s)
    (fastforce simp: sock_Close_def wl_Close_def split: socket.split bool.split)+

lemma delete_filter: "AList.delete k xs = filter (\<lambda>x. fst x \<noteq> k) xs"
  by (auto simp: AList.delete_eq intro: filter_cong)

text \<open>Closing different listeners closes just their sockets.\<close>

lemma CloseAll_open:
  assumes "\<forall>l \<in> set ls. is_open l" and "distinct (map base_socket ls)"
    and "\<forall>l \<in> set ls. base_socket l \<in> dom (map_of (os_socks s))"
  shows "\<exists>t. CloseAll ls s = Inr t \<and> os_next t = os_next s
    \<and> os_socks t = filter (\<lambda>x. fst x \<notin> base_socket ` set ls) (os_socks s)"
  using assms
proof (induction ls arbitrary: s)
  case (Cons l ls)
  obtain k where "map_of (os_socks s) (base_socket l) = Some k" using Cons.prems by auto
  then obtain l' t where c: "listener_Close l s = Inr (None, l', t)"
    and t: "os_socks t = AList.delete (base_socket l) (os_socks s)" "os_next t = os_next s"
    using listener_Close_open [of l s k] Cons.prems by auto
  have "\<forall>m \<in> set ls. base_socket m \<in> dom (map_of (os_socks t))"
    using Cons.prems t(1) by (auto simp: delete_conv' image_iff)
  then obtain u where "CloseAll ls t = Inr u" "os_next u = os_next t"
    "os_socks u = filter (\<lambda>x. fst x \<notin> base_socket ` set ls) (os_socks t)"
    using Cons.IH [of t] Cons.prems by auto
  then show ?case using c t by (auto simp: delete_filter intro!: filter_cong)
qed simp

section \<open>Opening all\<close>

text \<open>The sockets of \<open>ls\<close>, the last one first, were opened on top of those in \<open>s\<close>.\<close>

definition opens_all :: "listener list \<Rightarrow> os_state \<Rightarrow> os_state \<Rightarrow> bool" where
  "opens_all ls s t \<longleftrightarrow> os_wf t \<and> (\<forall>l \<in> set ls. is_open l) \<and> distinct (map base_socket ls) \<and>
     (\<exists>news. os_socks t = news @ os_socks s \<and> map fst news = rev (map base_socket ls)) \<and>
     (\<forall>l \<in> set ls. map_of (os_socks s) (base_socket l) = None)"

lemma opens_all_Nil: "os_wf s \<Longrightarrow> opens_all [] s s"
  by (simp add: opens_all_def)

lemma opens_all_snoc:
  assumes "opens_all ls s t" and "opened (Inr l) t u"
  shows "opens_all (ls @ [l]) s u"
proof -
  obtain news where n: "os_socks t = news @ os_socks s" "map fst news = rev (map base_socket ls)"
    using assms(1) by (auto simp: opens_all_def)
  obtain k where k: "os_socks u = (base_socket l, k) # os_socks t" "map_of (os_socks t) (base_socket l) = None"
    using assms(2) by (auto simp: opened_def os_opens_def)
  have "base_socket l \<notin> fst ` set news" "map_of (os_socks s) (base_socket l) = None"
    using k(2) n(1) by (auto simp: map_of_eq_None_iff)
  moreover have "fst ` set news = base_socket ` set ls" using n(2) by (metis list.set_map set_rev)
  ultimately show ?thesis
    using assms n k by (auto simp: opens_all_def opened_def intro!: exI [of _ "(base_socket l, k) # news"])
qed

lemma opens_all_CloseAll:
  assumes "opens_all ls s t"
  shows "\<exists>u. CloseAll ls t = Inr u \<and> os_socks u = os_socks s"
proof -
  obtain news where n: "os_socks t = news @ os_socks s" "map fst news = rev (map base_socket ls)"
    using assms by (auto simp: opens_all_def)
  have set: "fst ` set news = base_socket ` set ls" using n(2) by (metis list.set_map set_rev)
  have "\<forall>l \<in> set ls. base_socket l \<in> dom (map_of (os_socks t))"
  proof
    fix l assume "l \<in> set ls"
    then have "base_socket l \<in> fst ` set (os_socks t)" using set n(1) by auto
    then show "base_socket l \<in> dom (map_of (os_socks t))" by (simp add: dom_map_of_conv_image_fst)
  qed
  then obtain u where u: "CloseAll ls t = Inr u"
    "os_socks u = filter (\<lambda>x. fst x \<notin> base_socket ` set ls) (os_socks t)"
    using CloseAll_open [of ls t] assms by (auto simp: opens_all_def)
  have "filter (\<lambda>x. fst x \<notin> base_socket ` set ls) news = []"
    using set by (auto simp: filter_empty_conv)
  moreover have "filter (\<lambda>x. fst x \<notin> base_socket ` set ls) (os_socks s) = os_socks s"
    using assms by (force simp: opens_all_def filter_id_conv map_of_eq_None_iff)
  ultimately show ?thesis using u n(1) by simp
qed

context opener_contract
begin

text \<open>
  All or nothing: an error closes what was opened before it. Only a panic of an opener ends
  the loop otherwise.
\<close>

lemma OpenAll_loop_result:
  assumes "opens_all ls s (w_os w)"
  shows "case OpenAll_loop opn specs ls w of
      Inl p \<Rightarrow> \<exists>spec \<in> set specs. \<exists>v. fst (opn spec v) = Inl (Panics p)
    | Inr (Inl e, w') \<Rightarrow> os_socks (w_os w') = os_socks s \<and>
        (\<exists>spec \<in> set specs. \<exists>v err. fst (opn spec v) = Inl (Fails err) \<and> e = ErrorfW ''%s: %w'' [ArgStr spec] err)
    | Inr (Inr ls', w') \<Rightarrow> length ls' = length ls + length specs \<and> opens_all ls' s (w_os w')"
  using assms
proof (induction specs arbitrary: ls w)
  case (Cons spec specs)
  obtain r w1 where o: "opn spec w = (r, w1)" by (cases "opn spec w")
  then have fst: "\<exists>v. fst (opn spec v) = r" by (intro exI [of _ w]) simp
  have op: "opened r (w_os w) (w_os w1)"
    using opn_opened [OF _ o] Cons.prems by (simp add: opens_all_def)
  show ?case
  proof (cases r)
    case (Inl x)
    have "opens_all ls s (w_os w1)"
      using Cons.prems op Inl by (simp add: opens_all_def opened_def)
    from opens_all_CloseAll [OF this] obtain u
      where "CloseAll ls (w_os w1) = Inr u" "os_socks u = os_socks s" by blast
    then show ?thesis using o fst Inl by (cases x) simp_all
  next
    case (Inr l)
    have "opens_all (ls @ [l]) s (w_os w1)"
      using opens_all_snoc [OF Cons.prems] op Inr by simp
    from Cons.IH [OF this] show ?thesis using o Inr by (auto split: sum.splits prod.splits)
  qed
qed simp

end

section \<open>The openers of the library\<close>

text \<open>Calls that leave the sockets alone.\<close>

definition keeps :: "os_state \<Rightarrow> os_state \<Rightarrow> bool" where
  "keeps s t \<longleftrightarrow> os_socks t = os_socks s \<and> os_next s \<le> os_next t"

lemma keeps_refl [simp]: "keeps s s" and keeps_trans: "keeps s t \<Longrightarrow> keeps t u \<Longrightarrow> keeps s u"
  and keeps_wf: "keeps s t \<Longrightarrow> os_wf s \<Longrightarrow> os_wf t"
  and keeps_socks: "keeps s t \<Longrightarrow> os_socks t = os_socks s"
  by (auto simp: keeps_def os_wf_def)

lemma os_calls_keep:
  "os_MkdirTemp env d p s = (mr, t) \<Longrightarrow> keeps s t"
  "os_Chmod env q mode s = (ce, t) \<Longrightarrow> keeps s t"
  "os_Rename env q q' s = (re, t) \<Longrightarrow> keeps s t"
  "keeps s (snd (os_Remove env q s))"
  "keeps s (os_CloseFile f s)"
  by (auto simp: os_MkdirTemp_def os_Chmod_def os_Rename_def os_Remove_def os_CloseFile_def keeps_def Let_def
      split: option.splits if_splits)

lemma new_sock_opens:
  "os_wf s \<Longrightarrow> os_new_sock k s = (n, t) \<Longrightarrow> os_wf t \<and> os_opens n s t"
  using os_wf_fresh os_wf_new_sock by (auto simp: os_new_sock_def os_opens_def)

lemma os_wf_link [simp]: "os_wf (os_link p i s) = os_wf s"
  by (simp add: os_wf_def)

lemma os_wf_fewer:
  "os_wf s \<Longrightarrow> set (os_socks t) \<subseteq> set (os_socks s) \<Longrightarrow> os_next s \<le> os_next t \<Longrightarrow> os_wf t"
  by (fastforce simp: os_wf_def)

lemma os_listen_opens:
  assumes "os_wf s"
  shows "net_ListenTCP env network ip port s = (r, t) \<Longrightarrow>
      os_wf t \<and> (case r of Inl _ \<Rightarrow> os_socks t = os_socks s | Inr n \<Rightarrow> os_opens n s t)"
    and "net_FileListener env f name s = (q, t) \<Longrightarrow>
      os_wf t \<and> (case q of Inl _ \<Rightarrow> os_socks t = os_socks s | Inr n \<Rightarrow> os_opens n s t)"
    and "net_ListenUnix env p s = (r, t) \<Longrightarrow>
      os_wf t \<and> (case r of Inl _ \<Rightarrow> os_socks t = os_socks s | Inr n \<Rightarrow> os_opens n s t)"
  using assms new_sock_opens [OF assms]
  by (fastforce simp: net_ListenTCP_def net_FileListener_def net_ListenUnix_def os_opens_def
      split: option.splits if_splits prod.splits)+

lemma SetUnlink_opens:
  "os_opens n s t \<Longrightarrow> os_opens n s (sock_SetUnlinkOnClose n b t) \<and> os_next (sock_SetUnlinkOnClose n b t) = os_next t"
  by (auto simp: os_opens_def sock_SetUnlinkOnClose_def split: socket.splits)

lemma opens_keeps: "os_opens n s t \<Longrightarrow> keeps t u \<Longrightarrow> os_opens n s u"
  by (auto simp: os_opens_def keeps_def)

lemma opens_Close:
  "os_opens n s t \<Longrightarrow> os_socks (snd (sock_Close n t)) = os_socks s \<and> os_next (snd (sock_Close n t)) = os_next t"
  by (auto simp: os_opens_def sock_Close_def delete_fresh split: socket.split bool.split)

lemma Listen_defers_socks:
  "keeps s (Listen_defers env d q None s)"
  "os_opens n s t \<Longrightarrow> os_socks (Listen_defers env d q (Some n) t) = os_socks s
     \<and> os_next t \<le> os_next (Listen_defers env d q (Some n) t)"
proof -
  have r: "keeps u (snd (os_Remove env d (snd (os_Remove env q u))))" for u
    using os_calls_keep(4) keeps_trans by blast
  show "keeps s (Listen_defers env d q None s)" using r by (simp add: Listen_defers_def)
  show "os_socks (Listen_defers env d q (Some n) t) = os_socks s
     \<and> os_next t \<le> os_next (Listen_defers env d q (Some n) t)" if "os_opens n s t"
    using r [of "snd (sock_Close n t)"] opens_Close [OF that] by (auto simp: Listen_defers_def keeps_def)
qed

text \<open>\<^verbatim>\<open>unix.Listen\<close>: on every path the temporary socket is handed over or closed.\<close>

lemma Listen_after_opens:
  assumes s: "os_wf s" and o: "os_opens n s u" and wf: "os_wf u"
    and L: "(case os_Chmod env q mode u of
      (Some err, s) \<Rightarrow> (Inl err, Listen_defers env d q (Some n) s)
    | (None, s) \<Rightarrow>
        (case os_Lstat env q s of
           Inl err \<Rightarrow> (Inl err, Listen_defers env d q (Some n) s)
         | Inr fileInfo \<Rightarrow>
             (case os_Rename env q path s of
                (Some err, s) \<Rightarrow> (Inl err, Listen_defers env d q (Some n) s)
              | (None, s) \<Rightarrow>
                  (Inr (newWatchedListener n path fileInfo), Listen_defers env d q None s)))) = (r, t)"
  shows "opened (map_sum Fails WatchedListener r) s t"
proof -
  have fail: "opened (Inl (Fails e)) s (Listen_defers env d q (Some n) v)" if v: "keeps u v" for v e
  proof -
    have "os_opens n s v" by (rule opens_keeps [OF o v])
    note t = this Listen_defers_socks(2) [OF this, of env d q]
    have "os_wf (Listen_defers env d q (Some n) v)"
      by (rule os_wf_fewer [OF keeps_wf [OF v wf]]) (use t in \<open>auto simp: os_opens_def\<close>)
    then show ?thesis using t by (simp add: opened_def)
  qed
  obtain ce v where c: "os_Chmod env q mode u = (ce, v)" by (cases "os_Chmod env q mode u")
  note v = os_calls_keep(2) [OF c]
  obtain re x where rn: "os_Rename env q path v = (re, x)" by (cases "os_Rename env q path v")
  have x: "keeps u x" using keeps_trans [OF v os_calls_keep(3) [OF rn]] .
  have "opened (Inr (WatchedListener (newWatchedListener n path i))) s (Listen_defers env d q None x)" for i
    using keeps_wf [OF keeps_trans [OF x Listen_defers_socks(1)] wf]
      opens_keeps [OF o keeps_trans [OF x Listen_defers_socks(1)]]
    by (simp add: opened_def newWatchedListener_def)
  then show ?thesis
    using L c rn fail [OF v] fail [OF x] by (auto split: option.splits sum.splits)
qed

lemma Listen_opened:
  assumes s: "os_wf s" and L: "Listen env path mode s = (r, t)"
  shows "opened (map_sum Fails WatchedListener r) s t"
proof -
  obtain dr u where mk: "os_MkdirTemp env (filepath_Dir path) ''.tmp'' s = (dr, u)"
    by (cases "os_MkdirTemp env (filepath_Dir path) ''.tmp'' s")
  note u = os_calls_keep(1) [OF mk]
  have wu: "os_wf u" by (rule keeps_wf [OF u s])
  show ?thesis
  proof (cases dr)
    case (Inl e)
    then show ?thesis using L mk wu keeps_socks [OF u] by (auto simp: Listen_def opened_def)
  next
    case (Inr d)
    let ?q = "filepath_Join d ''socket''"
    obtain nr v where li: "net_ListenUnix env ?q u = (nr, v)" by (cases "net_ListenUnix env ?q u")
    note l = os_listen_opens(3) [OF wu li]
    show ?thesis
    proof (cases nr)
      case (Inl e)
      have "keeps v (snd (os_Remove env d v))" by (rule os_calls_keep(4))
      then show ?thesis using L mk li Inr Inl l keeps_socks [OF u]
        by (auto simp: Listen_def opened_def keeps_socks dest: keeps_wf)
    next
      case (Inr n)
      have "os_opens n s v" using l Inr keeps_socks [OF u] by (simp add: os_opens_def)
      then have o: "os_opens n s (sock_SetUnlinkOnClose n False v)"
        and nx: "os_next (sock_SetUnlinkOnClose n False v) = os_next v"
        using SetUnlink_opens by blast+
      have "os_wf (sock_SetUnlinkOnClose n False v)"
        using o nx l Inr \<open>os_opens n s v\<close> by (auto simp: os_wf_def os_opens_def)
      from Listen_after_opens [OF s o this] show ?thesis
        using L mk li \<open>dr = Inr d\<close> Inr by (simp add: Listen_def Let_def)
    qed
  qed
qed

lemma opened_error: "os_wf s \<Longrightarrow> opened (Inl e) s s"
  by (simp add: opened_def)

lemma with_os_opened:
  assumes "with_os f g w = (r, w')" and "\<And>q t. f (w_os w) = (q, t) \<Longrightarrow> opened (map_sum Fails g q) (w_os w) t"
  shows "opened r (w_os w) (w_os w')"
  using assms by (cases "f (w_os w)") (auto simp: with_os_def)

lemma file_listener_opened:
  assumes "os_wf (w_os w)" and "file_listener env fd name w = (r, w')"
  shows "opened r (w_os w) (w_os w')"
proof -
  obtain q u where u: "net_FileListener (oe_os env) (os_NewFile fd) name (w_os w) = (q, u)"
    by (cases "net_FileListener (oe_os env) (os_NewFile fd) name (w_os w)")
  then have r: "r = map_sum id SocketListener q" "w_os w' = os_CloseFile (os_NewFile fd) u"
    using assms(2) by (auto simp: file_listener_def Let_def)
  have k: "keeps u (w_os w')" unfolding r(2) by (rule os_calls_keep(5))
  show ?thesis using os_listen_opens(2) [OF assms(1) u] keeps_wf [OF k] keeps_socks [OF k]
      opens_keeps [OF _ k] r(1)
    by (cases q) (auto simp: opened_def)
qed

lemma openFDListener_opened:
  "os_wf (w_os w) \<Longrightarrow> openFDListener env params arg w = (r, w') \<Longrightarrow> opened r (w_os w) (w_os w')"
  unfolding openFDListener_def
  by (auto simp: opened_error intro: file_listener_opened split: option.splits sum.splits if_splits)

lemma fdname_loop_opened:
  "os_wf (w_os w) \<Longrightarrow> fdname_loop env name names i w = (r, w') \<Longrightarrow> opened r (w_os w) (w_os w')"
  by (induction env name names i w rule: fdname_loop.induct)
    (auto simp: opened_error intro: file_listener_opened split: if_splits)

lemma openFDNameListener_opened:
  "os_wf (w_os w) \<Longrightarrow> openFDNameListener env params arg w = (r, w') \<Longrightarrow> opened r (w_os w) (w_os w')"
  unfolding openFDNameListener_def Let_def
  by (auto simp: opened_error intro: fdname_loop_opened split: option.splits sum.splits if_splits)

lemma tcp_opened:
  assumes "os_wf s" and "net_ListenTCP env network ip port s = (q, t)"
  shows "opened (map_sum Fails SocketListener q) s t"
  using os_listen_opens(1) [OF assms] by (cases q) (auto simp: opened_def)

lemma openTCPListener_opened:
  "os_wf (w_os w) \<Longrightarrow> openTCPListener env params arg w = (r, w') \<Longrightarrow> opened r (w_os w) (w_os w')"
  unfolding openTCPListener_def
  by (auto simp: opened_error intro: with_os_opened tcp_opened split: option.splits sum.splits prod.splits if_splits)

lemma openUnixListener_opened:
  "os_wf (w_os w) \<Longrightarrow> openUnixListener env params arg w = (r, w') \<Longrightarrow> opened r (w_os w) (w_os w')"
  unfolding openUnixListener_def
  by (auto simp: opened_error intro: with_os_opened Listen_opened split: option.splits if_splits)

lemma wrap_opened:
  assumes "\<And>l. base_socket (f l) = base_socket l" and "\<And>l. is_open l \<Longrightarrow> is_open (f l)"
    and "wrap f x = (r, w')" and "\<And>q. x = (q, w') \<Longrightarrow> opened q s (w_os w')"
  shows "opened r s (w_os w')"
  using assms by (cases x) (auto simp: wrap_def opened_def split: sum.splits)

text \<open>What the library relies on for openers of the program.\<close>

definition custom_ok :: "open_env \<Rightarrow> bool" where
  "custom_ok env \<longleftrightarrow> (\<forall>name params arg w r w'. os_wf (w_os w) \<longrightarrow>
     oe_custom env name params arg w = (r, w') \<longrightarrow> opened r (w_os w) (w_os w'))"

lemma https_getter_os:
  "w_os (snd (https_arg_getter env c w)) = w_os w"
  "w_os (snd (https_params_getter env params w)) = w_os w"
  by (auto simp: https_arg_getter_def https_params_getter_def GetCertificateFromDirectory_def
      GetCertificateFromFile_def Let_def split: option.split)

lemmas Open_induct = Open_openType_OpenJSON_openProxyListener_openHTTPSListener.induct

text \<open>The recursive openers, given that the inner listener is opened as promised.\<close>

lemma openProxyListener_opened:
  assumes "os_wf (w_os w)" and r: "openProxyListener env params arg w = (r, w')"
    and str: "\<And>q u. arg \<noteq> [] \<Longrightarrow> Open env arg w = (q, u) \<Longrightarrow> opened q (w_os w) (w_os u)"
    and obj: "\<And>obj q u. arg = [] \<Longrightarrow> as_object (param params ''listener'') = Some obj \<Longrightarrow>
      OpenJSON env obj w = (q, u) \<Longrightarrow> opened q (w_os w) (w_os u)"
  shows "opened r (w_os w) (w_os w')"
proof (cases "arg = []")
  case False
  show ?thesis
    by (rule wrap_opened [where f = "ProxyListener False" and x = "Open env arg w"])
      (use r False str in \<open>auto simp: openProxyListener.simps\<close>)
next
  case True
  show ?thesis
  proof (cases "as_object (param params ''listener'')")
    case None
    then show ?thesis using True r assms(1) by (auto simp: openProxyListener.simps opened_error)
  next
    case (Some spec)
    show ?thesis
      by (rule wrap_opened [where f = "ProxyListener False" and x = "OpenJSON env spec w"])
        (use r True Some obj in \<open>auto simp: openProxyListener.simps\<close>)
  qed
qed

lemma openHTTPSListener_string_opened:
  assumes "os_wf (w_os w)" and r: "openHTTPSListener env params arg w = (r, w')" and a: "arg \<noteq> []"
    and str: "\<And>gp u q v. \<not> length (strings_SplitN2 CHR '':'' arg) < 2 \<Longrightarrow>
      https_arg_getter env (strings_SplitN2 CHR '':'' arg ! 0) w = (gp, u) \<Longrightarrow>
      Open env (strings_SplitN2 CHR '':'' arg ! 1) u = (q, v) \<Longrightarrow> opened q (w_os w) (w_os v)"
  shows "opened r (w_os w) (w_os w')"
proof (cases "length (strings_SplitN2 CHR '':'' arg) < 2")
  case True
  then show ?thesis using a r assms(1) by (auto simp: openHTTPSListener.simps opened_error)
next
  case L: False
  let ?fields = "strings_SplitN2 CHR '':'' arg"
  obtain gp u where g: "https_arg_getter env (?fields ! 0) w = (gp, u)"
    by (cases "https_arg_getter env (?fields ! 0) w")
  show ?thesis
    by (rule wrap_opened [where f = "\<lambda>inner. TLSListener inner (https_config params gp)"
          and x = "Open env (?fields ! 1) u"])
      (use r a L g str in \<open>auto simp: openHTTPSListener.simps\<close>)
qed

lemma openHTTPSListener_object_opened:
  assumes "os_wf (w_os w)" and r: "openHTTPSListener env params [] w = (r, w')"
    and obj: "\<And>gp u spec q v. https_params_getter env params w = (Inr gp, u) \<Longrightarrow>
      as_object (param params ''listener'') = Some spec \<Longrightarrow>
      OpenJSON env spec u = (q, v) \<Longrightarrow> opened q (w_os w) (w_os v)"
  shows "opened r (w_os w) (w_os w')"
proof -
  obtain q u where g: "https_params_getter env params w = (q, u)" by (cases "https_params_getter env params w")
  then have u: "w_os u = w_os w" using https_getter_os(2) [of env params w] by simp
  show ?thesis
  proof (cases "\<exists>gp spec. q = Inr gp \<and> as_object (param params ''listener'') = Some spec")
    case False
    then show ?thesis using r g u assms(1)
      by (auto simp: openHTTPSListener.simps opened_error split: sum.splits option.splits)
  next
    case True
    then obtain gp spec where q: "q = Inr gp" "as_object (param params ''listener'') = Some spec" by blast
    show ?thesis
      by (rule wrap_opened [where f = "\<lambda>inner. TLSListener inner (https_config params gp)"
            and x = "OpenJSON env spec u"])
        (use r g q obj in \<open>auto simp: openHTTPSListener.simps\<close>)
  qed
qed

lemma Open_opened_all:
  "custom_ok env \<Longrightarrow> os_wf (w_os w) \<Longrightarrow> Open env spec w = (r, w') \<Longrightarrow> opened r (w_os w) (w_os w')"
  "custom_ok env \<Longrightarrow> os_wf (w_os w) \<Longrightarrow> openType env listenerType params argument w = (r, w') \<Longrightarrow>
     opened r (w_os w) (w_os w')"
  "custom_ok env \<Longrightarrow> os_wf (w_os w) \<Longrightarrow> OpenJSON env obj w = (r, w') \<Longrightarrow> opened r (w_os w) (w_os w')"
  "custom_ok env \<Longrightarrow> os_wf (w_os w) \<Longrightarrow> openProxyListener env params argument w = (r, w') \<Longrightarrow>
     opened r (w_os w) (w_os w')"
  "custom_ok env \<Longrightarrow> os_wf (w_os w) \<Longrightarrow> openHTTPSListener env params argument w = (r, w') \<Longrightarrow>
     opened r (w_os w) (w_os w')"
proof (induction env spec w and env listenerType params argument w and env obj w
    and env params argument w and env params argument w arbitrary: r w' and r w' and r w' and r w' and r w'
    rule: Open_induct)
  case (1 env spec w)
  then show ?case
    by (auto simp: Open.simps [of env spec w] Let_def intro: openTCPListener_opened split: if_splits)
next
  case (2 env listenerType params argument w)
  show ?case
  proof (cases "getOpenListenerFunc (oe_registry env) listenerType")
    case None
    then show ?thesis using 2 by (auto simp: openType.simps opened_error)
  next
    case (Some f)
    then show ?thesis using 2
      by (cases f)
        (auto simp: openType.simps custom_ok_def intro: openFDListener_opened openFDNameListener_opened
          openTCPListener_opened openUnixListener_opened)
  qed
next
  case (3 env obj w)
  then show ?case by (auto simp: OpenJSON.simps opened_error split: option.splits)
next
  case (4 env params arg w)
  show ?case
    by (rule openProxyListener_opened [OF 4(4,5)]) (use 4 in auto)
next
  case (5 env params arg w)
  show ?case
  proof (cases "arg = []")
    case False
    show ?thesis
    proof (rule openHTTPSListener_string_opened [OF 5(4,5) False])
      fix gp u q v
      assume L: "\<not> length (strings_SplitN2 CHR '':'' arg) < 2"
        and g: "https_arg_getter env (strings_SplitN2 CHR '':'' arg ! 0) w = (gp, u)"
        and o: "Open env (strings_SplitN2 CHR '':'' arg ! 1) u = (q, v)"
      have "w_os u = w_os w" using https_getter_os(1) [of env "strings_SplitN2 CHR '':'' arg ! 0" w] g by simp
      then show "opened q (w_os w) (w_os v)"
        using 5(1) [OF False refl L g [symmetric], of q v] o 5(3,4) by simp
    qed
  next
    case True
    show ?thesis
    proof (rule openHTTPSListener_object_opened [OF 5(4)])
      fix gp u spec q v
      assume g: "https_params_getter env params w = (Inr gp, u)"
        and l: "as_object (param params ''listener'') = Some spec" and o: "OpenJSON env spec u = (q, v)"
      have "w_os u = w_os w" using https_getter_os(2) [of env params w] g by simp
      then show "opened q (w_os w) (w_os v)"
        using 5(2) [OF _ g [symmetric] refl l, of q v] o 5(3,4) True by simp
    qed (use 5(5) True in simp)
  qed
qed

lemmas Open_opened = Open_opened_all(1) and OpenJSON_opened = Open_opened_all(3)

lemma Open_contract: "custom_ok env \<Longrightarrow> opener_contract (Open env)"
  by unfold_locales (rule Open_opened)

text \<open>
  The library without openers of the program (the default registry never asks for one): its
  \<^verbatim>\<open>Open\<close> provides the contract, for every operating system.
\<close>

definition library_env :: "os_env \<Rightarrow> string \<Rightarrow> open_env" where
  "library_env os alpn = \<lparr>oe_os = os, oe_registry = default_registry,
     oe_custom = (\<lambda>_ _ _ w. (Inl (Fails (ErrorsNew ''no opener of the program'')), w)), oe_ALPNProto = alpn\<rparr>"

lemma library_env_ok: "custom_ok (library_env os alpn)"
  by (auto simp: custom_ok_def library_env_def opened_error)

interpretation lib: opener_contract "Open (library_env os alpn)" for os alpn
  by (rule Open_contract [OF library_env_ok])

section \<open>Properties\<close>

text \<open>
  C2: \<^verbatim>\<open>OpenAll\<close> is all or nothing. If it returns an error, that error is the one of a
  specification, with its text in front, and the open sockets are those there were before,
  whichever specification it was; if it returns listeners, there is one open listener for
  each specification, no two on one socket, and \<^verbatim>\<open>CloseAll\<close> of them closes their sockets
  and no other. It ends otherwise only if an opener panics.
\<close>

theorem OpenAll_all_or_nothing:
  assumes "custom_ok env" and "os_wf (w_os w)"
  shows "case OpenAll env specs w of
      Inl p \<Rightarrow> \<exists>spec \<in> set specs. \<exists>v. fst (Open env spec v) = Inl (Panics p)
    | Inr (Inl e, w') \<Rightarrow> os_socks (w_os w') = os_socks (w_os w) \<and>
        (\<exists>spec \<in> set specs. \<exists>v err. fst (Open env spec v) = Inl (Fails err)
          \<and> e = ErrorfW ''%s: %w'' [ArgStr spec] err)
    | Inr (Inr ls, w') \<Rightarrow> length ls = length specs \<and> (\<forall>l \<in> set ls. is_open l) \<and> distinct (map base_socket ls)
         \<and> (\<exists>u. CloseAll ls (w_os w') = Inr u \<and> os_socks u = os_socks (w_os w))"
proof -
  note r = opener_contract.OpenAll_loop_result [OF Open_contract [OF assms(1)]
      opens_all_Nil [OF assms(2)], of specs, folded OpenAll_def]
  show ?thesis
  proof (cases "\<exists>ls w'. OpenAll env specs w = Inr (Inr ls, w')")
    case True
    then obtain ls w' where o: "OpenAll env specs w = Inr (Inr ls, w')" by blast
    then have "opens_all ls (w_os w) (w_os w')" "length ls = length specs" using r by simp_all
    then show ?thesis using o opens_all_CloseAll [of ls "w_os w" "w_os w'"] by (simp add: opens_all_def)
  next
    case False
    then show ?thesis using r by (auto split: sum.splits)
  qed
qed

text \<open>An instance: two sockets, and a third specification that is wrong.\<close>

definition demo_world :: world where
  "demo_world = \<lparr>w_os = demo_os, w_global = initial_global\<rparr>"

lemma demo_world_wf: "os_wf (w_os demo_world)"
  by (simp add: demo_world_def demo_os_def os_wf_def)

theorem OpenAll_all_or_nothing_witness:
  "case OpenAll (library_env demo_env ''acme-tls/1'') [''tcp:80'', ''unix:/run/s'', ''tcp:x''] demo_world of
     Inl p \<Rightarrow> False
   | Inr (Inl _, w') \<Rightarrow> os_socks (w_os w') = []
   | Inr (Inr ls, w') \<Rightarrow> False"
proof -
  have "case OpenAll (library_env demo_env ''acme-tls/1'') [''tcp:80'', ''unix:/run/s'', ''tcp:x''] demo_world of
      Inr (Inl _, w') \<Rightarrow> True | _ \<Rightarrow> False"
    by code_simp
  moreover have "os_socks (w_os demo_world) = []" by (simp add: demo_world_def demo_os_def)
  ultimately show ?thesis
    using OpenAll_all_or_nothing [OF library_env_ok [of demo_env "''acme-tls/1''"] demo_world_wf, where specs = "[''tcp:80'', ''unix:/run/s'', ''tcp:x'']"]
    by (simp split: sum.splits prod.splits)
qed

text \<open>
  C24: Whatever the JSON object, \<^verbatim>\<open>OpenJSON\<close> either fails, with an error or a panic, and
  leaves the open sockets as they were, or returns a listener that is open on exactly one new socket, which its
  \<^verbatim>\<open>Close\<close> closes again without an error.
\<close>

theorem OpenJSON_one_socket:
  assumes "custom_ok env" and "os_wf (w_os w)" and "OpenJSON env obj w = (r, w')"
  shows "case r of
      Inl _ \<Rightarrow> os_socks (w_os w') = os_socks (w_os w)
    | Inr l \<Rightarrow> os_opens (base_socket l) (w_os w) (w_os w')
        \<and> (\<exists>l' u. listener_Close l (w_os w') = Inr (None, l', u) \<and> os_socks u = os_socks (w_os w))"
proof (cases r)
  case (Inr l)
  have o: "is_open l" "os_opens (base_socket l) (w_os w) (w_os w')"
    using OpenJSON_opened [OF assms] Inr by (simp_all add: opened_def)
  then obtain k where k: "os_socks (w_os w') = (base_socket l, k) # os_socks (w_os w)"
    "map_of (os_socks (w_os w)) (base_socket l) = None"
    by (auto simp: os_opens_def)
  then show ?thesis using listener_Close_open [OF o(1), of "w_os w'" k] o(2) Inr
    by (auto simp: delete_fresh)
qed (use OpenJSON_opened [OF assms] in \<open>simp add: opened_def\<close>)

definition demo_object :: object where
  "demo_object = [(''type'', GoString ''proxy''),
     (''listener'', GoObject [(''type'', GoString ''tcp''), (''port'', GoNumber ''80'')])]"

theorem OpenJSON_one_socket_witness:
  "\<exists>l' u. listener_Close (ProxyListener False (SocketListener 2))
      (w_os (snd (OpenJSON (library_env demo_env ''acme-tls/1'') demo_object demo_world))) = Inr (None, l', u)
    \<and> os_socks u = []"
proof -
  have "fst (OpenJSON (library_env demo_env ''acme-tls/1'') demo_object demo_world) =
      Inr (ProxyListener False (SocketListener 2))" by code_simp
  then have "OpenJSON (library_env demo_env ''acme-tls/1'') demo_object demo_world =
      (Inr (ProxyListener False (SocketListener 2)),
       snd (OpenJSON (library_env demo_env ''acme-tls/1'') demo_object demo_world))"
    by (metis prod.collapse)
  from OpenJSON_one_socket [OF library_env_ok demo_world_wf this] show ?thesis
    by (auto simp: demo_world_def demo_os_def)
qed

end
