(* ===== verification/Listener_Syntax.thy ===== *)
theory Listener_Syntax
  imports Listener_Contract
begin

text \<open>
  The listener syntax that README documents: an abstract syntax, how it is written as a
  string, and what it means. \<^verbatim>\<open>Open\<close> is shown to implement that meaning, and \<^verbatim>\<open>OpenJSON\<close>
  to implement it for all but two kinds of specification, given as an object with the
  members that the openers read.
\<close>

section \<open>Abstract syntax\<close>

datatype cert_spec =
    CertFile string
  | CertDirectory string
  | CertHostnames "string list"

datatype listener_spec =
    TcpPort string
  | TcpAddress string string
  | UnixPath string
  | FdNumber string
  | FdName string
  | Proxied listener_spec
  | Tls cert_spec listener_spec

section \<open>Strings\<close>

fun cert_string :: "cert_spec \<Rightarrow> string" where
  "cert_string (CertFile f) = f"
| "cert_string (CertDirectory d) = d"
| "cert_string (CertHostnames hs) = strings_Join hs CHR '',''"

fun spec_string :: "listener_spec \<Rightarrow> string" where
  "spec_string (TcpPort p) = ''tcp:'' @ p"
| "spec_string (TcpAddress ip p) =
     ''tcp:'' @ (if CHR '':'' \<in> set ip then ''['' @ ip @ '']'' else ip) @ '':'' @ p"
| "spec_string (UnixPath p) = ''unix:'' @ p"
| "spec_string (FdNumber n) = ''fd:'' @ n"
| "spec_string (FdName n) = ''fdname:'' @ n"
| "spec_string (Proxied s) = ''proxy:'' @ spec_string s"
| "spec_string (Tls c s) = ''tls:'' @ cert_string c @ '':'' @ spec_string s"

text \<open>Which parts may stand where: no separator inside a field, no empty argument.\<close>

fun wf_cert :: "cert_spec \<Rightarrow> bool" where
  "wf_cert (CertFile f) \<longleftrightarrow>
     strings_HasPrefix f CHR ''/'' \<and> \<not> strings_HasSuffix f CHR ''/'' \<and> CHR '':'' \<notin> set f"
| "wf_cert (CertDirectory d) \<longleftrightarrow>
     strings_HasPrefix d CHR ''/'' \<and> strings_HasSuffix d CHR ''/'' \<and> CHR '':'' \<notin> set d"
| "wf_cert (CertHostnames hs) \<longleftrightarrow>
     hs \<noteq> [] \<and> (\<forall>h \<in> set hs. CHR '','' \<notin> set h \<and> CHR '':'' \<notin> set h \<and> CHR ''/'' \<notin> set h)"

fun wf_spec :: "listener_spec \<Rightarrow> bool" where
  "wf_spec (TcpPort p) \<longleftrightarrow> p \<noteq> [] \<and> CHR '':'' \<notin> set p"
| "wf_spec (TcpAddress ip p) \<longleftrightarrow> ip \<noteq> [] \<and> CHR ''['' \<notin> set ip \<and> CHR '']'' \<notin> set ip
     \<and> CHR '':'' \<notin> set p \<and> CHR ''['' \<notin> set p \<and> CHR '']'' \<notin> set p"
| "wf_spec (UnixPath p) \<longleftrightarrow> p \<noteq> []"
| "wf_spec (FdNumber n) \<longleftrightarrow> n \<noteq> []"
| "wf_spec (FdName n) \<longleftrightarrow> n \<noteq> []"
| "wf_spec (Proxied s) \<longleftrightarrow> wf_spec s"
| "wf_spec (Tls c s) \<longleftrightarrow> wf_cert c \<and> wf_spec s"

section \<open>Objects\<close>




section \<open>Meaning\<close>

text \<open>Listen on TCP: an IPv4 or IPv6 address restricts the protocol.\<close>

definition listen_tcp :: "os_env \<Rightarrow> ip option \<Rightarrow> string \<Rightarrow> world \<Rightarrow> open_result" where
  "listen_tcp env ip port w =
     (case strconv_Atoi port of
        Inl err \<Rightarrow> (Inl (Fails (ErrorfW ''TCP listener has invalid port: %w'' [] err)), w)
      | Inr n \<Rightarrow>
          with_os (net_ListenTCP env
            (case ip of None \<Rightarrow> ''tcp'' | Some i \<Rightarrow> if To4 i = None then ''tcp6'' else ''tcp4'') ip n)
            SocketListener w)"

text \<open>
  Take over an inherited descriptor: duplicate it, and close the original in any case. A
  number that is not one of a descriptor makes the library panic.
\<close>

definition take_fd :: "os_env \<Rightarrow> int \<Rightarrow> string \<Rightarrow> world \<Rightarrow> open_result" where
  "take_fd env fd name w =
     (if fd < 2 ^ 63 then
        (case net_FileListener env (Some fd) name (w_os w) of
           (r, s) \<Rightarrow> (map_sum id SocketListener r,
                      w\<lparr>w_os := s\<lparr>os_closed_fds := os_closed_fds s @ [fd]\<rparr>\<rparr>))
      else (Inl (Panics NilDereference), w))"

lemma file_listener_take_fd: "file_listener env fd name w = take_fd (oe_os env) fd name w"
  by (simp add: file_listener_def take_fd_def os_NewFile_def net_FileListener_def os_CloseFile_def
      split: option.split prod.split)

text \<open>
  Socket activation: the variables must be for this process, and the descriptor is three
  plus the position of the first name that is equal.
\<close>

definition activation_ok :: "os_env \<Rightarrow> bool" where
  "activation_ok env \<longleftrightarrow> os_Getenv env ''LISTEN_PID'' \<noteq> []
     \<and> strconv_Atoi (os_Getenv env ''LISTEN_PID'') = Inr (os_Getpid env)"

definition activation_error :: "os_env \<Rightarrow> go_error" where
  "activation_error env =
     (if os_Getenv env ''LISTEN_PID'' = []
        then ErrorsNew ''cannot create fdname listener because $LISTEN_PID is not set''
      else case strconv_Atoi (os_Getenv env ''LISTEN_PID'') of
             Inl _ \<Rightarrow> ErrorsNew ''cannot create fdname listener because $LISTEN_PID does not contain an integer''
           | Inr pid \<Rightarrow>
               Errorf ''cannot create fdname listener because $LISTEN_PID (%d) does not match our PID (%d)''
                 [ArgInt pid, ArgInt (os_Getpid env)])"

definition activation_names :: "os_env \<Rightarrow> string list" where
  "activation_names env = strings_Split CHR '':'' (os_Getenv env ''LISTEN_FDNAMES'')"

definition activation_fd :: "os_env \<Rightarrow> string \<Rightarrow> int option" where
  "activation_fd env name =
     (if name \<in> set (activation_names env)
      then Some (3 + int (length (takeWhile (\<lambda>n. n \<noteq> name) (activation_names env)))) else None)"

fun cert_getter :: "os_env \<Rightarrow> cert_spec \<Rightarrow> GetCertificateFunc" where
  "cert_getter env (CertFile f) = FromFile f"
| "cert_getter env (CertDirectory d) = FromDirectory d"
| "cert_getter env (CertHostnames hs) = GetCertificateAutomatically env (Some hs)"

text \<open>The protocols offered: the challenge protocol of ACME only with automatic certificates.\<close>

fun cert_protos :: "string \<Rightarrow> cert_spec \<Rightarrow> string list" where
  "cert_protos alpn (CertHostnames hs) = [''h2'', ''http/1.1'', alpn]"
| "cert_protos alpn _ = [''h2'', ''http/1.1'']"

text \<open>Files and directories are served through the global cache.\<close>

fun cert_world :: "cert_spec \<Rightarrow> world \<Rightarrow> world" where
  "cert_world (CertHostnames hs) w = w"
| "cert_world c w = w\<lparr>w_global := snd (globalFileCache (w_global w))\<rparr>"

fun open_spec :: "open_env \<Rightarrow> listener_spec \<Rightarrow> world \<Rightarrow> open_result" where
  "open_spec env (TcpPort p) w = listen_tcp (oe_os env) None p w"
| "open_spec env (TcpAddress ip p) w =
     (case net_ParseIP ip of
        None \<Rightarrow> (Inl (Fails (ErrorsNew ''TCP listener has invalid IP address'')), w)
      | Some i \<Rightarrow> listen_tcp (oe_os env) (Some i) p w)"
| "open_spec env (UnixPath p) w = with_os (Listen (oe_os env) p 438) WatchedListener w"
| "open_spec env (FdNumber n) w =
     (case strconv_ParseUint n of
        Inl err \<Rightarrow> (Inl (Fails (Errorf (CHR 0x27 # ''%s'' @ CHR 0x27 # '' is a malformed file descriptor'') [ArgStr n])), w)
      | Inr fd \<Rightarrow> take_fd (oe_os env) fd n w)"
| "open_spec env (FdName n) w =
     (if activation_ok (oe_os env) then
        (case activation_fd (oe_os env) n of
           None \<Rightarrow> (Inl (Fails (Errorf ''fdname: %q not found in $LISTEN_FDNAMES'' [ArgStr n])), w)
         | Some fd \<Rightarrow> take_fd (oe_os env) fd n w)
      else (Inl (Fails (activation_error (oe_os env))), w))"
| "open_spec env (Proxied s) w = wrap (ProxyListener False) (open_spec env s w)"
| "open_spec env (Tls c s) w =
     wrap (\<lambda>inner. TLSListener inner
         \<lparr>GetCertificate = cert_getter (oe_os env) c, NextProtos = cert_protos (oe_ALPNProto env) c\<rparr>)
       (open_spec env s (cert_world c w))"

section \<open>Splitting what was put together\<close>

lemma LastIndexByte_append:
  "c \<notin> set b \<Longrightarrow> strings_LastIndexByte (a @ c # b) c = Some (length a)"
  by (simp add: strings_LastIndexByte_def IndexByte_append)

lemma SplitHostPort_plain:
  assumes "ip \<noteq> []" and "CHR '':'' \<notin> set (ip @ p)" and "CHR ''['' \<notin> set (ip @ p)" "CHR '']'' \<notin> set (ip @ p)"
  shows "net_SplitHostPort (ip @ CHR '':'' # p) = Inr (ip, p)"
proof -
  have "hd (ip @ CHR '':'' # p) \<noteq> CHR ''[''" using assms by (cases ip) auto
  then show ?thesis using assms by (simp add: net_SplitHostPort_def LastIndexByte_append)
qed

lemma SplitHostPort_brackets:
  assumes "CHR '':'' \<notin> set p" and "CHR ''['' \<notin> set (ip @ p)" "CHR '']'' \<notin> set (ip @ p)"
  shows "net_SplitHostPort (CHR ''['' # ip @ CHR '']'' # CHR '':'' # p) = Inr (ip, p)"
proof -
  have "strings_LastIndexByte ((CHR ''['' # ip @ [CHR '']'']) @ CHR '':'' # p) CHR '':'' = Some (length ip + 2)"
    using LastIndexByte_append [OF assms(1), of "CHR ''['' # ip @ [CHR '']'']"] by simp
  moreover have "strings_IndexByte (CHR ''['' # ip @ CHR '']'' # CHR '':'' # p) CHR '']'' = Some (length ip + 1)"
    using IndexByte_append [of "CHR '']''" "CHR ''['' # ip" "CHR '':'' # p"] assms by simp
  ultimately show ?thesis using assms by (simp add: net_SplitHostPort_def)
qed

lemma openType_default:
  assumes "oe_registry env = default_registry"
  shows "openType env ''fd'' ps a w = openFDListener env ps a w"
    "openType env ''fdname'' ps a w = openFDNameListener env ps a w"
    "openType env ''tcp'' ps a w = openTCPListener env ps a w"
    "openType env ''unix'' ps a w = openUnixListener env ps a w"
    "openType env ''proxy'' ps a w = openProxyListener env ps a w"
    "openType env ''tls'' ps a w = openHTTPSListener env ps a w"
    "openType env ''https'' ps a w = openHTTPSListener env ps a w"
  by (simp_all add: openType.simps assms default_registry_get)

text \<open>A type without a colon, a colon, and the argument.\<close>

lemma Open_type:
  assumes "CHR '':'' \<notin> set ty"
  shows "Open env (ty @ CHR '':'' # arg) w = openType env ty None arg w"
  using SplitN2_sep [OF assms, of arg] by (simp add: Open.simps strings_Contains_def Let_def)

lemma param_nil [simp]: "param None k = GoNull"
  by (simp add: param_def)

lemma fdname_loop_fd:
  "fdname_loop env name names i w =
     (if name \<in> set names
      then take_fd (oe_os env) (3 + i + int (length (takeWhile (\<lambda>n. n \<noteq> name) names))) name w
      else (Inl (Fails (Errorf ''fdname: %q not found in $LISTEN_FDNAMES'' [ArgStr name])), w))"
  by (induction names arbitrary: i) (auto simp: file_listener_take_fd algebra_simps)

text \<open>The openers, given their argument as a string or as a parameter.\<close>

lemma openFDNameListener_spec:
  assumes "(if arg \<noteq> [] then Some arg else as_string (param params ''name'')) = Some n"
  shows "openFDNameListener env params arg w = open_spec env (FdName n) w"
  unfolding openFDNameListener_def assms
  by (simp add: activation_ok_def activation_error_def activation_fd_def activation_names_def
      fdname_loop_fd Let_def split: sum.split)

lemma openFDListener_spec:
  assumes "(if arg \<noteq> [] then Some arg
            else case as_Number (param params ''fd'') of
                   Some p \<Rightarrow> Some p | None \<Rightarrow> as_string (param params ''fd'')) = Some n"
  shows "openFDListener env params arg w = open_spec env (FdNumber n) w"
  unfolding openFDListener_def assms by (simp add: file_listener_take_fd split: sum.split)

lemma openTCPListener_port:
  "tcp_strings params arg = Inr ([], p) \<Longrightarrow> openTCPListener env params arg w = open_spec env (TcpPort p) w"
  by (simp add: openTCPListener_def listen_tcp_def split: sum.split)

lemma openTCPListener_address:
  "tcp_strings params arg = Inr (ip, p) \<Longrightarrow> ip \<noteq> [] \<Longrightarrow>
     openTCPListener env params arg w = open_spec env (TcpAddress ip p) w"
  by (auto simp: openTCPListener_def listen_tcp_def split: option.split sum.split)

lemma Split_hostnames:
  "wf_cert (CertHostnames hs) \<Longrightarrow> strings_Split CHR '','' (strings_Join hs CHR '','') = hs"
  by (intro Split_Join) auto

lemma Join_chars: "x \<in> set (strings_Join hs c) \<Longrightarrow> x = c \<or> (\<exists>h \<in> set hs. x \<in> set h)"
  by (induction hs c rule: strings_Join.induct) auto

lemma cert_string_no_colon: "wf_cert c \<Longrightarrow> CHR '':'' \<notin> set (cert_string c)"
  by (cases c) (auto dest: Join_chars)

lemma https_arg_getter_spec:
  assumes "wf_cert c"
  shows "https_arg_getter env (cert_string c) w =
    ((cert_getter (oe_os env) c, cert_protos (oe_ALPNProto env) c), cert_world c w)"
proof (cases c)
  case (CertHostnames hs)
  have "\<not> strings_HasPrefix (strings_Join hs CHR '','') CHR ''/''"
  proof
    assume p: "strings_HasPrefix (strings_Join hs CHR '','') CHR ''/''"
    then have "CHR ''/'' \<in> set (strings_Join hs CHR '','')"
      by (metis strings_HasPrefix_def list.set_sel(1))
    then show False using assms CertHostnames by (auto dest: Join_chars)
  qed
  then show ?thesis using assms CertHostnames Split_hostnames [of hs]
    by (simp add: https_arg_getter_def)
qed (use assms in \<open>simp_all add: https_arg_getter_def GetCertificateFromFile_def
    GetCertificateFromDirectory_def\<close>)

lemma spec_string_not_Nil [simp]: "spec_string s \<noteq> []"
  by (cases s) simp_all

lemma https_config_None [simp]: "https_config None (f, ps) = \<lparr>GetCertificate = f, NextProtos = ps\<rparr>"
  by (simp add: https_config_def)

lemmas Open_types =
  Open_type [of "''fd''", simplified] Open_type [of "''fdname''", simplified]
  Open_type [of "''tcp''", simplified] Open_type [of "''unix''", simplified]
  Open_type [of "''proxy''", simplified] Open_type [of "''tls''", simplified]
  Open_type [of "''https''", simplified]

lemma Open_meaning:
  assumes "oe_registry env = default_registry" and "wf_spec s"
  shows "Open env (spec_string s) w = open_spec env s w"
  using assms(2)
proof (induction s arbitrary: w)
  case (TcpPort p)
  then have "tcp_strings None p = Inr ([], p)" by (simp add: tcp_strings_def strings_Contains_def)
  then show ?case using openTCPListener_port by (simp add: Open_types openType_default [OF assms(1)])
next
  case (TcpAddress ip p)
  have "tcp_strings None ((if CHR '':'' \<in> set ip then ''['' @ ip @ '']'' else ip) @ '':'' @ p) = Inr (ip, p)"
    using TcpAddress SplitHostPort_brackets [of p ip] SplitHostPort_plain [of ip p]
    by (simp add: tcp_strings_def strings_Contains_def)
  from openTCPListener_address [OF this] TcpAddress show ?case
    by (simp add: Open_types openType_default [OF assms(1)])
next
  case (UnixPath p)
  then show ?case by (simp add: Open_types openType_default [OF assms(1)] openUnixListener_def)
next
  case (FdNumber n)
  then show ?case using openFDListener_spec [of n None n]
    by (simp add: Open_types openType_default [OF assms(1)])
next
  case (FdName n)
  then show ?case using openFDNameListener_spec [of n None n]
    by (simp add: Open_types openType_default [OF assms(1)])
next
  case (Proxied s)
  then show ?case by (simp add: Open_types openType_default [OF assms(1)] openProxyListener.simps)
next
  case (Tls c s)
  have "strings_SplitN2 CHR '':'' (cert_string c @ CHR '':'' # spec_string s) = [cert_string c, spec_string s]"
    using Tls.prems by (intro SplitN2_sep cert_string_no_colon) simp
  then show ?case using Tls
    by (simp add: Open_types openType_default [OF assms(1)] openHTTPSListener.simps https_arg_getter_spec)
qed

lemma takeWhile_shorter: "x \<in> set xs \<Longrightarrow> length (takeWhile (\<lambda>y. y \<noteq> x) xs) < length xs"
  by (induction xs) auto

text \<open>A descriptor that is taken over is closed; the socket is a duplicate.\<close>

lemma take_fd_closes:
  "take_fd env fd name w = (r, w') \<Longrightarrow> fd < 2 ^ 63 \<Longrightarrow>
     os_closed_fds (w_os w') = os_closed_fds (w_os w) @ [fd]"
  by (auto simp: take_fd_def net_FileListener_def
      os_new_sock_def split: option.splits)

lemma take_fd_socket:
  "take_fd env fd name w = (Inr l, w') \<Longrightarrow>
     \<exists>k. l = SocketListener k \<and> os_socks (w_os w') = (k, SockFile fd name) # os_socks (w_os w)
       \<and> os_closed_fds (w_os w') = os_closed_fds (w_os w) @ [fd]"
  by (auto simp: take_fd_def net_FileListener_def
      os_new_sock_def split: option.splits if_splits)



definition demo_activation :: os_env where
  "demo_activation = demo_env\<lparr>os_Getpid := 7, os_Getenv := (\<lambda>v. if v = ''LISTEN_PID'' then ''7''
     else if v = ''LISTEN_FDNAMES'' then ''http:https'' else [])\<rparr>"

section \<open>Descriptors and objects\<close>

text \<open>The inherited descriptor a specification takes over, where it comes to that.\<close>

fun inherits :: "os_env \<Rightarrow> listener_spec \<Rightarrow> int option" where
  "inherits env (FdNumber n) = (case strconv_ParseUint n of Inl _ \<Rightarrow> None | Inr fd \<Rightarrow> Some fd)"
| "inherits env (FdName n) = (if activation_ok env then activation_fd env n else None)"
| "inherits env (Proxied s) = inherits env s"
| "inherits env (Tls c s) = inherits env s"
| "inherits env _ = None"

lemma with_os_returns [simp]: "fst (with_os f g w) \<noteq> Inl (Panics p)"
  by (cases "fst (f (w_os w))") (auto simp: with_os_def split: prod.splits)

lemma wrap_panics [simp]: "fst (wrap f x) = Inl (Panics p) \<longleftrightarrow> fst x = Inl (Panics p)"
  by (cases "fst x") (auto simp: wrap_def)

lemma take_fd_panics:
  "fst (take_fd env fd name w) = Inl (Panics p) \<longleftrightarrow> p = NilDereference \<and> 2 ^ 63 \<le> fd"
  by (auto simp: take_fd_def net_FileListener_def not_less os_new_sock_def split: option.split)

lemma open_spec_panics:
  "fst (open_spec env s w) = Inl (Panics p) \<longleftrightarrow>
     p = NilDereference \<and> (\<exists>fd. inherits (oe_os env) s = Some fd \<and> 2 ^ 63 \<le> fd)"
  by (induction s arbitrary: w)
    (auto simp: listen_tcp_def take_fd_panics split: option.split sum.split)

lemma wrap_error [simp]: "wrap f (Inl x, w) = (Inl x, w)"
  by (simp add: wrap_def)



lemma cert_world_os [simp]: "w_os (cert_world c w) = w_os w"
  by (cases c) simp_all



section \<open>Properties\<close>

text \<open>
  C4: \<^verbatim>\<open>Open\<close> implements the documented syntax: for every well-formed specification,
  however deeply TLS and PROXY are nested, the string it is written as opens exactly what it
  means, with the same errors and the same effects.
\<close>

theorem Open_implements_syntax:
  assumes "oe_registry env = default_registry" and "wf_spec s"
  shows "Open env (spec_string s) w = open_spec env s w"
  using assms by (rule Open_meaning)

theorem Open_implements_syntax_witness:
  "Open (library_env demo_env ''acme-tls/1'') ''tls:/etc/ssl/example.com.pem:proxy:unix:/run/example.sock''
     demo_world =
   wrap (\<lambda>inner. TLSListener inner
       \<lparr>GetCertificate = FromFile ''/etc/ssl/example.com.pem'', NextProtos = [''h2'', ''http/1.1'']\<rparr>)
     (wrap (ProxyListener False)
       (with_os (Listen demo_env ''/run/example.sock'' 438) WatchedListener
         (demo_world\<lparr>w_global := snd (globalFileCache initial_global)\<rparr>)))"
  using Open_implements_syntax [of "library_env demo_env ''acme-tls/1''"
      "Tls (CertFile ''/etc/ssl/example.com.pem'') (Proxied (UnixPath ''/run/example.sock''))" demo_world]
  by (simp add: library_env_def strings_HasPrefix_def strings_HasSuffix_def demo_world_def)



text \<open>
  C39: The one way in which opening a well-formed specification panics is an inherited
  descriptor, by number or by name, that is no descriptor because it does not fit a signed
  64-bit integer: the library then asks a nil file for its name.
\<close>

theorem Open_panics_iff:
  assumes "oe_registry env = default_registry" and "wf_spec s"
  shows "fst (Open env (spec_string s) w) = Inl (Panics p) \<longleftrightarrow>
    p = NilDereference \<and> (\<exists>fd. inherits (oe_os env) s = Some fd \<and> 2 ^ 63 \<le> fd)"
  using open_spec_panics Open_meaning [OF assms] by simp

theorem Open_panics_iff_witness:
  "fst (Open (library_env demo_env ''acme-tls/1'') ''proxy:fd:9223372036854775808'' demo_world) =
     Inl (Panics NilDereference)"
proof -
  have "strconv_ParseUint ''9223372036854775808'' = Inr 9223372036854775808" by code_simp
  then show ?thesis
    using Open_panics_iff [of "library_env demo_env ''acme-tls/1''"
        "Proxied (FdNumber ''9223372036854775808'')" demo_world NilDereference]
    by (simp add: library_env_def)
qed

text \<open>
  C30: Socket activation. A listener that \<^verbatim>\<open>Open\<close> returns for a name comes from the
  descriptor three plus the first position at which \<^verbatim>\<open>LISTEN_FDNAMES\<close> has that name, the
  variables were meant for this process, and the inherited descriptor has been closed.
\<close>

theorem fdname_takes_named_descriptor:
  assumes "oe_registry env = default_registry" and "n \<noteq> []"
    and "Open env (''fdname:'' @ n) w = (Inr l, w')"
  shows "\<exists>i k. i < length (activation_names (oe_os env)) \<and> activation_names (oe_os env) ! i = n
    \<and> n \<notin> set (take i (activation_names (oe_os env))) \<and> activation_ok (oe_os env)
    \<and> l = SocketListener k \<and> os_socks (w_os w') = (k, SockFile (3 + int i) n) # os_socks (w_os w)
    \<and> os_closed_fds (w_os w') = os_closed_fds (w_os w) @ [3 + int i]"
proof -
  let ?names = "activation_names (oe_os env)"
  let ?i = "length (takeWhile (\<lambda>x. x \<noteq> n) ?names)"
  have "open_spec env (FdName n) w = (Inr l, w')" using Open_meaning [OF assms(1), of "FdName n" w] assms by simp
  then have ok: "activation_ok (oe_os env)" "n \<in> set ?names"
    and t: "take_fd (oe_os env) (3 + int ?i) n w = (Inr l, w')"
    by (auto simp: activation_fd_def split: if_splits)
  have "?i < length ?names" by (rule takeWhile_shorter [OF ok(2)])
  moreover have "?names ! ?i = n" using nth_length_takeWhile [OF calculation] by simp
  moreover have "n \<notin> set (take ?i ?names)" by (metis set_takeWhileD takeWhile_eq_take)
  moreover note take_fd_socket [OF t]
  ultimately show ?thesis using ok(1) by blast
qed

theorem fdname_takes_named_descriptor_witness:
  "\<exists>i < 2. [''http'', ''https''] ! i = ''https''
    \<and> os_closed_fds (w_os (snd (Open (library_env demo_activation ''acme-tls/1'') (''fdname:'' @ ''https'') demo_world)))
      = [3 + int i]"
proof -
  have "fst (Open (library_env demo_activation ''acme-tls/1'') (''fdname:'' @ ''https'') demo_world) =
      Inr (SocketListener 2)" by code_simp
  then have o: "Open (library_env demo_activation ''acme-tls/1'') (''fdname:'' @ ''https'') demo_world =
      (Inr (SocketListener 2),
       snd (Open (library_env demo_activation ''acme-tls/1'') (''fdname:'' @ ''https'') demo_world))"
    by (metis prod.collapse)
  have "activation_names demo_activation = [''http'', ''https'']" by code_simp
  moreover obtain i k where "i < length (activation_names demo_activation)"
    "activation_names demo_activation ! i = ''https''"
    "os_closed_fds (w_os (snd (Open (library_env demo_activation ''acme-tls/1'') (''fdname:'' @ ''https'') demo_world)))
      = os_closed_fds (w_os demo_world) @ [3 + int i]"
    using fdname_takes_named_descriptor [OF _ _ o] by (auto simp: library_env_def)
  ultimately show ?thesis by (intro exI [of _ i]) (simp add: demo_world_def demo_os_def)
qed

text \<open>
  C31: A descriptor given by number is closed by the library on every path after the number
  was read, also when listening on it fails, and a listener that is returned listens on a
  duplicate of it.
\<close>

theorem fd_descriptor_closed:
  assumes "oe_registry env = default_registry" and "strconv_ParseUint n = Inr fd" and "fd < 2 ^ 63"
    and "Open env (''fd:'' @ n) w = (r, w')"
  shows "os_closed_fds (w_os w') = os_closed_fds (w_os w) @ [fd]
    \<and> (\<forall>l. r = Inr l \<longrightarrow> (\<exists>k. l = SocketListener k \<and> os_socks (w_os w') = (k, SockFile fd n) # os_socks (w_os w)))"
proof -
  have "n \<noteq> []" using assms(2) by (auto simp: strconv_ParseUint_def)
  then have "open_spec env (FdNumber n) w = (r, w')"
    using Open_meaning [OF assms(1), of "FdNumber n" w] assms by simp
  then have t: "take_fd (oe_os env) fd n w = (r, w')" using assms(2) by simp
  show ?thesis using take_fd_closes [OF t assms(3)] take_fd_socket [of "oe_os env" fd n w _ w'] t by blast
qed

theorem fd_descriptor_closed_witness:
  "os_closed_fds (w_os (snd (Open (library_env demo_env ''acme-tls/1'') (''fd:'' @ ''3'') demo_world))) = [3]"
proof -
  have "strconv_ParseUint ''3'' = Inr 3" by code_simp
  from fd_descriptor_closed [OF _ this, of "library_env demo_env ''acme-tls/1''" demo_world]
  show ?thesis by (simp add: library_env_def demo_world_def demo_os_def prod_eq_iff)
qed

end
