(* ===== verification/Listener_Builtin.thy ===== *)
theory Listener_Builtin
  imports Listener_Syntax
begin

text \<open>
  Further facts on the openers of \<^verbatim>\<open>builtin.go\<close> and \<^verbatim>\<open>tls/listener.go\<close>: what a TCP
  listener listens on, which protocols a TLS listener offers, and two parameters of JSON objects that
  cannot be used.
\<close>

section \<open>Addresses have sixteen bytes\<close>

text \<open>One round of the loop ends, or goes on with two more bytes and a shorter string.\<close>

lemma v6_loop_round:
  assumes "v6_loop out e s = Some b" and "length out < 16"
  shows "(\<exists>q. length q = 4 \<and> length out + 4 \<le> 16 \<and> v6_finish (out @ q) e [] = Some b)
    \<or> (\<exists>v f. (f = e \<or> f = Some (length out + 2)) \<and> v6_finish (out @ be_PutUint16 v) f [] = Some b)
    \<or> (\<exists>v f r. (f = e \<or> f = Some (length out + 2)) \<and> length r < length s
        \<and> v6_loop (out @ be_PutUint16 v) f r = Some b)"
proof -
  define v where "v = (word_of_int (hex_value 0 (takeWhile is_hex s)) :: uint16)"
  define r where "r = dropWhile is_hex s"
  note r = length_dropWhile_le [of is_hex s, folded r_def]
  let ?o = "out @ be_PutUint16 v"
  have "(\<exists>q. parseIPv4 s = Some q \<and> length out + 4 \<le> 16 \<and> v6_finish (out @ q) e [] = Some b)
      \<or> v6_finish ?o e [] = Some b \<or> v6_finish ?o (Some (length ?o)) [] = Some b
      \<or> (\<exists>c r'. r = c # r' \<and> (v6_loop ?o e r' = Some b \<or> v6_loop ?o (Some (length ?o)) (tl r') = Some b))"
    using assms
    by (auto simp: v6_loop.simps [of out e s] Let_def v_def [symmetric] r_def [symmetric]
        split: if_splits option.splits list.splits)
  then show ?thesis
  proof (elim disjE exE conjE, goal_cases)
    case (1 q)
    then show ?case by (intro disjI1 exI [of _ q]) (simp add: parseIPv4_length)
  next
    case 2
    then show ?case by (intro disjI2 [OF disjI1] exI [of _ v] exI [of _ e]) simp
  next
    case 3
    then show ?case by (intro disjI2 [OF disjI1] exI [of _ v] exI [of _ "Some (length ?o)"]) simp
  next
    case (4 c r')
    then have "length r' < length s" using r by simp
    with 4 show ?case by (intro disjI2 exI [of _ v] exI [of _ e] exI [of _ r']) simp
  next
    case (5 c r')
    then have "length (tl r') < length s" using r by simp
    with 5 show ?case by (intro disjI2 exI [of _ v] exI [of _ "Some (length ?o)"] exI [of _ "tl r'"]) simp
  qed
qed

lemma v6_loop_length:
  assumes "v6_loop out e s = Some b" and "even (length out)" and "length out \<le> 16"
    and "\<And>k. e = Some k \<Longrightarrow> k \<le> length out"
  shows "length b = 16"
  using assms
proof (induction "length s" arbitrary: out e s rule: less_induct)
  case less
  show ?case
  proof (cases "16 \<le> length out")
    case True
    then show ?thesis using less.prems v6_finish_length by (auto simp: v6_loop.simps [of out e s])
  next
    case False
    then have l: "length out + 2 \<le> 16" using less.prems(2) by presburger
    have e': "\<And>k. f = Some k \<Longrightarrow> k \<le> length (out @ be_PutUint16 v)"
      if "f = e \<or> f = Some (length out + 2)" for f and v :: uint16
      using that less.prems(4) by fastforce
    consider q where "length q = 4" "length out + 4 \<le> 16" "v6_finish (out @ q) e [] = Some b"
      | v f where "f = e \<or> f = Some (length out + 2)" "v6_finish (out @ be_PutUint16 v) f [] = Some b"
      | v f r where "f = e \<or> f = Some (length out + 2)" "length r < length s"
          "v6_loop (out @ be_PutUint16 v) f r = Some b"
      using v6_loop_round [OF less.prems(1)] False unfolding not_le by blast
    then show ?thesis
    proof cases
      case (1 q)
      then show ?thesis using v6_finish_length [OF 1(3)] less.prems(4) by fastforce
    next
      case (2 v f)
      then show ?thesis using v6_finish_length [OF 2(2)] l e' [OF 2(1)] by simp
    next
      case (3 v f r)
      show ?thesis by (rule less.hyps [OF 3(2,3)]) (use l less.prems(2) e' [OF 3(1)] in auto)
    qed
  qed
qed

lemma net_ParseIP_length: "net_ParseIP s = Some b \<Longrightarrow> length b = 16"
  using v6_loop_length [of "[]" _ "drop 2 s" b] v6_loop_length [of "[]" None s b]
  by (auto simp: net_ParseIP_def parseIPv6_def parseIPv4_length split: if_splits list.splits)

section \<open>Values of a JSON document\<close>

fun is_json :: "goval \<Rightarrow> bool" where
  "is_json (GoArray vs) = list_all is_json vs"
| "is_json (GoObject m) = list_all (\<lambda>(k, v). is_json v) m"
| "is_json (GoStrings ss) = False"
| "is_json GoOther = False"
| "is_json _ = True"

lemma json_no_strings: "is_json (GoObject m) \<Longrightarrow> as_strings (param (Some m) k) = None"
  by (cases "map_of m k"; cases "the (map_of m k)")
    (auto simp: param_def list_all_iff dest!: map_of_SomeD)

section \<open>Getters and protocols\<close>

fun from_manager :: "GetCertificateFunc \<Rightarrow> bool" where
  "from_manager (FromManager m) = True"
| "from_manager (DefaultServerName n f) = from_manager f"
| "from_manager _ = False"

definition protos_ok :: "string \<Rightarrow> GetCertificateFunc \<times> string list \<Rightarrow> bool" where
  "protos_ok alpn gp \<longleftrightarrow> take 2 (snd gp) = [''h2'', ''http/1.1'']
     \<and> (alpn \<in> set (snd gp) \<longleftrightarrow> from_manager (fst gp))"

lemma from_manager_config [simp]:
  "from_manager (GetCertificate (https_config params gp)) = from_manager (fst gp)"
  "NextProtos (https_config params gp) = snd gp"
  by (auto simp: https_config_def GetCertificateDefaultServerName_def split: prod.split option.split)

lemma https_arg_getter_protos:
  assumes "oe_ALPNProto env \<notin> {''h2'', ''http/1.1''}"
  shows "protos_ok (oe_ALPNProto env) (fst (https_arg_getter env c w))"
  using assms
  by (auto simp: protos_ok_def https_arg_getter_def Let_def GetCertificateFromDirectory_def
      GetCertificateFromFile_def GetCertificateAutomatically_def getCertificateAutomatically_def)

lemma https_params_getter_protos:
  assumes "oe_ALPNProto env \<notin> {''h2'', ''http/1.1''}"
  shows "case fst (https_params_getter env params w) of Inl _ \<Rightarrow> True
    | Inr gp \<Rightarrow> protos_ok (oe_ALPNProto env) gp"
  using assms
  by (auto simp: protos_ok_def https_params_getter_def Let_def GetCertificateFromDirectory_def
      GetCertificateFromFile_def GetCertificateAutomatically_def getCertificateAutomatically_def
      split: option.split)

section \<open>Properties\<close>

text \<open>
  C32: A TCP listener listens on the protocol its address belongs to: on both protocols
  without an address, only on IPv4 for an IPv4 (or IPv4-mapped) address such as 0.0.0.0, only
  on IPv6 for any other. The address has sixteen bytes and the port is in the range of a
  64-bit integer, which is all the code checks.
\<close>

theorem tcp_listens_on_protocol:
  assumes "openTCPListener env params arg w = (Inr l, w')"
  shows "\<exists>k network ip port. l = SocketListener k
    \<and> os_socks (w_os w') = (k, SockTCP network ip port) # os_socks (w_os w)
    \<and> - (2 ^ 63) \<le> port \<and> port < 2 ^ 63
    \<and> (case ip of
         None \<Rightarrow> network = ''tcp''
       | Some i \<Rightarrow> length i = 16 \<and> network = (if take 12 i = v4InV6Prefix then ''tcp4'' else ''tcp6''))"
proof -
  obtain ips ps where t: "tcp_strings params arg = Inr (ips, ps)"
    using assms by (auto simp: openTCPListener_def split: sum.splits)
  define ip where "ip = (if ips = [] then None else net_ParseIP ips)"
  define network where "network = (case ip of None \<Rightarrow> ''tcp'' | Some i \<Rightarrow> if To4 i = None then ''tcp6'' else ''tcp4'')"
  obtain port where a: "strconv_Atoi ps = Inr port"
    and n: "with_os (net_ListenTCP (oe_os env) network ip port) SocketListener w = (Inr l, w')"
    using assms t
    by (auto simp: openTCPListener_def ip_def network_def split: sum.splits if_splits option.splits)
  have p: "- (2 ^ 63) \<le> port \<and> port < 2 ^ 63" by (rule Atoi_bounds [OF a])
  have i: "case ip of None \<Rightarrow> network = ''tcp''
       | Some i \<Rightarrow> length i = 16 \<and> network = (if To4 i = None then ''tcp6'' else ''tcp4'')"
    using net_ParseIP_length by (auto simp: ip_def network_def split: option.split)
  have "case ip of None \<Rightarrow> network = ''tcp''
       | Some i \<Rightarrow> length i = 16 \<and> network = (if take 12 i = v4InV6Prefix then ''tcp4'' else ''tcp6'')"
    using i by (auto simp: To4_def split: option.splits if_splits)
  moreover have "\<exists>k. l = SocketListener k
      \<and> os_socks (w_os w') = (k, SockTCP network ip port) # os_socks (w_os w)"
    using n by (auto simp: with_os_def net_ListenTCP_def os_new_sock_def split: option.splits)
  ultimately show ?thesis using p by blast
qed

theorem tcp_listens_on_protocol_witness:
  "\<exists>network ip port. os_socks (w_os (snd (openTCPListener (library_env demo_env ''acme-tls/1'') None
      ''0.0.0.0:80'' demo_world))) = [(2, SockTCP network ip port)] \<and> port < 2 ^ 63"
proof -
  have "fst (openTCPListener (library_env demo_env ''acme-tls/1'') None ''0.0.0.0:80'' demo_world) =
      Inr (SocketListener 2)" by code_simp
  then have o: "openTCPListener (library_env demo_env ''acme-tls/1'') None ''0.0.0.0:80'' demo_world =
      (Inr (SocketListener 2),
       snd (openTCPListener (library_env demo_env ''acme-tls/1'') None ''0.0.0.0:80'' demo_world))"
    by (metis prod.collapse)
  have "os_socks (w_os demo_world) = []" by (simp add: demo_world_def demo_os_def)
  with tcp_listens_on_protocol [OF o] show ?thesis by auto
qed

text \<open>
  The JSON parameter ``address'' of a TCP listener cannot be used: once it is a string,
  the parameter ``port'' is not read, so that opening fails on every system, for every
  address and every port.
\<close>

theorem tcp_json_address_fails:
  assumes "as_string (param params ''address'') = Some a"
  shows "\<exists>e. openTCPListener env params [] w = (Inl (Fails e), w)"
  using assms by (auto simp: openTCPListener_def tcp_strings_def split: option.splits)

text \<open>
  The JSON parameter ``autocert_hostnames'' cannot be given in a JSON document: decoding
  gives an array of values where the code expects a slice of strings, so a document without
  ``cert'' and ``cert_directory'' is refused, whatever host names it lists.
\<close>

theorem json_autocert_refused:
  assumes "is_json (GoObject obj)"
    and "as_string (param (Some obj) ''cert'') = None"
    and "as_string (param (Some obj) ''cert_directory'') = None"
  shows "openHTTPSListener env (Some obj) [] w =
    (Inl (Fails (ErrorsNew ''certificate not specified for TLS listener'')), w)"
  using assms json_no_strings [OF assms(1)]
  by (simp add: openHTTPSListener.simps https_params_getter_def)

text \<open>
  A TLS listener offers the challenge protocol of ACME exactly when its certificates
  come from the certificate manager, which alone can answer such a challenge; it offers the
  two HTTP protocols first in any case.
\<close>

theorem acme_protocol_iff_manager:
  assumes "openHTTPSListener env params arg w = (Inr l, w')"
    and "oe_ALPNProto env \<notin> {''h2'', ''http/1.1''}"
  shows "\<exists>inner config. l = TLSListener inner config
    \<and> take 2 (NextProtos config) = [''h2'', ''http/1.1'']
    \<and> (oe_ALPNProto env \<in> set (NextProtos config) \<longleftrightarrow> from_manager (GetCertificate config))"
proof -
  note arg = https_arg_getter_protos [OF assms(2), of "strings_SplitN2 CHR '':'' arg ! 0" w]
    and obj = https_params_getter_protos [OF assms(2), of params w]
  obtain gp x where "wrap (\<lambda>inner. TLSListener inner (https_config params gp)) x = (Inr l, w')"
    and p: "protos_ok (oe_ALPNProto env) gp"
  proof (cases "arg = []")
    case True
    obtain q u where g: "https_params_getter env params w = (q, u)"
      by (cases "https_params_getter env params w")
    with assms(1) True obtain gp where "q = Inr gp" by (cases q) (auto simp: openHTTPSListener.simps)
    with that g obj assms(1) True show ?thesis
      by (auto simp: openHTTPSListener.simps split: option.splits)
  next
    case False
    obtain gp u where "https_arg_getter env (strings_SplitN2 CHR '':'' arg ! 0) w = (gp, u)"
      by (cases "https_arg_getter env (strings_SplitN2 CHR '':'' arg ! 0) w")
    with that arg assms(1) False show ?thesis
      by (auto simp: openHTTPSListener.simps Let_def split: if_splits)
  qed
  then obtain inner where "l = TLSListener inner (https_config params gp)"
    by (cases x; cases "fst x") (auto simp: wrap_def)
  then show ?thesis using p by (simp add: protos_ok_def)
qed

end
