(* ===== verification/Tls_Serving.thy ===== *)
theory Tls_Serving
  imports Listener_Builtin
begin

text \<open>
  From the specification of a TLS listener to the certificate of a connection:
  \<^verbatim>\<open>open.go\<close>, \<^verbatim>\<open>tls/listener.go\<close> and the package \<^verbatim>\<open>cert\<close> together.
\<close>

section \<open>The global cache\<close>

text \<open>
  Once initialised the cache tracks the disk. Opening a listener at most initialises it.
\<close>

definition global_ok :: "crypto_env \<Rightarrow> disk \<Rightarrow> global_cache \<Rightarrow> bool" where
  "global_ok ce d g \<longleftrightarrow> (globalFileCacheInit g \<longrightarrow> global_tracks ce d g)"

lemma globalFileCache_tracks:
  "global_ok ce d g \<Longrightarrow> global_tracks ce d (snd (globalFileCache g))"
  by (auto simp: global_ok_def global_tracks_def globalFileCache_def cache_tracks_def newFileCache_def Let_def)

lemma globalFileCache_idem: "globalFileCache (snd (globalFileCache g)) = globalFileCache g"
  by (simp add: globalFileCache_def Let_def)

definition initialised :: "global_cache \<Rightarrow> global_cache \<Rightarrow> bool" where
  "initialised g g' \<longleftrightarrow> g' = g \<or> g' = snd (globalFileCache g)"

lemma initialised_trans: "initialised g h \<Longrightarrow> initialised h k \<Longrightarrow> initialised g k"
  by (auto simp: initialised_def globalFileCache_idem)

lemma cert_world_initialised: "initialised (w_global w) (w_global (cert_world c w))"
  by (cases c) (simp_all add: initialised_def)

lemma with_os_global [simp]: "w_global (snd (with_os f g w)) = w_global w"
  by (simp add: with_os_def split: prod.split)

lemma wrap_world [simp]: "snd (wrap f x) = snd x"
  by (cases x) (simp add: wrap_def)

lemma take_fd_global [simp]: "w_global (snd (take_fd env fd name w)) = w_global w"
  by (simp add: take_fd_def split: prod.split)

lemma open_spec_global: "initialised (w_global w) (w_global (snd (open_spec env s w)))"
proof (induction s arbitrary: w)
  case (Tls c s)
  show ?case using initialised_trans [OF cert_world_initialised Tls [of "cert_world c w"]] by simp
qed (simp_all add: initialised_def listen_tcp_def split: option.split sum.split)

lemma initialised_tracks: "initialised g g' \<Longrightarrow> global_tracks ce d g \<Longrightarrow> globalFileCacheInit g \<Longrightarrow> global_tracks ce d g'"
  by (auto simp: initialised_def globalFileCache_def Let_def)

section \<open>What a TLS listener serves\<close>

text \<open>
  Where the documentation says the certificate for a hello comes from: the file, a file of
  the directory that belongs to the name asked for, or the manager for the host names listed.
\<close>

fun serves_from ::
  "crypto_env \<Rightarrow> manager_fun \<Rightarrow> disk \<Rightarrow> cert_spec \<Rightarrow> ClientHelloInfo \<Rightarrow> tls_certificate option \<Rightarrow> bool"
where
  "serves_from ce mgr d (CertFile f) hello co \<longleftrightarrow> loads ce d f co"
| "serves_from ce mgr d (CertDirectory dir) hello co \<longleftrightarrow>
     (\<exists>n ext. n \<in> {ServerName hello, wildcard_name (ServerName hello)} \<and> extension_for hello ext
        \<and> loads ce d (filepath_Join dir (n @ ext)) co)"
| "serves_from ce mgr d (CertHostnames hs) hello co \<longleftrightarrow>
     (\<exists>m. mgr m hello = Inr co \<and> HostPolicy m = Some hs)"

lemma may_serve_from:
  assumes "may_serve ce mgr d (cert_getter env c) hello co"
  shows "serves_from ce mgr d c hello co"
proof (cases c)
  case (CertHostnames hs)
  obtain m where "GetCertificateAutomatically env (Some hs) = FromManager m" "HostPolicy m = Some hs"
    by (simp add: GetCertificateAutomatically_def getCertificateAutomatically_def)
  then show ?thesis using assms CertHostnames by auto
next
  case (CertDirectory dir)
  then show ?thesis using assms unfolding serves_from.simps
    by (auto simp: candidates_iff) blast+
qed (use assms in simp)

text \<open>
  The answer a TLS listener owes to a hello by its specification: read from the file or the
  directory without a cache, or asked of the manager with the listed host names and the
  settings of the environment.
\<close>

fun owed ::
  "os_env \<Rightarrow> crypto_env \<Rightarrow> manager_fun \<Rightarrow> disk \<Rightarrow> cert_spec \<Rightarrow> ClientHelloInfo \<Rightarrow>
   (go_error + tls_certificate option) option"
where
  "owed os ce mgr d (CertFile f) hello = load_current ce d f"
| "owed os ce mgr d (CertDirectory dir) hello = search_current ce d dir hello"
| "owed os ce mgr d (CertHostnames hs) hello = Some (mgr
     \<lparr>DirectoryURL = os_Getenv os ''AUTOCERT_ACME_SERVER'', AcceptTOS = True,
      CacheDir = getAutocertCache os, HostPolicy = Some hs,
      Email = os_Getenv os ''AUTOCERT_EMAIL'', EAB = getAutocertEAB os\<rparr> hello)"

text \<open>The answers of a getter to hellos that come one after the other.\<close>

fun answer_all ::
  "crypto_env \<Rightarrow> manager_fun \<Rightarrow> disk \<Rightarrow> GetCertificateFunc \<Rightarrow> ClientHelloInfo list \<Rightarrow> global_cache \<Rightarrow>
   (go_error + tls_certificate option) option list"
where
  "answer_all ce mgr d f [] g = []"
| "answer_all ce mgr d f (hello # hellos) g =
     (case getCertificate ce mgr d f hello g of
        None \<Rightarrow> [None]
      | Some (r, g') \<Rightarrow> Some r # answer_all ce mgr d f hellos g')"

lemma answer_all_map:
  assumes "Q g" and "\<And>hello g. Q g \<Longrightarrow>
      \<exists>r g'. getCertificate ce mgr d f hello g = Some (r, g') \<and> Q g' \<and> ans hello = Some r"
  shows "answer_all ce mgr d f hellos g = map ans hellos"
  using assms(1)
proof (induction hellos arbitrary: g)
  case (Cons hello hellos)
  then show ?case using assms(2) [of g hello] by fastforce
qed simp

lemma owed_served: "owed os ce mgr d c hello = served ce mgr d (cert_getter os c) hello"
  by (cases c) (simp_all add: GetCertificateAutomatically_def getCertificateAutomatically_def)

lemma owed_from: "owed os ce mgr d c hello = Some (Inr co) \<Longrightarrow> serves_from ce mgr d c hello co"
  using may_serve_from [OF served_may_serve] by (simp add: owed_served)

lemma cert_getter_answers:
  assumes "pem_progress ce" and "global_ok ce d (w_global w)"
    and "initialised (w_global (cert_world c w)) g"
  shows "answer_all ce mgr d (cert_getter os c) hellos g = map (owed os ce mgr d c) hellos"
proof (cases "\<exists>hs. c = CertHostnames hs")
  case True
  then show ?thesis
    by (intro answer_all_map [where Q = "\<lambda>_. True"])
      (auto simp: GetCertificateAutomatically_def getCertificateAutomatically_def)
next
  case False
  then have "w_global (cert_world c w) = snd (globalFileCache (w_global w))" by (cases c) simp_all
  then have "global_tracks ce d g"
    using initialised_tracks [OF assms(3), of ce d] globalFileCache_tracks [OF assms(2)]
    by (simp add: globalFileCache_def Let_def)
  then show ?thesis
    using getCertificate_current [OF assms(1), of d]
    by (intro answer_all_map [where Q = "global_tracks ce d"]) (simp_all add: owed_served)
qed

lemma demo_owed:
  "map (owed demo_env demo_crypto (\<lambda>_ _. Inr None) (demo_disk []) (CertDirectory ''/certs/''))
     [demo_hello ''www.a.org'', demo_hello ''/a.org''] =
   [Some (Inr (Some demo_cert)), Some (Inl (ErrorsNew ''go-listener: client sent an invalid server name''))]"
  by code_simp

section \<open>Property\<close>

text \<open>
  C8: End to end. If the specification of a TLS listener opens, one socket was opened, and
  the listener answers any sequence of client hellos with the certificates that the
  specification names and not otherwise: each answer is the one owed, which is the current
  content of its file; the first of the documented files of its directory that holds a
  certificate now, and an error only for a refused name or if none does; or what the manager
  with exactly the listed host names says. A certificate comes from that file, from a file of
  that directory for the name asked for or its wildcard and a key type the client offered, or
  from that manager. The listener offers the challenge protocol of ACME exactly when
  certificates are automatic. The disk is taken not to change from the opening on.
\<close>

theorem tls_listener_serves:
  assumes "Open (library_env os alpn) (spec_string (Tls c s)) w = (Inr l, w')"
    and "wf_spec (Tls c s)" and "os_wf (w_os w)"
    and "pem_progress ce" and "global_ok ce d (w_global w)"
    and "alpn \<notin> {''h2'', ''http/1.1''}"
  shows "\<exists>inner config. l = TLSListener inner config
    \<and> opened (Inr l) (w_os w) (w_os w')
    \<and> (\<forall>hellos. answer_all ce mgr d (GetCertificate config) hellos (w_global w') = map (owed os ce mgr d c) hellos)
    \<and> (\<forall>hello co. owed os ce mgr d c hello = Some (Inr co) \<longrightarrow> serves_from ce mgr d c hello co)
    \<and> (alpn \<in> set (NextProtos config) \<longleftrightarrow> (\<exists>hs. c = CertHostnames hs))"
proof -
  let ?env = "library_env os alpn"
  let ?config = "\<lparr>GetCertificate = cert_getter os c, NextProtos = cert_protos alpn c\<rparr>"
  have "wrap (\<lambda>inner. TLSListener inner ?config) (open_spec ?env s (cert_world c w)) = (Inr l, w')"
    using assms(1) Open_meaning [of ?env "Tls c s" w] assms(2) by (simp add: library_env_def)
  then obtain inner where l: "l = TLSListener inner ?config"
    and w': "open_spec ?env s (cert_world c w) = (Inr inner, w')"
    by (cases "open_spec ?env s (cert_world c w)"; cases "fst (open_spec ?env s (cert_world c w))")
      (auto simp: wrap_def)
  have "initialised (w_global (cert_world c w)) (w_global w')"
    using open_spec_global [of "cert_world c w" ?env s] w' by simp
  from cert_getter_answers [OF assms(4,5) this]
  have "answer_all ce mgr d (GetCertificate ?config) hellos (w_global w') = map (owed os ce mgr d c) hellos" for hellos
    by simp
  moreover have "opened (Inr l) (w_os w) (w_os w')"
    by (rule Open_opened [OF library_env_ok assms(3,1)])
  moreover have "alpn \<in> set (NextProtos ?config) \<longleftrightarrow> (\<exists>hs. c = CertHostnames hs)"
    using assms(6) by (cases c) auto
  ultimately show ?thesis using l owed_from by blast
qed

theorem tls_listener_serves_witness:
  "\<exists>inner config g. fst (Open (library_env demo_env ''acme-tls/1'') ''tls:/certs/:tcp:443'' demo_world) =
      Inr (TLSListener inner config)
    \<and> answer_all demo_crypto (\<lambda>_ _. Inr None) (demo_disk []) (GetCertificate config)
        [demo_hello ''www.a.org'', demo_hello ''/a.org''] g =
      [Some (Inr (Some demo_cert)), Some (Inl (ErrorsNew ''go-listener: client sent an invalid server name''))]"
proof -
  let ?env = "library_env demo_env ''acme-tls/1''"
  let ?s = "Tls (CertDirectory ''/certs/'') (TcpPort ''443'')"
  obtain r w' where o: "Open ?env (spec_string ?s) demo_world = (r, w')" by (meson surj_pair)
  have "case fst (Open ?env (spec_string ?s) demo_world) of Inl _ \<Rightarrow> False | Inr _ \<Rightarrow> True" by code_simp
  then obtain l where r: "r = Inr l" using o by (cases r) auto
  have "global_ok demo_crypto (demo_disk []) (w_global demo_world)"
    by (simp add: global_ok_def demo_world_def initial_global_def)
  from tls_listener_serves [OF o [unfolded r] _ demo_world_wf demo_crypto_progress this, of "\<lambda>_ _. Inr None"]
  obtain inner config where l: "l = TLSListener inner config" and
    "\<forall>hellos. answer_all demo_crypto (\<lambda>_ _. Inr None) (demo_disk []) (GetCertificate config) hellos (w_global w') =
     map (owed demo_env demo_crypto (\<lambda>_ _. Inr None) (demo_disk []) (CertDirectory ''/certs/'')) hellos"
    by (auto simp: strings_HasPrefix_def strings_HasSuffix_def)
  then have "answer_all demo_crypto (\<lambda>_ _. Inr None) (demo_disk []) (GetCertificate config)
      [demo_hello ''www.a.org'', demo_hello ''/a.org''] (w_global w') =
     [Some (Inr (Some demo_cert)), Some (Inl (ErrorsNew ''go-listener: client sent an invalid server name''))]"
    using demo_owed by (simp only: simp_thms)
  then show ?thesis using o r l by (intro exI [of _ inner] exI [of _ config] exI [of _ "w_global w'"]) simp
qed

end
