(* ===== verification/Tls_Hello.thy ===== *)
theory Tls_Hello
  imports Go_Net Cert_KeyType
begin

text \<open>
  \<^verbatim>\<open>tlsutil/hello.go\<close>: reading the client hello of a connection without consuming it.
  The TLS server of the standard library is a parameter: a handshake is any program that
  calls the methods of its connection and the configuration callback, and goes on depending
  on what they return. What is proved holds for all such programs.
\<close>

section \<open>A connection that cannot be written to\<close>

definition readOnlyConn_Read :: "'s reader \<Rightarrow> 's reader" where
  "readOnlyConn_Read rd = rd"

definition readOnlyConn_Write :: "bytes \<Rightarrow> nat \<times> go_error option" where
  "readOnlyConn_Write p = (0, Some IoErrClosedPipe)"

definition readOnlyConn_Close :: "go_error option" where "readOnlyConn_Close = None"
definition readOnlyConn_LocalAddr :: addr where "readOnlyConn_LocalAddr = NilAddr"
definition readOnlyConn_RemoteAddr :: addr where "readOnlyConn_RemoteAddr = NilAddr"
definition readOnlyConn_SetDeadline :: "int \<Rightarrow> go_error option" where
  "readOnlyConn_SetDeadline t = None"
definition readOnlyConn_SetReadDeadline :: "int \<Rightarrow> go_error option" where
  "readOnlyConn_SetReadDeadline t = None"
definition readOnlyConn_SetWriteDeadline :: "int \<Rightarrow> go_error option" where
  "readOnlyConn_SetWriteDeadline t = None"

section \<open>Handshakes\<close>

datatype deadline = BothDeadlines | ReadDeadline | WriteDeadline

datatype handshake =
    HsRead nat "bytes \<times> go_error option \<Rightarrow> handshake"
  | HsWrite bytes "nat \<times> go_error option \<Rightarrow> handshake"
  | HsClose "go_error option \<Rightarrow> handshake"
  | HsAddrs "addr \<times> addr \<Rightarrow> handshake"
  | HsSetDeadline deadline int "go_error option \<Rightarrow> handshake"
  | HsGetConfigForClient ClientHelloInfo handshake
  | HsReturn "go_error option"

definition set_deadline :: "deadline \<Rightarrow> int \<Rightarrow> go_error option" where
  "set_deadline d t =
     (case d of
        BothDeadlines \<Rightarrow> readOnlyConn_SetDeadline t
      | ReadDeadline \<Rightarrow> readOnlyConn_SetReadDeadline t
      | WriteDeadline \<Rightarrow> readOnlyConn_SetWriteDeadline t)"

text \<open>
  \<^verbatim>\<open>tls.Server(readOnlyConn{reader}, config).Handshake()\<close>: the error, the variable
  \<^verbatim>\<open>hello\<close> that the callback assigns, and the reader afterwards.
\<close>

primrec Handshake ::
  "'s reader \<Rightarrow> handshake \<Rightarrow> 's \<Rightarrow> ClientHelloInfo option \<Rightarrow>
   go_error option \<times> ClientHelloInfo option \<times> 's"
where
  "Handshake rd (HsRead n k) = (\<lambda>s hello.
     case readOnlyConn_Read rd s n of (r, s') \<Rightarrow> Handshake rd (k r) s' hello)"
| "Handshake rd (HsWrite p k) = (\<lambda>s hello. Handshake rd (k (readOnlyConn_Write p)) s hello)"
| "Handshake rd (HsClose k) = (\<lambda>s hello. Handshake rd (k readOnlyConn_Close) s hello)"
| "Handshake rd (HsAddrs k) = (\<lambda>s hello.
     Handshake rd (k (readOnlyConn_LocalAddr, readOnlyConn_RemoteAddr)) s hello)"
| "Handshake rd (HsSetDeadline d t k) = (\<lambda>s hello. Handshake rd (k (set_deadline d t)) s hello)"
| "Handshake rd (HsGetConfigForClient argHello h) = (\<lambda>s hello. Handshake rd h s (Some argHello))"
| "Handshake rd (HsReturn err) = (\<lambda>s hello. (err, hello, s))"

section \<open>Operations\<close>

definition ReadClientHello ::
  "handshake \<Rightarrow> 's reader \<Rightarrow> 's \<Rightarrow> (ClientHelloInfo option \<times> go_error option) \<times> 's"
where
  "ReadClientHello server rd s =
     (case Handshake rd server s None of
        (err, None, s') \<Rightarrow> ((None, err), s')
      | (err, Some hello, s') \<Rightarrow> ((Some hello, None), s'))"

definition PeekClientHello ::
  "handshake \<Rightarrow> 's reader \<Rightarrow> 's \<Rightarrow> ClientHelloInfo option \<times> 's source list \<times> go_error option"
where
  "PeekClientHello server rd s =
     (case ReadClientHello server (tee_Read rd) (s, []) of
        ((hello, err), (s', peekedBytes)) \<Rightarrow>
          (if err \<noteq> None then (None, [SrcBuffer peekedBytes, SrcReader s'], err)
           else (hello, [SrcBuffer peekedBytes, SrcReader s'], None)))"

text \<open>
  The embedded connection and the reader share the connection; of the embedded one only the
  addresses are used here, which reading does not change.
\<close>

record peekedConn =
  pk_Conn :: net_conn
  pk_reader :: "net_conn source list"

definition peekedConn_Read :: "peekedConn reader" where
  "peekedConn_Read conn n =
     (case multi_Read conn_Read (pk_reader conn) n of (r, rs) \<Rightarrow> (r, conn\<lparr>pk_reader := rs\<rparr>))"

definition PeekClientHelloFromConn ::
  "handshake \<Rightarrow> net_conn \<Rightarrow> ClientHelloInfo option \<times> peekedConn \<times> go_error option"
where
  "PeekClientHelloFromConn server conn =
     (case PeekClientHello server conn_Read conn of
        (hello, reader, err) \<Rightarrow> (hello, \<lparr>pk_Conn = conn, pk_reader = reader\<rparr>, err))"

section \<open>What a handshake does to its reader\<close>

text \<open>The reads of a run, and the hellos it passed to the callback.\<close>

primrec hs_reads :: "'s reader \<Rightarrow> handshake \<Rightarrow> 's \<Rightarrow> nat list" where
  "hs_reads rd (HsRead n k) = (\<lambda>s. case rd s n of (r, s') \<Rightarrow> n # hs_reads rd (k r) s')"
| "hs_reads rd (HsWrite p k) = hs_reads rd (k (0, Some IoErrClosedPipe))"
| "hs_reads rd (HsClose k) = hs_reads rd (k None)"
| "hs_reads rd (HsAddrs k) = hs_reads rd (k (NilAddr, NilAddr))"
| "hs_reads rd (HsSetDeadline d t k) = hs_reads rd (k None)"
| "hs_reads rd (HsGetConfigForClient a h) = hs_reads rd h"
| "hs_reads rd (HsReturn err) = (\<lambda>s. [])"

primrec hs_hellos :: "'s reader \<Rightarrow> handshake \<Rightarrow> 's \<Rightarrow> ClientHelloInfo list" where
  "hs_hellos rd (HsRead n k) = (\<lambda>s. case rd s n of (r, s') \<Rightarrow> hs_hellos rd (k r) s')"
| "hs_hellos rd (HsWrite p k) = hs_hellos rd (k (0, Some IoErrClosedPipe))"
| "hs_hellos rd (HsClose k) = hs_hellos rd (k None)"
| "hs_hellos rd (HsAddrs k) = hs_hellos rd (k (NilAddr, NilAddr))"
| "hs_hellos rd (HsSetDeadline d t k) = hs_hellos rd (k None)"
| "hs_hellos rd (HsGetConfigForClient a h) = (\<lambda>s. a # hs_hellos rd h s)"
| "hs_hellos rd (HsReturn err) = (\<lambda>s. [])"

definition after_reads :: "'s reader \<Rightarrow> nat list \<Rightarrow> 's \<Rightarrow> 's" where
  "after_reads rd ns s = fold (\<lambda>n s. snd (rd s n)) ns s"

lemmas readOnly_simps = readOnlyConn_Read_def readOnlyConn_Write_def readOnlyConn_Close_def
  readOnlyConn_LocalAddr_def readOnlyConn_RemoteAddr_def readOnlyConn_SetDeadline_def
  readOnlyConn_SetReadDeadline_def readOnlyConn_SetWriteDeadline_def

lemma set_deadline [simp]: "set_deadline d t = None"
  by (cases d) (simp_all add: set_deadline_def readOnly_simps)

lemma Handshake_reads:
  "snd (snd (Handshake rd h s hello)) = after_reads rd (hs_reads rd h s) s"
  by (induction h arbitrary: s hello)
    (auto simp: readOnly_simps after_reads_def split: prod.split)

lemma Handshake_hello:
  "fst (snd (Handshake rd h s hello)) =
     (if hs_hellos rd h s = [] then hello else Some (last (hs_hellos rd h s)))"
  by (induction h arbitrary: s hello) (auto simp: readOnly_simps split: prod.split)

text \<open>A tee into a buffer changes neither the reads nor the answers.\<close>

lemma after_reads_tee:
  "after_reads (tee_Read rd) ns (s, b) = (s', b') \<Longrightarrow> s' = after_reads rd ns s"
  by (induction ns arbitrary: s b) (auto simp: after_reads_def tee_Read_def split: prod.splits)

lemma hs_tee:
  "hs_hellos (tee_Read rd) h (s, b) = hs_hellos rd h s"
  "hs_reads (tee_Read rd) h (s, b) = hs_reads rd h s"
  by (induction h arbitrary: s b) (auto simp: tee_Read_def split: prod.split)

context stream_reader
begin

lemma after_reads_tee_content:
  "after_reads (tee_Read rd) ns (s, b) = (s', b') \<Longrightarrow> b' @ content s' = b @ content s \<and> final s' = final s"
proof (induction ns arbitrary: s b)
  case (Cons n ns)
  obtain bs e t where r: "rd s n = ((bs, e), t)" by (metis prod.exhaust)
  then have "after_reads (tee_Read rd) ns (t, b @ bs) = (s', b')"
    using Cons.prems by (simp add: after_reads_def tee_Read_def)
  from Cons.IH [OF this] show ?case using read_content [OF r] read_final [OF r] by simp
qed (simp add: after_reads_def)

text \<open>The reader that is given back holds the whole stream.\<close>

lemma PeekClientHello_content:
  assumes "PeekClientHello server rd s = (hello, rs, err)"
  shows "multi_content content final rs = content s \<and> multi_final final rs = final s
    \<and> (\<exists>b. rs = [SrcBuffer b, SrcReader (after_reads rd (hs_reads rd server s) s)])"
proof -
  obtain e h t b where H: "Handshake (tee_Read rd) server (s, []) None = (e, h, (t, b))"
    by (metis prod.exhaust)
  have a: "after_reads (tee_Read rd) (hs_reads rd server s) (s, []) = (t, b)"
    using Handshake_reads [of "tee_Read rd" server "(s, [])" None] H by (simp add: hs_tee)
  have "rs = [SrcBuffer b, SrcReader t]"
    using assms H by (auto simp: PeekClientHello_def ReadClientHello_def split: option.splits if_splits)
  then show ?thesis using after_reads_tee_content [OF a] after_reads_tee [OF a] by simp
qed

end

interpretation mr: stream_reader "multi_Read conn_Read" "multi_content conn_content rd_final"
  "multi_final rd_final" "multi_fuel conn_fuel"
  by (rule cr.stream_reader_multi)

definition peeked_content :: "peekedConn \<Rightarrow> bytes" where
  "peeked_content conn = multi_content conn_content rd_final (pk_reader conn)"

text \<open>A peeked connection is again a connection, in the sense of the contract.\<close>

interpretation pk: conn_reader peekedConn_Read peeked_content "\<lambda>c. multi_final rd_final (pk_reader c)"
  "\<lambda>c. multi_fuel conn_fuel (pk_reader c)" "\<lambda>c. conn_LocalAddr (pk_Conn c)" "\<lambda>c. conn_RemoteAddr (pk_Conn c)"
  by unfold_locales
    (auto simp: peekedConn_Read_def peeked_content_def split: prod.splits
      dest: mr.read_length mr.read_content mr.read_final mr.read_error mr.read_progress)

section \<open>Properties\<close>

text \<open>
  C12: Peeking consumes nothing and writes nothing. Whatever the TLS server does, the
  connection that \<^verbatim>\<open>PeekClientHelloFromConn\<close> gives back delivers the whole byte stream
  of the original one from its first byte, in any reads, keeps its addresses, and the
  original connection was only read from.
\<close>

theorem PeekClientHello_loses_nothing:
  assumes "PeekClientHelloFromConn server c = (hello, conn, err)"
  shows "(\<forall>n \<le> length (conn_content c). \<exists>conn'.
      ReadFull peekedConn_Read conn n = Some ((take n (conn_content c), None), conn')
      \<and> peeked_content conn' = drop n (conn_content c))
    \<and> conn_LocalAddr (pk_Conn conn) = conn_LocalAddr c \<and> conn_RemoteAddr (pk_Conn conn) = conn_RemoteAddr c
    \<and> (\<exists>b ns. pk_reader conn = [SrcBuffer b, SrcReader (after_reads conn_Read ns c)])"
proof -
  have P: "PeekClientHello server conn_Read c = (hello, pk_reader conn, err)" "pk_Conn conn = c"
    using assms by (auto simp: PeekClientHelloFromConn_def split: prod.splits)
  note p = cr.PeekClientHello_content [OF P(1)]
  have ct: "peeked_content conn = conn_content c" using p by (simp add: peeked_content_def)
  have "\<exists>conn'. ReadFull peekedConn_Read conn n = Some ((take n (conn_content c), None), conn')
      \<and> peeked_content conn' = drop n (conn_content c)" if "n \<le> length (conn_content c)" for n
    by (rule pk.ReadFull_full [of n conn]) (use that ct in auto)
  then show ?thesis using p P(2) by auto
qed

text \<open>
  C33: The hello that is returned is the one the TLS server last passed to the callback, as if
  it had read from the connection directly; the error of the handshake (which always fails,
  as nothing can be written) is reported only if there was none.
\<close>

theorem PeekClientHello_hello:
  "fst (PeekClientHello server rd s) =
     (if hs_hellos rd server s = [] then None else Some (last (hs_hellos rd server s)))
   \<and> snd (snd (PeekClientHello server rd s)) =
     (if hs_hellos rd server s = [] then fst (Handshake (tee_Read rd) server (s, []) None) else None)"
proof -
  obtain e h t b where H: "Handshake (tee_Read rd) server (s, []) None = (e, h, (t, b))"
    by (metis prod.exhaust)
  have "h = (if hs_hellos rd server s = [] then None else Some (last (hs_hellos rd server s)))"
    using Handshake_hello [of "tee_Read rd" server "(s, [])" None] H by (simp add: hs_tee)
  then show ?thesis using H by (auto simp: PeekClientHello_def ReadClientHello_def)
qed

text \<open>An instance: a server that reads one record and then tries to send an alert.\<close>

definition demo_server :: handshake where
  "demo_server = HsRead 5 (\<lambda>r. HsGetConfigForClient
     \<lparr>ServerName = ''a.org'', SignatureSchemes = None, CipherSuites = []\<rparr>
     (HsWrite [21] (\<lambda>w. HsReturn (snd w))))"

definition demo_client :: net_conn where
  "demo_client = \<lparr>rd_segments = [[22, 3], [1, 0, 9]], rd_final = IoEOF,
     conn_LocalAddr = NilAddr, conn_RemoteAddr = TCPAddr [192, 0, 2, 1] 4242 []\<rparr>"

theorem PeekClientHello_loses_nothing_witness:
  "\<exists>conn'. ReadFull peekedConn_Read (fst (snd (PeekClientHelloFromConn demo_server demo_client))) 4 =
     Some (([22, 3, 1, 0], None), conn') \<and> peeked_content conn' = [9]"
proof -
  obtain h conn err where P: "PeekClientHelloFromConn demo_server demo_client = (h, conn, err)"
    by (metis prod.exhaust)
  have ct: "conn_content demo_client = [22, 3, 1, 0, 9]"
    by (simp add: demo_client_def conn_content_def)
  have "\<exists>conn'. ReadFull peekedConn_Read conn 4 = Some ((take 4 (conn_content demo_client), None), conn')
      \<and> peeked_content conn' = drop 4 (conn_content demo_client)"
    by (rule PeekClientHello_loses_nothing [OF P, THEN conjunct1, rule_format]) (simp add: ct)
  then show ?thesis using P ct by simp
qed

end
