(* ===== verification/Cert_Search.thy ===== *)
theory Cert_Search
  imports Cert_Dir
begin

text \<open>
  \<^verbatim>\<open>GetCertificate\<close> of \<^verbatim>\<open>cert/dir.go\<close> while other goroutines load, the cache is cleaned and files
  change: a search issues one \<^verbatim>\<open>Load\<close> of the shared cache after the other, and between any two
  steps of a load anything may happen. The loads are the calls of \<open>Cert_Cache\<close>.
\<close>

section \<open>Steps\<close>

text \<open>
  A search is about to try the first of the file names left, waits for a load of the cache
  (by its number), or has returned. As a ghost it has, for every file, how many versions were
  past when it began.
\<close>

datatype search_pc =
    STry "string list"
  | SLoading nat "string list"
  | SReturned "go_error + tls_certificate option"

record search_call =
  sc_path :: string
  sc_hello :: ClientHelloInfo
  sc_since :: "string \<Rightarrow> nat"
  sc_pc :: search_pc

type_synonym search_state = "cache_state \<times> search_call list"

definition search_error :: "ClientHelloInfo \<Rightarrow> go_error" where
  "search_error hello =
     Errorf ''go-listener: no certificate found for %q'' [ArgStr (ServerName hello)]"

text \<open>
  The file names that the nested attempts of the code go through while each fails: two for
  ECDSA keys, two for RSA keys, and two for any.
\<close>

definition attempts :: "ClientHelloInfo \<Rightarrow> string list" where
  "attempts hello =
     (let serverName = ServerName hello;
          suffix = serverNameSuffix serverName;
          keyTypes = getSupportedKeyTypes hello
      in (if ecdsa keyTypes then [serverName @ ''.pem.ecdsa'', ''_'' @ suffix @ ''.pem.ecdsa''] else []) @
         (if rsa keyTypes then [serverName @ ''.pem.rsa'', ''_'' @ suffix @ ''.pem.rsa''] else []) @
         [serverName @ ''.pem'', ''_'' @ suffix @ ''.pem''])"

lemma attempts_candidates: "attempts hello = candidates hello"
  by (simp add: attempts_def candidates_def wildcard_name_eq Let_def)

definition search_begin :: "ClientHelloInfo \<Rightarrow> search_pc" where
  "search_begin hello =
     (if ServerName hello = [] then
        SReturned (Inl (ErrorsNew ''go-listener: client does not support SNI''))
      else if hd (ServerName hello) = CHR ''.'' \<or> strings_IndexByte (ServerName hello) CHR ''/'' \<noteq> None then
        SReturned (Inl (ErrorsNew ''go-listener: client sent an invalid server name''))
      else STry (attempts hello))"

definition search_at :: "nat \<Rightarrow> search_pc \<Rightarrow> search_state \<Rightarrow> bool" where
  "search_at i pc s \<longleftrightarrow> i < length (snd s) \<and> sc_pc (snd s ! i) = pc"

definition goto_search :: "nat \<Rightarrow> search_pc \<Rightarrow> search_call list \<Rightarrow> search_call list" where
  "goto_search i pc ds = ds[i := (ds ! i)\<lparr>sc_pc := pc\<rparr>]"

datatype search_label =
    SCache cache_label
  | SCall string ClientHelloInfo
  | SLoad nat
  | SResult nat
  | SNoMore nat

text \<open>
  The first rule is all that is not the search itself: files, cleaning, and the steps of loads,
  those of searches and of others. A refinement below relates the steps to the function with
  the nested attempts.
\<close>

inductive search_step :: "crypto_env \<Rightarrow> search_label \<Rightarrow> search_state \<Rightarrow> search_state \<Rightarrow> bool" for env where
  search_other: "cache_step env l c c' \<Longrightarrow> search_step env (SCache l) (c, ds) (c', ds)"
| search_call: "search_step env (SCall path hello) (c, ds)
    (c, ds @ [\<lparr>sc_path = path, sc_hello = hello, sc_since = past_versions c, sc_pc = search_begin hello\<rparr>])"
| search_load: "search_at i (STry (f # fs)) (c, ds) \<Longrightarrow>
    cache_step env (CallLoad (filepath_Join (sc_path (ds ! i)) f)) c c' \<Longrightarrow>
    search_step env (SLoad i) (c, ds) (c', goto_search i (SLoading (length (cs_calls c)) fs) ds)"
| search_found: "search_at i (SLoading k fs) (c, ds) \<Longrightarrow> k < length (cs_calls c) \<Longrightarrow>
    lc_pc (cs_calls c ! k) = LReturned (Inr co) \<Longrightarrow>
    search_step env (SResult i) (c, ds) (c, goto_search i (SReturned (Inr co)) ds)"
| search_next: "search_at i (SLoading k fs) (c, ds) \<Longrightarrow> k < length (cs_calls c) \<Longrightarrow>
    lc_pc (cs_calls c ! k) = LReturned (Inl e) \<Longrightarrow>
    search_step env (SResult i) (c, ds) (c, goto_search i (STry fs) ds)"
| search_none: "search_at i (STry []) (c, ds) \<Longrightarrow>
    search_step env (SNoMore i) (c, ds) (c, goto_search i (SReturned (Inl (search_error (sc_hello (ds ! i))))) ds)"

inductive_cases search_stepE: "search_step env l s t"

definition initial_search_state :: search_state where
  "initial_search_state = (initial_cache_state, [])"

lemma search_begin_valid:
  "search_begin hello =
     (if valid_server_name (ServerName hello) then STry (candidates hello)
      else SReturned (Inl (ErrorsNew (if ServerName hello = [] then ''go-listener: client does not support SNI''
             else ''go-listener: client sent an invalid server name''))))"
  by (simp add: search_begin_def valid_server_name_def attempts_candidates)

section \<open>The loads of a search\<close>

text \<open>A load keeps its file and its beginning, and its result once it has one.\<close>

definition same_load :: "load_call \<Rightarrow> load_call \<Rightarrow> bool" where
  "same_load a b \<longleftrightarrow> lc_file b = lc_file a \<and> lc_since b = lc_since a
     \<and> (\<forall>r. lc_pc a = LReturned r \<longrightarrow> lc_pc b = LReturned r)"

lemma same_load_refl [simp]: "same_load a a"
  by (simp add: same_load_def)

lemma goto_call_loads:
  assumes "call_at i p pc s" and "\<And>r. pc \<noteq> LReturned r" and "k < length (cs_calls s)"
  shows "same_load (cs_calls s ! k) (cs_calls (goto_call i pc' s) ! k)"
  using assms by (cases "k = i") (auto simp: same_load_def goto_call_def call_at_def)

lemma cache_step_loads:
  assumes "cache_step env l s t" and "k < length (cs_calls s)"
  shows "same_load (cs_calls s ! k) (cs_calls t ! k) \<and> k < length (cs_calls t)"
  using assms(1)
proof cases
  case (added i p m cert)
  note goto_call_loads [OF added(3) _ assms(2)]
  then show ?thesis using assms(2) unfolding added(2) by (simp add: goto_call_def)
qed (use assms(2) goto_call_loads in \<open>auto simp: nth_append\<close>,
    auto simp: goto_call_def)

lemma cache_step_past: "cache_step env l s t \<Longrightarrow> past_versions s p \<le> past_versions t p"
  by (erule cache_stepE) (auto simp: past_versions_def goto_call_def)

text \<open>Load number \<open>k\<close> is one of file \<open>f\<close> that the search issued; some such load failed.\<close>

definition issued :: "cache_state \<Rightarrow> search_call \<Rightarrow> string \<Rightarrow> nat \<Rightarrow> bool" where
  "issued c d f k \<longleftrightarrow> (let p = filepath_Join (sc_path d) f
     in k < length (cs_calls c) \<and> lc_file (cs_calls c ! k) = p \<and> sc_since d p \<le> lc_since (cs_calls c ! k))"

definition load_failed :: "cache_state \<Rightarrow> search_call \<Rightarrow> string \<Rightarrow> bool" where
  "load_failed c d f \<longleftrightarrow> (\<exists>k e. issued c d f k \<and> lc_pc (cs_calls c ! k) = LReturned (Inl e))"

definition grows :: "cache_state \<Rightarrow> cache_state \<Rightarrow> bool" where
  "grows c c' \<longleftrightarrow> (\<forall>k < length (cs_calls c). k < length (cs_calls c') \<and> same_load (cs_calls c ! k) (cs_calls c' ! k))
     \<and> (\<forall>p. past_versions c p \<le> past_versions c' p)"

lemma grows_step: "cache_step env l c c' \<Longrightarrow> grows c c'"
  using cache_step_loads cache_step_past by (auto simp: grows_def)

lemma grows_issued: "grows c c' \<Longrightarrow> issued c d f k \<Longrightarrow> issued c' d f k"
  by (auto simp: grows_def issued_def same_load_def Let_def)

lemma grows_returned:
  "grows c c' \<Longrightarrow> issued c d f k \<Longrightarrow> lc_pc (cs_calls c ! k) = LReturned r \<Longrightarrow> lc_pc (cs_calls c' ! k) = LReturned r"
  by (auto simp: grows_def issued_def same_load_def Let_def)

lemma grows_failed: "grows c c' \<Longrightarrow> load_failed c d f \<Longrightarrow> load_failed c' d f"
  unfolding load_failed_def using grows_issued grows_returned by blast

lemma issued_pc [simp]: "issued c (d\<lparr>sc_pc := pc\<rparr>) f k = issued c d f k"
  by (simp add: issued_def)

lemma load_failed_pc [simp]: "load_failed c (d\<lparr>sc_pc := pc\<rparr>) f = load_failed c d f"
  by (simp add: load_failed_def)

section \<open>Invariant\<close>

text \<open>
  The file names before the one a search is at all had a load of this search that failed. A
  search at \<open>f\<close>, with \<open>fs\<close> still to come:
\<close>

definition tried :: "cache_state \<Rightarrow> search_call \<Rightarrow> string list \<Rightarrow> bool" where
  "tried c d fs \<longleftrightarrow> valid_server_name (ServerName (sc_hello d))
     \<and> (\<exists>past. candidates (sc_hello d) = past @ fs \<and> (\<forall>f \<in> set past. load_failed c d f))"

fun search_ok :: "cache_state \<Rightarrow> search_call \<Rightarrow> search_pc \<Rightarrow> bool" where
  "search_ok c d (STry fs) = tried c d fs"
| "search_ok c d (SLoading k fs) = (\<exists>f. tried c d (f # fs) \<and> issued c d f k)"
| "search_ok c d (SReturned (Inr co)) =
     (\<exists>f fs k. tried c d (f # fs) \<and> issued c d f k \<and> lc_pc (cs_calls c ! k) = LReturned (Inr co))"
| "search_ok c d (SReturned (Inl e)) =
     (valid_server_name (ServerName (sc_hello d)) \<longrightarrow> e = search_error (sc_hello d) \<and> tried c d [])"

definition search_inv :: "crypto_env \<Rightarrow> search_state \<Rightarrow> bool" where
  "search_inv env s \<longleftrightarrow> cache_inv env (fst s)
     \<and> (\<forall>d \<in> set (snd s). (\<forall>p. sc_since d p \<le> past_versions (fst s) p) \<and> search_ok (fst s) d (sc_pc d))"

lemma grows_tried: "grows c c' \<Longrightarrow> tried c d fs \<Longrightarrow> tried c' d fs"
  unfolding tried_def using grows_failed by blast

lemma grows_ok:
  assumes "grows c c'" and "search_ok c d pc"
  shows "search_ok c' d pc"
  using assms(2)
proof (cases "(c, d, pc)" rule: search_ok.cases)
  case (3 c0 d0 co)
  then obtain f fs k where f: "tried c d (f # fs)" "issued c d f k" "lc_pc (cs_calls c ! k) = LReturned (Inr co)"
    using assms(2) by auto
  have "tried c' d (f # fs)" "issued c' d f k" "lc_pc (cs_calls c' ! k) = LReturned (Inr co)"
    using f grows_tried [OF assms(1)] grows_issued [OF assms(1)] grows_returned [OF assms(1)] by blast+
  then show ?thesis using 3 by (simp, blast)
qed (use assms(2) grows_tried [OF assms(1)] grows_issued [OF assms(1)] in fastforce)+

lemma tried_pc [simp]: "tried c (d\<lparr>sc_pc := pc\<rparr>) fs = tried c d fs"
  by (simp add: tried_def)

lemma search_ok_pc [simp]: "search_ok c (d\<lparr>sc_pc := pc'\<rparr>) pc = search_ok c d pc"
  by (cases "(c, d, pc)" rule: search_ok.cases) simp_all

lemma tried_next: "tried c d (f # fs) \<Longrightarrow> load_failed c d f \<Longrightarrow> tried c d fs"
  unfolding tried_def by (elim conjE exE) (intro conjI exI [of _ "_ @ [f]"], auto)

lemma search_inv_goto:
  assumes "search_inv env (c, ds)" and "i < length ds" and "search_ok c (ds ! i) pc"
  shows "search_inv env (c, goto_search i pc ds)"
  using assms nth_mem [OF assms(2)]
  by (auto simp: search_inv_def goto_search_def dest!: set_update_subset_insert [THEN subsetD])

lemma search_inv_cache:
  assumes "search_inv env (c, ds)" and "cache_step env l c c'"
  shows "search_inv env (c', ds)"
proof -
  have g: "grows c c'" by (rule grows_step [OF assms(2)])
  then have "past_versions c p \<le> past_versions c' p" for p by (simp add: grows_def)
  then show ?thesis using assms(1) cache_inv_step [OF assms(2)] grows_ok [OF g]
    by (fastforce simp: search_inv_def intro: le_trans)
qed

lemma search_inv_begin:
  assumes "search_inv env (c, ds)"
  shows "search_inv env (c, ds @ [\<lparr>sc_path = path, sc_hello = hello, sc_since = past_versions c, sc_pc = search_begin hello\<rparr>])"
  using assms by (auto simp: search_inv_def search_begin_valid tried_def)

lemma search_inv_at:
  assumes "search_inv env (c, ds)" and "search_at i pc (c', ds)"
  shows "i < length ds" "search_ok c (ds ! i) pc" "sc_since (ds ! i) p \<le> past_versions c p"
  using assms by (auto simp: search_inv_def search_at_def)

lemma search_inv_load:
  assumes inv: "search_inv env (c, ds)" and at: "search_at i (STry (f # fs)) (c, ds)"
    and call: "cache_step env (CallLoad (filepath_Join (sc_path (ds ! i)) f)) c c'"
  shows "search_inv env (c', goto_search i (SLoading (length (cs_calls c)) fs) ds)"
proof -
  let ?p = "filepath_Join (sc_path (ds ! i)) f"
  have inv': "search_inv env (c', ds)" by (rule search_inv_cache [OF inv call])
  have "cs_calls c' = cs_calls c @ [\<lparr>lc_file = ?p, lc_since = past_versions c ?p, lc_pc = LStat\<rparr>]"
    using call by (auto elim: cache_stepE)
  then have "issued c' (ds ! i) f (length (cs_calls c))"
    using search_inv_at(3) [OF inv at] by (simp add: issued_def Let_def)
  moreover have "tried c' (ds ! i) (f # fs)"
    using search_inv_at(2) [OF inv', of i "STry (f # fs)" c] at by (simp add: search_at_def)
  ultimately show ?thesis
    by (intro search_inv_goto [OF inv' search_inv_at(1) [OF inv at]]) auto
qed

lemma search_inv_step:
  assumes "search_step env l s t" and inv: "search_inv env s"
  shows "search_inv env t"
  using assms(1)
proof cases
  case (search_other k c c' ds)
  then show ?thesis using search_inv_cache inv by blast
next
  case (search_call path hello c ds)
  then show ?thesis using search_inv_begin inv by blast
next
  case (search_load i f fs c ds c')
  then show ?thesis using search_inv_load inv by blast
next
  case (search_found i k fs c ds co)
  note at = search_inv_at [OF inv [unfolded search_found(2)] search_found(4)]
  have "search_ok c (ds ! i) (SReturned (Inr co))" using at(2) search_found(6) by auto
  then show ?thesis using search_inv_goto at(1) inv search_found(2,3) by blast
next
  case (search_next i k fs c ds e)
  note at = search_inv_at [OF inv [unfolded search_next(2)] search_next(4)]
  obtain f where f: "tried c (ds ! i) (f # fs)" "issued c (ds ! i) f k" using at(2) by auto
  then have "load_failed c (ds ! i) f" using search_next(6) by (auto simp: load_failed_def)
  then have "search_ok c (ds ! i) (STry fs)" using tried_next f(1) by auto
  then show ?thesis using search_inv_goto at(1) inv search_next(2,3) by blast
next
  case (search_none i c ds)
  note at = search_inv_at [OF inv [unfolded search_none(2)] search_none(4)]
  have "search_ok c (ds ! i) (SReturned (Inl (search_error (sc_hello (ds ! i)))))" using at(2) by simp
  then show ?thesis using search_inv_goto at(1) inv search_none(2,3) by blast
qed

lemma search_inv_run: "run (search_step env) initial_search_state ls s \<Longrightarrow> search_inv env s"
  by (erule run_invariant [OF _ _ search_inv_step])
    (simp_all add: search_inv_def initial_search_state_def cache_inv_initial)

section \<open>Without interference\<close>

text \<open>
  The steps of search number \<open>i\<close> alone, with those of the load it waits for: nothing else
  happens, and a file is not found, with the error \<open>e\<close>, only if it is not there.
\<close>

fun own :: "go_error \<Rightarrow> nat \<Rightarrow> search_state \<Rightarrow> search_label \<Rightarrow> bool" where
  "own e i s (SLoad j) = (j = i)"
| "own e i s (SResult j) = (j = i)"
| "own e i s (SNoMore j) = (j = i)"
| "own e i s (SCall path hello) = False"
| "own e i s (SCache l) = (\<exists>n fs. search_at i (SLoading n fs) s \<and> quiet e n (fst s) l)"

definition own_step :: "crypto_env \<Rightarrow> go_error \<Rightarrow> nat \<Rightarrow> search_label \<Rightarrow> search_state \<Rightarrow> search_state \<Rightarrow> bool" where
  "own_step env e i l s t \<longleftrightarrow> search_step env l s t \<and> own e i s l"

lemma own_run: "run (own_step env e i) s ls t \<Longrightarrow> run (search_step env) s ls t"
  by (erule run_mono) (simp add: own_step_def)

lemma own_run_SCache:
  assumes "run (quiet_step env e n) c ls c'" and "search_at i (SLoading n fs) (c, ds)"
  shows "run (own_step env e i) (c, ds) (map SCache ls) (c', ds)"
  using assms
  by (induction rule: run.induct)
    (auto simp: own_step_def quiet_step_def search_at_def intro!: run.intros search_other)

text \<open>What the search itself does next, by where it is.\<close>

lemma own_stepD:
  assumes "own_step env e i l s t"
  shows "(\<exists>f fs c'. search_at i (STry (f # fs)) s \<and> l = SLoad i
      \<and> cache_step env (CallLoad (filepath_Join (sc_path (snd s ! i)) f)) (fst s) c'
      \<and> t = (c', goto_search i (SLoading (length (cs_calls (fst s))) fs) (snd s)))
    \<or> search_at i (STry []) s \<and> l = SNoMore i
      \<and> t = (fst s, goto_search i (SReturned (Inl (search_error (sc_hello (snd s ! i))))) (snd s))
    \<or> (\<exists>n fs e. search_at i (SLoading n fs) s \<and> lc_pc (cs_calls (fst s) ! n) = LReturned (Inl e)
      \<and> l = SResult i \<and> t = (fst s, goto_search i (STry fs) (snd s)))
    \<or> (\<exists>n fs co. search_at i (SLoading n fs) s \<and> lc_pc (cs_calls (fst s) ! n) = LReturned (Inr co)
      \<and> l = SResult i \<and> t = (fst s, goto_search i (SReturned (Inr co)) (snd s)))
    \<or> (\<exists>n fs k c'. search_at i (SLoading n fs) s \<and> l = SCache k
      \<and> quiet_step env e n k (fst s) c' \<and> t = (c', snd s))"
  using assms unfolding own_step_def
  by (elim conjE, elim search_stepE) (auto simp: quiet_step_def)

lemma called_deterministic: "cache_step env (CallLoad p) c c' \<Longrightarrow> cache_step env (CallLoad p) c c'' \<Longrightarrow> c' = c''"
  by (elim cache_stepE) simp_all

lemma own_step_deterministic:
  assumes "own_step env e i l s t" and "own_step env e i l' s t'"
  shows "l = l' \<and> t = t'"
  using own_stepD [OF assms(1)] own_stepD [OF assms(2)]
  by (elim disjE exE conjE)
    (auto simp: search_at_def dest: called_deterministic quiet_step_deterministic quiet_step_at)

lemma own_step_returned: "search_at i (SReturned r) s \<Longrightarrow> \<not> own_step env e i l s t"
  by (auto dest!: own_stepD simp: search_at_def)

lemma goto_search_twice [simp]: "goto_search i pc (goto_search i pc' ds) = goto_search i pc ds"
  by (cases "length ds \<le> i") (simp_all add: goto_search_def list_update_beyond)

lemma search_at_goto [simp]:
  "i < length ds \<Longrightarrow> search_at i pc' (c, goto_search i pc ds) = (pc' = pc)"
  "i < length ds \<Longrightarrow> sc_path (goto_search i pc ds ! i) = sc_path (ds ! i)"
  "i < length ds \<Longrightarrow> sc_hello (goto_search i pc ds ! i) = sc_hello (ds ! i)"
  by (auto simp: search_at_def goto_search_def)

text \<open>The files of two states are the same.\<close>

definition same_files :: "cache_state \<Rightarrow> cache_state \<Rightarrow> bool" where
  "same_files c c' \<longleftrightarrow> cs_versions c' = cs_versions c \<and> cs_present c' = cs_present c"

lemma same_files_disk: "same_files c c' \<Longrightarrow> disk_of e c' = disk_of e c"
proof -
  assume "same_files c c'"
  then have "current c' = current c" by (simp add: same_files_def current_def fun_eq_iff)
  then show ?thesis by (simp add: disk_of_def)
qed

lemma dir_loadCertificate_cached:
  "dir_loadCertificate env d f \<lparr>Path = path, Cache = Some c\<rparr> =
     map_option (\<lambda>(r, c'). (r, \<lparr>Path = path, Cache = Some c'\<rparr>)) (fc_Load env d c (filepath_Join path f))"
  by (simp add: dir_loadCertificate_def)

text \<open>One file: its load from the call to the return.\<close>

lemma load_run:
  assumes at: "search_at i (STry (f # fs)) (c, ds)"
    and L: "fc_Load env (disk_of e c) (cs_cache c) (filepath_Join (sc_path (ds ! i)) f) = Some (r, cache)"
  shows "\<exists>ls c'. run (own_step env e i) (c, ds) ls (c', goto_search i (SLoading (length (cs_calls c)) fs) ds)
    \<and> length (cs_calls c) < length (cs_calls c') \<and> lc_pc (cs_calls c' ! length (cs_calls c)) = LReturned r
    \<and> cs_cache c' = cache \<and> same_files c c'"
proof -
  let ?p = "filepath_Join (sc_path (ds ! i)) f" and ?k = "length (cs_calls c)"
  let ?c1 = "c\<lparr>cs_calls := cs_calls c @ [\<lparr>lc_file = ?p, lc_since = past_versions c ?p, lc_pc = LStat\<rparr>]\<rparr>"
  let ?c2 = "(goto_call ?k (LReturned r) ?c1)\<lparr>cs_cache := cache\<rparr>"
  have "own_step env e i (SLoad i) (c, ds) (?c1, goto_search i (SLoading ?k fs) ds)"
    using search_load [OF at called] by (simp add: own_step_def)
  moreover have d: "disk_of e ?c1 = disk_of e c" by (rule same_files_disk) (simp add: same_files_def)
  have "call_at ?k ?p LStat ?c1" by (simp add: call_at_def)
  from Load_steps [OF this, of env e r cache] obtain ls where "run (quiet_step env e ?k) ?c1 ls ?c2"
    using L d by auto
  moreover have "search_at i (SLoading ?k fs) (?c1, goto_search i (SLoading ?k fs) ds)"
    using at by (simp add: search_at_def goto_search_def)
  ultimately have "run (own_step env e i) (c, ds) (SLoad i # map SCache ls) (?c2, goto_search i (SLoading ?k fs) ds)"
    by (intro run.run_Cons [OF _ own_run_SCache])
  then show ?thesis
    by (intro exI conjI) (assumption, simp_all add: goto_call_def same_files_def)
qed

text \<open>The load and what the search makes of its result.\<close>

lemma attempt_run:
  assumes at: "search_at i (STry (f # fs)) (c, ds)"
    and L: "fc_Load env (disk_of e c) (cs_cache c) (filepath_Join (sc_path (ds ! i)) f) = Some (r, cache)"
  shows "\<exists>ls c'. run (own_step env e i) (c, ds) ls
      (c', goto_search i (case r of Inl _ \<Rightarrow> STry fs | Inr co \<Rightarrow> SReturned (Inr co)) ds)
    \<and> cs_cache c' = cache \<and> same_files c c'"
proof -
  let ?ds = "goto_search i (SLoading (length (cs_calls c)) fs) ds"
  let ?pc = "case r of Inl _ \<Rightarrow> STry fs | Inr co \<Rightarrow> SReturned (Inr co)"
  have i: "i < length ds" using at by (simp add: search_at_def)
  obtain ls c' where R: "run (own_step env e i) (c, ds) ls (c', ?ds)"
    "length (cs_calls c) < length (cs_calls c')" "lc_pc (cs_calls c' ! length (cs_calls c)) = LReturned r"
    "cs_cache c' = cache" "same_files c c'"
    using load_run [OF at L] by (elim exE conjE)
  have at': "search_at i (SLoading (length (cs_calls c)) fs) (c', ?ds)" using i by simp
  have "own_step env e i (SResult i) (c', ?ds) (c', goto_search i ?pc ds)"
    using search_found [OF at' R(2)] search_next [OF at' R(2)] R(3) by (cases r) (simp_all add: own_step_def)
  with R(1) have "run (own_step env e i) (c, ds) (ls @ [SResult i]) (c', goto_search i ?pc ds)"
    by (rule run_append [OF _ run.run_Cons [OF _ run.run_Nil]])
  then show ?thesis using R(4,5) by (intro exI conjI)
qed

lemma search_run:
  assumes "search_at i (STry fs) (c, ds)"
    and "first_loaded (dir_loadCertificate env (disk_of e c)) (search_error (sc_hello (ds ! i))) fs
      \<lparr>Path = sc_path (ds ! i), Cache = Some (cs_cache c)\<rparr> = Some (r, dir')"
  shows "\<exists>ls c'. run (own_step env e i) (c, ds) ls (c', goto_search i (SReturned r) ds)
    \<and> Cache dir' = Some (cs_cache c') \<and> same_files c c'"
  using assms
proof (induction fs arbitrary: c ds)
  case Nil
  then have "r = Inl (search_error (sc_hello (ds ! i)))" "Cache dir' = Some (cs_cache c)" by auto
  then have "run (own_step env e i) (c, ds) [SNoMore i] (c, goto_search i (SReturned r) ds)"
    using search_none [OF Nil.prems(1)] by (auto simp: run_Cons_iff own_step_def)
  then show ?case using \<open>Cache dir' = _\<close> by (intro exI conjI) (assumption, simp_all add: same_files_def)
next
  case (Cons f fs)
  have i: "i < length ds" using Cons.prems(1) by (simp add: search_at_def)
  obtain lr cache where L: "fc_Load env (disk_of e c) (cs_cache c) (filepath_Join (sc_path (ds ! i)) f) = Some (lr, cache)"
    and rest: "case lr of Inr co \<Rightarrow> r = Inr co \<and> dir' = \<lparr>Path = sc_path (ds ! i), Cache = Some cache\<rparr>
      | Inl err \<Rightarrow> first_loaded (dir_loadCertificate env (disk_of e c)) (search_error (sc_hello (ds ! i))) fs
          \<lparr>Path = sc_path (ds ! i), Cache = Some cache\<rparr> = Some (r, dir')"
    using Cons.prems(2) by (auto simp: dir_try_def dir_loadCertificate_cached split: option.splits sum.splits)
  note A = attempt_run [OF Cons.prems(1) L]
  show ?case
  proof (cases lr)
    case (Inr co)
    then show ?thesis using A rest by auto
  next
    case (Inl err)
    let ?ds = "goto_search i (STry fs) ds"
    obtain ls c' where R: "run (own_step env e i) (c, ds) ls (c', ?ds)" "cs_cache c' = cache" "same_files c c'"
      using A Inl by auto
    have "first_loaded (dir_loadCertificate env (disk_of e c')) (search_error (sc_hello (?ds ! i))) fs
        \<lparr>Path = sc_path (?ds ! i), Cache = Some (cs_cache c')\<rparr> = Some (r, dir')"
      using rest Inl R(2) i same_files_disk [OF R(3)] by simp
    from Cons.IH [OF _ this] obtain ls' c'' where
      IH: "run (own_step env e i) (c', ?ds) ls' (c'', goto_search i (SReturned r) ?ds)"
      "Cache dir' = Some (cs_cache c'')" "same_files c' c''"
      using i by (simp, elim exE conjE)
    have "run (own_step env e i) (c, ds) (ls @ ls') (c'', goto_search i (SReturned r) ds)"
      using run_append [OF R(1) IH(1)] by simp
    then show ?thesis using IH(2,3) R(3) by (intro exI conjI) (assumption, simp_all add: same_files_def)
  qed
qed

lemma GetCertificate_run:
  assumes "search_at i (search_begin (sc_hello (ds ! i))) (c, ds)"
    and "dir_GetCertificate (dir_loadCertificate env (disk_of e c)) (sc_hello (ds ! i))
      \<lparr>Path = sc_path (ds ! i), Cache = Some (cs_cache c)\<rparr> = Some (r, dir')"
  shows "\<exists>ls c'. run (own_step env e i) (c, ds) ls (c', goto_search i (SReturned r) ds)
    \<and> Cache dir' = Some (cs_cache c') \<and> same_files c c'"
proof (cases "valid_server_name (ServerName (sc_hello (ds ! i)))")
  case True
  then show ?thesis
    using assms by (intro search_run) (simp_all add: dir_GetCertificate_candidates search_begin_valid search_error_def)
next
  case False
  then have "search_at i (SReturned r) (c, ds)" "Cache dir' = Some (cs_cache c)"
    using assms by (auto simp: dir_GetCertificate_candidates search_begin_valid)
  moreover from this(1) have "(ds ! i)\<lparr>sc_pc := SReturned r\<rparr> = ds ! i"
    by (cases "ds ! i") (simp add: search_at_def)
  then have "goto_search i (SReturned r) ds = ds" by (simp add: goto_search_def)
  ultimately show ?thesis by (intro exI [of _ "[]"] exI [of _ c]) (simp add: same_files_def)
qed

section \<open>An example\<close>

text \<open>A directory with a wildcard certificate, and a search that has just begun.\<close>

definition demo_files :: cache_state where
  "demo_files = \<lparr>cs_versions = (\<lambda>p. if p = ''/certs/_.a.org.pem.ecdsa'' then [(7, demo_pem)] else []),
     cs_present = (\<lambda>p. if p = ''/certs/_.a.org.pem.ecdsa'' then True else False), cs_cache = [], cs_calls = []\<rparr>"

definition demo_search :: search_call where
  "demo_search = \<lparr>sc_path = ''/certs'', sc_hello = demo_hello ''www.a.org'',
     sc_since = past_versions demo_files, sc_pc = search_begin (demo_hello ''www.a.org'')\<rparr>"

lemma demo_search_result:
  "dir_GetCertificate (dir_loadCertificate demo_crypto (disk_of (SysError ''gone'') demo_files))
     (sc_hello ([demo_search] ! 0)) \<lparr>Path = sc_path ([demo_search] ! 0), Cache = Some (cs_cache demo_files)\<rparr>
   = Some (Inr (Some demo_cert), demo_dir_after)"
proof -
  have "dir_GetCertificate (dir_loadCertificate demo_crypto (disk_of (SysError ''gone'') demo_files))
     (demo_hello ''www.a.org'') \<lparr>Path = ''/certs'', Cache = Some []\<rparr> = Some (Inr (Some demo_cert), demo_dir_after)"
    by code_simp
  then show ?thesis by (simp add: demo_search_def demo_files_def)
qed

lemma demo_search_begins:
  "run (search_step demo_crypto) initial_search_state
     [SCache (WriteFile ''/certs/_.a.org.pem.ecdsa'' 7 demo_pem), SCall ''/certs'' (demo_hello ''www.a.org'')]
     (demo_files, [demo_search])"
proof -
  have "cache_step demo_crypto (WriteFile ''/certs/_.a.org.pem.ecdsa'' 7 demo_pem) initial_cache_state demo_files"
    using file_written [of 7 initial_cache_state "''/certs/_.a.org.pem.ecdsa''" demo_crypto demo_pem]
    by (simp add: initial_cache_state_def demo_files_def newFileCache_def fun_upd_def cong: if_cong)
  then have "search_step demo_crypto (SCache (WriteFile ''/certs/_.a.org.pem.ecdsa'' 7 demo_pem))
      initial_search_state (demo_files, [])"
    unfolding initial_search_state_def by (rule search_other)
  moreover have "search_step demo_crypto (SCall ''/certs'' (demo_hello ''www.a.org'')) (demo_files, []) (demo_files, [demo_search])"
    using search_call [of demo_crypto "''/certs''" "demo_hello ''www.a.org''" demo_files "[]"] by (simp add: demo_search_def)
  ultimately show ?thesis by (simp only: run_Cons_iff run_Nil_iff) blast
qed

lemma demo_search_at: "search_at 0 (search_begin (sc_hello ([demo_search] ! 0))) (demo_files, [demo_search])"
  by (simp add: search_at_def demo_search_def)

section \<open>Properties\<close>

text \<open>
  C20: \<^verbatim>\<open>GetCertificate\<close> of a directory keeps the documented order and never serves an outdated or
  a foreign certificate, whatever other calls, the cleaning of the cache and changes of the files
  (each with a new modification time) do between its steps: a certificate it has returned is what a version of one of the documented
  file names of its directory parses to, that version was current at some moment after the
  call began, and of every file name before that one in the documented order a load that it
  made itself failed.
\<close>

theorem dir_GetCertificate_concurrent:
  assumes "run (search_step env) initial_search_state ls (c, ds)"
    and "d \<in> set ds" and "sc_pc d = SReturned (Inr co)"
  shows "\<exists>past f fs cert m b. candidates (sc_hello d) = past @ f # fs
    \<and> (\<forall>g \<in> set past. load_failed c d g)
    \<and> (sc_path d \<noteq> [] \<longrightarrow> child_of (sc_path d) (filepath_Join (sc_path d) f))
    \<and> co = Some cert \<and> parse_certificate env b = Some (Inr cert)
    \<and> (m, b) \<in> set (drop (sc_since d (filepath_Join (sc_path d) f)) (cs_versions c (filepath_Join (sc_path d) f)))"
proof -
  have inv: "search_inv env (c, ds)" by (rule search_inv_run [OF assms(1)])
  then have "search_ok c d (SReturned (Inr co))" using assms(2,3) by (fastforce simp: search_inv_def)
  then obtain f fs k where t: "tried c d (f # fs)" and k: "issued c d f k"
      "lc_pc (cs_calls c ! k) = LReturned (Inr co)" by auto
  let ?p = "filepath_Join (sc_path d) f" and ?call = "cs_calls c ! k"
  have call: "?call \<in> set (cs_calls c)" "lc_file ?call = ?p" "sc_since d ?p \<le> lc_since ?call"
    using k(1) by (auto simp: issued_def Let_def)
  then obtain cert where "co = Some cert" "version_from env (cs_versions c ?p) (lc_since ?call) cert"
    using inv k(2) by (fastforce simp: search_inv_def cache_inv_def)
  then obtain m b where v: "co = Some cert" "parse_certificate env b = Some (Inr cert)"
      "(m, b) \<in> set (drop (sc_since d ?p) (cs_versions c ?p))"
    using version_from_mono [OF _ call(3)] unfolding version_from_def by blast
  obtain past where past: "candidates (sc_hello d) = past @ f # fs" "\<forall>g \<in> set past. load_failed c d g"
    and n: "valid_server_name (ServerName (sc_hello d))"
    using t by (auto simp: tried_def)
  have "is_file_name f" using candidates_file_names [OF n] past(1) by simp
  then show ?thesis using past v child_of_Join by blast
qed

theorem dir_GetCertificate_concurrent_witness:
  "\<exists>c ls b. run (search_step demo_crypto) initial_search_state ls
       (c, [demo_search\<lparr>sc_pc := SReturned (Inr (Some demo_cert))\<rparr>])
     \<and> parse_certificate demo_crypto b = Some (Inr demo_cert)"
proof -
  from GetCertificate_run [OF demo_search_at demo_search_result] obtain ls c where
    "run (own_step demo_crypto (SysError ''gone'') 0) (demo_files, [demo_search]) ls
      (c, goto_search 0 (SReturned (Inr (Some demo_cert))) [demo_search])"
    by (elim exE conjE)
  then have r: "\<exists>ks. run (search_step demo_crypto) initial_search_state ks
      (c, [demo_search\<lparr>sc_pc := SReturned (Inr (Some demo_cert))\<rparr>])"
    using run_append [OF demo_search_begins own_run] by (simp add: goto_search_def) blast
  then obtain ks where r: "run (search_step demo_crypto) initial_search_state ks
      (c, [demo_search\<lparr>sc_pc := SReturned (Inr (Some demo_cert))\<rparr>])" ..
  from dir_GetCertificate_concurrent [OF r, of "demo_search\<lparr>sc_pc := SReturned (Inr (Some demo_cert))\<rparr>"]
  show ?thesis using r by (simp, blast)
qed

text \<open>
  C34: Step by step, a call of \<^verbatim>\<open>GetCertificate\<close> computes what the sequential function does.
  Take any state in which a search has just begun, and let only its own steps and those of its
  loads happen, a file being missed only if it is not there. Then there is exactly one way to
  go on: every such run is the beginning of one that ends, after finitely many steps, where the
  search has returned the result of \<open>dir_GetCertificate\<close> on the disk and the cache of the
  first state, with the cache that function leaves and the files as they were; there it has no
  step left. So it cannot return anything else, get stuck or run on.
\<close>

theorem dir_GetCertificate_refined_by_steps:
  assumes "search_at i (search_begin (sc_hello (ds ! i))) (c, ds)"
    and "dir_GetCertificate (dir_loadCertificate env (disk_of e c)) (sc_hello (ds ! i))
      \<lparr>Path = sc_path (ds ! i), Cache = Some (cs_cache c)\<rparr> = Some (r, dir')"
  shows "\<exists>ls c'. run (own_step env e i) (c, ds) ls (c', goto_search i (SReturned r) ds)
    \<and> run (search_step env) (c, ds) ls (c', goto_search i (SReturned r) ds)
    \<and> Cache dir' = Some (cs_cache c') \<and> same_files c c'
    \<and> (\<forall>ks s. run (own_step env e i) (c, ds) ks s \<longrightarrow>
         (\<exists>rest. ls = ks @ rest \<and> run (own_step env e i) s rest (c', goto_search i (SReturned r) ds)))
    \<and> (\<forall>l s. \<not> own_step env e i l (c', goto_search i (SReturned r) ds) s)"
proof -
  obtain ls c' where R: "run (own_step env e i) (c, ds) ls (c', goto_search i (SReturned r) ds)"
    and c': "Cache dir' = Some (cs_cache c')" "same_files c c'"
    using GetCertificate_run [OF assms] by (elim exE conjE)
  have "search_at i (SReturned r) (c', goto_search i (SReturned r) ds)"
    using assms(1) by (simp add: search_at_def goto_search_def)
  then have stop: "\<not> own_step env e i l (c', goto_search i (SReturned r) ds) s" for l s
    by (rule own_step_returned)
  have one: "\<exists>rest. ls = ks @ rest \<and> run (own_step env e i) s rest (c', goto_search i (SReturned r) ds)"
    if "run (own_step env e i) (c, ds) ks s" for ks s
    by (rule run_deterministic [OF R stop own_step_deterministic that])
  show ?thesis
    using R own_run [OF R] c' one stop by (intro exI [of _ ls] exI [of _ c'] conjI) auto
qed

theorem dir_GetCertificate_refined_by_steps_witness:
  "\<exists>ls c'. run (search_step demo_crypto) (demo_files, [demo_search]) ls
       (c', [demo_search\<lparr>sc_pc := SReturned (Inr (Some demo_cert))\<rparr>])
     \<and> Cache demo_dir_after = Some (cs_cache c')
     \<and> (\<forall>ks s. run (own_step demo_crypto (SysError ''gone'') 0) (demo_files, [demo_search]) ks s \<longrightarrow>
          length ks \<le> length ls)"
proof -
  from dir_GetCertificate_refined_by_steps [OF demo_search_at demo_search_result]
  obtain ls c' where "run (search_step demo_crypto) (demo_files, [demo_search]) ls
      (c', goto_search 0 (SReturned (Inr (Some demo_cert))) [demo_search])"
    "Cache demo_dir_after = Some (cs_cache c')"
    "\<forall>ks s. run (own_step demo_crypto (SysError ''gone'') 0) (demo_files, [demo_search]) ks s \<longrightarrow>
       (\<exists>rest. ls = ks @ rest)"
    by blast
  then show ?thesis
    by (intro exI [of _ ls] exI [of _ c']) (simp add: goto_search_def, metis length_append le_add1)
qed

end
