(* ===== verification/Cert_Eab.thy ===== *)
theory Cert_Eab
  imports Cert_Getter
begin

text \<open>
  The external account binding of \<^verbatim>\<open>cert/auto.go\<close>: the key an operator encodes into the
  environment is the key the certificate manager gets.
\<close>

section \<open>The encoder\<close>

text \<open>
  RFC 4648, with the alphabet for URLs and without padding: the form in which ACME
  servers hand out the key of an external account.
\<close>

fun b64_encode_groups :: "bytes \<Rightarrow> nat list" where
  "b64_encode_groups [] = []"
| "b64_encode_groups [x] = [unat x div 4, unat x mod 4 * 16]"
| "b64_encode_groups [x, y] =
     [unat x div 4, unat x mod 4 * 16 + unat y div 16, unat y mod 16 * 4]"
| "b64_encode_groups (x # y # z # zs) =
     unat x div 4 # (unat x mod 4 * 16 + unat y div 16) # (unat y mod 16 * 4 + unat z div 64)
       # unat z mod 64 # b64_encode_groups zs"

definition b64_char :: "nat \<Rightarrow> char" where
  "b64_char n =
     (if n < 26 then char_of (n + 65) else if n < 52 then char_of (n + 71)
      else if n < 62 then char_of (n - 4) else if n = 62 then CHR ''-'' else CHR ''_'')"

definition base64_RawURL_EncodeToString :: "bytes \<Rightarrow> string" where
  "base64_RawURL_EncodeToString bs = map b64_char (b64_encode_groups bs)"

lemma b64_digit_special:
  "b64_digit CHR ''-'' = Some 62" "b64_digit CHR ''_'' = Some 63"
  "b64_digit CHR 0x0A = None" "b64_digit CHR 0x0D = None"
  by code_simp+

lemma b64_digit_char: "n < 64 \<Longrightarrow> b64_digit (b64_char n) = Some n"
proof -
  assume n: "n < 64"
  consider "n < 26" | "26 \<le> n" "n < 52" | "52 \<le> n" "n < 62" | "n = 62" | "n = 63"
    using n by linarith
  then show ?thesis
    by cases (simp_all add: b64_char_def b64_digit_special, auto simp: b64_digit_def Let_def)
qed

lemma b64_char_line_end: "n < 64 \<Longrightarrow> b64_char n \<noteq> CHR 0x0A" "n < 64 \<Longrightarrow> b64_char n \<noteq> CHR 0x0D"
  using b64_digit_char [of n] b64_digit_special by auto

lemmas b64_char = b64_digit_char b64_char_line_end

lemma byte_bounds: "unat (x :: byte) div 4 < 64" "unat x div 16 < 16" "unat x div 64 < 4"
proof -
  have "unat x < 2 ^ LENGTH(8)" by (rule unsigned_less)
  then show "unat (x :: byte) div 4 < 64" "unat x div 16 < 16" "unat x div 64 < 4" by simp_all
qed

lemma digit_bounds: "n mod 4 * 16 + m < 64" if "m < 16" for n m :: nat
  using that mod_less_divisor [of 4 n] by linarith

lemma digit_bounds': "n mod 16 * 4 + m < 64" if "m < 4" for n m :: nat
  using that mod_less_divisor [of 16 n] by linarith

lemma b64_encode_groups_range: "n \<in> set (b64_encode_groups bs) \<Longrightarrow> n < 64"
proof (induction bs rule: b64_encode_groups.induct)
  case (2 x)
  then show ?case using byte_bounds [of x] digit_bounds [of 0 "unat x"] by auto
next
  case (3 x y)
  then show ?case using byte_bounds [of x] byte_bounds [of y] digit_bounds [of "unat y div 16" "unat x"]
      digit_bounds' [of 0 "unat y"] by auto
next
  case (4 x y z zs)
  then show ?case using byte_bounds [of x] byte_bounds [of y] byte_bounds [of z] digit_bounds [of "unat y div 16" "unat x"]
      digit_bounds' [of "unat z div 64" "unat y"] by auto
qed simp

lemma byte_splits:
  "of_nat (unat (x :: byte) div 4 * 4 + unat x mod 4) = x"
  "of_nat (unat x div 16 * 16 + unat x mod 16) = x"
  "of_nat (unat x div 64 * 64 + unat x mod 64) = x"
  by simp_all

lemma byte_joins:
  "(unat (x :: byte) mod 4 * 16 + unat (y :: byte) div 16) div 16 = unat x mod 4"
  "(unat x mod 4 * 16 + unat y div 16) mod 16 = unat y div 16"
  "(unat y mod 16 * 4 + unat x div 64) div 4 = unat y mod 16"
  "(unat y mod 16 * 4 + unat x div 64) mod 4 = unat x div 64"
  using byte_bounds [of x] byte_bounds [of y] by simp_all

lemma b64_groups_encode: "b64_groups (b64_encode_groups bs) = Inr bs"
proof (induction bs rule: b64_encode_groups.induct)
  case (2 x)
  then show ?case using byte_splits(1) [of x] by simp
next
  case (3 x y)
  then show ?case using byte_joins(1,2) [of x y] byte_splits(1) [of x] byte_splits(2) [of y] by simp
next
  case (4 x y z zs)
  then show ?case
    using byte_joins(1,2) [of x y] byte_joins(3,4) [of y z] byte_splits(1) [of x] byte_splits(2) [of y]
      byte_splits(3) [of z]
    by (simp only: b64_encode_groups.simps b64_groups.simps sum.case)
qed simp

lemma base64_Decode_Encode: "base64_RawURL_DecodeString (base64_RawURL_EncodeToString bs) = Inr bs"
proof -
  have r: "\<forall>n \<in> set (b64_encode_groups bs). n < 64" using b64_encode_groups_range by blast
  then have "filter (\<lambda>c. c \<noteq> CHR 0x0A \<and> c \<noteq> CHR 0x0D) (base64_RawURL_EncodeToString bs) =
      base64_RawURL_EncodeToString bs"
    by (simp add: base64_RawURL_EncodeToString_def filter_id_conv b64_char)
  moreover have "map (\<lambda>c. the (b64_digit c)) (base64_RawURL_EncodeToString bs) = b64_encode_groups bs"
    using r by (simp add: base64_RawURL_EncodeToString_def b64_char map_idI)
  moreover have "list_all (\<lambda>c. b64_digit c \<noteq> None) (base64_RawURL_EncodeToString bs)"
    using r by (simp add: base64_RawURL_EncodeToString_def list_all_iff b64_char)
  ultimately show ?thesis
    by (simp only: base64_RawURL_DecodeString_def Let_def b64_groups_encode if_True)
qed

section \<open>Property\<close>

text \<open>
  C36: The key of an external account survives the environment: with a key identifier set and
  the key encoded as base64 for URLs, the manager is configured with exactly that identifier
  and these bytes; without an identifier or with an empty key there is no binding.
\<close>

theorem autocert_EAB_roundtrip:
  assumes "os_Getenv env ''AUTOCERT_EAB_KEY'' = base64_RawURL_EncodeToString key"
    and "GetCertificateAutomatically env hosts = FromManager m"
  shows "EAB m = (if os_Getenv env ''AUTOCERT_EAB_KID'' = [] \<or> key = [] then None
     else Some \<lparr>KID = os_Getenv env ''AUTOCERT_EAB_KID'', Key = key\<rparr>)"
proof -
  have "base64_RawURL_EncodeToString key = [] \<longleftrightarrow> key = []"
    by (cases key rule: b64_encode_groups.cases) (simp_all add: base64_RawURL_EncodeToString_def)
  then have "getAutocertEAB env = (if os_Getenv env ''AUTOCERT_EAB_KID'' = [] \<or> key = [] then None
      else Some \<lparr>KID = os_Getenv env ''AUTOCERT_EAB_KID'', Key = key\<rparr>)"
    using assms(1) by (simp add: getAutocertEAB_def Let_def base64_Decode_Encode)
  then show ?thesis using assms(2)
    by (auto simp: GetCertificateAutomatically_def getCertificateAutomatically_def split: option.splits)
qed

definition demo_eab_env :: os_env where
  "demo_eab_env = \<lparr>os_err = (\<lambda>_ _. None), os_random = (\<lambda>_. []), os_umode = 493,
     os_Getenv = (\<lambda>v. if v = ''AUTOCERT_EAB_KID'' then ''k1''
                     else if v = ''AUTOCERT_EAB_KEY'' then ''_wA-'' else []),
     os_Getpid = 1, os_Getuid = 0\<rparr>"

theorem autocert_EAB_roundtrip_witness:
  "getAutocertEAB demo_eab_env = Some \<lparr>KID = ''k1'', Key = [255, 0, 62]\<rparr>"
proof -
  have "base64_RawURL_EncodeToString [255, 0, 62] = ''_wA-''" by code_simp
  then have "os_Getenv demo_eab_env ''AUTOCERT_EAB_KEY'' = base64_RawURL_EncodeToString [255, 0, 62]"
    by (simp add: demo_eab_env_def)
  from autocert_EAB_roundtrip [OF this, of None] show ?thesis
    by (simp add: GetCertificateAutomatically_def getCertificateAutomatically_def demo_eab_env_def)
qed

end
