(* ===== verification/Spec2Isabelle.thy ===== *)
theory Spec2Isabelle
  imports Proxy_Delivery Proxy_Over_Unix Multi_Unix_End Tls_Serving Tls_Hello Cert_Search Cert_Eab
begin

text \<open>
  A verification development for the Go library \<^verbatim>\<open>go-listener\<close>, which opens network
  listeners from textual specifications. All packages of the library are modelled.

  \<^bold>\<open>The program and its parts.\<close> A specification such as \<^verbatim>\<open>tls:/etc/c.pem:proxy:tcp:443\<close>
  names a listener type and its argument. \<^verbatim>\<open>Open\<close> (\<^verbatim>\<open>open.go\<close>) looks the type up in a
  registry (\<^verbatim>\<open>listener.go\<close>) and calls its opener; the openers of \<^verbatim>\<open>builtin.go\<close> make
  sockets (TCP, UNIX, inherited descriptors), those of the PROXY and the TLS listener call
  \<^verbatim>\<open>Open\<close> again for the inner listener. \<^verbatim>\<open>OpenJSON\<close> does the same from a JSON object.
  The UNIX listener (\<^verbatim>\<open>unix/listener.go\<close>) moves its socket into place and watches the
  file. The PROXY listener (\<^verbatim>\<open>proxy/\<close>) reads a header from every connection in a
  goroutine of its own. A TLS listener (\<^verbatim>\<open>tls/listener.go\<close>) has a function that finds a
  certificate for a client hello (\<^verbatim>\<open>cert/\<close>): from a file, from a directory by the name
  the client asks for and the key types it accepts, or from an ACME manager, with a
  process-wide cache of loaded files. \<^verbatim>\<open>multi.go\<close> aggregates listeners, and
  \<^verbatim>\<open>tlsutil/hello.go\<close> reads the client hello of a connection without consuming it.

  \<^bold>\<open>The standard library.\<close> What the code uses of it is defined in the theories
  \<open>Go_Prelude\<close> (errors, \<^verbatim>\<open>errors.Is\<close>, bytes, runs of a step relation),
  \<open>Go_Io\<close> (readers; locale \<open>stream_reader\<close>), \<open>Go_Net\<close> (addresses, connections; locale
  \<open>conn_reader\<close>), \<open>Go_Strings\<close> (\<^verbatim>\<open>strings\<close>, \<^verbatim>\<open>strconv\<close>, \<^verbatim>\<open>filepath\<close>),
  \<open>Go_NetParse\<close> (\<^verbatim>\<open>net.SplitHostPort\<close>, \<^verbatim>\<open>net.ParseIP\<close>) and \<open>Go_Os\<close> (file system,
  sockets, descriptors). \<open>Goroutines\<close> holds two locales on step relations:
  \<open>close_contract\<close> (closing once) and \<open>draining\<close> (all goroutines end).
\<close>

text \<open>
  \<^bold>\<open>Which theory models what.\<close>
  \<^item> \<open>Proxy_Header\<close>: \<^verbatim>\<open>proxy/header.go\<close>. A connection is the list of pieces in which its
    bytes arrive; \<open>ReadHeader\<close> returns what is left of it. The stream decoder
    \<open>decode_stream\<close> is the reference; further lemmas relate \<open>Format\<close> and \<open>ReadHeader\<close> in
    both directions. Bytes, lengths and ports are words of 8 and 16 bits.
  \<^item> \<open>Proxy_Listener\<close>: \<^verbatim>\<open>proxy/listener.go\<close>, \<^verbatim>\<open>conn.go\<close>, \<^verbatim>\<open>error.go\<close>. The record
    \<open>proxy_state\<close> has the accept loop, the multiset of running handlers, the callers
    blocked in \<^verbatim>\<open>Accept\<close> and \<^verbatim>\<open>Close\<close>, and histories. One relation per method, joined
    in \<open>proxy_step\<close>; a send on an unbuffered channel is one step of sender and receiver.
    A connection is passed on as \<open>ReadHeader\<close> left it (\<open>connState\<close>). Invariants: conservation of
    connections, no early \<^verbatim>\<open>net.ErrClosed\<close>, the addresses of the header and the bytes behind
    it; by the two locales, closing once and the end of all goroutines.
    \<open>Proxy_Types\<close>: the type of the addresses that come out, by the command of the header, which
    headers \<open>Format\<close> writes that are not read back, and the reads and bytes that one header can
    cost. \<open>Proxy_Delivery\<close>: end to end, what becomes of a connection that starts with a formatted
    header, and how many steps of its handler that takes.
  \<^item> \<open>Proxy_Over_Unix\<close>: a PROXY listener around a watched UNIX listener, as the product of the
    two relations: the calls of the inner listener are steps of both. Its runs project to runs
    of either part, so that every fact on a part holds of the whole; what is new is how the two
    close each other.
  \<^item> \<open>Multi_Listener\<close>: \<^verbatim>\<open>multi.go\<close>, in the same manner with one loop per inner listener.
    \<open>Multi_Over_Unix\<close>: an aggregating listener over any number of watched UNIX listeners, as
    the product of their relations, with projections on the whole and on each listener; that
    they do not disturb each other and are closed once. \<open>Multi_Unix_End\<close>: how it ends when all
    of them closed themselves. \<open>Unix_Inner\<close> has what the two compositions share.
  \<^item> \<open>Unix_Listener\<close>: \<^verbatim>\<open>Listen\<close>, \<^verbatim>\<open>Close\<close>, \<^verbatim>\<open>Addr\<close> and the watcher's loop of
    \<^verbatim>\<open>unix/listener.go\<close>, with the deferred calls written as a function that every return
    applies. \<open>Unix_Watch\<close>: the watcher as a goroutine beside callers and changes of the file.
  \<^item> \<open>Listener_Registry\<close>: \<^verbatim>\<open>listener.go\<close>. An opener is named by a constructor.
  \<^item> \<open>Listener_Open\<close>: \<^verbatim>\<open>open.go\<close>, \<^verbatim>\<open>builtin.go\<close>, \<^verbatim>\<open>close.go\<close>, \<^verbatim>\<open>tls/listener.go\<close>.
    The openers are mutually recursive functions on the state \<open>world\<close> that return a listener,
    an error or a panic; a listener is a value of the datatype \<open>listener\<close>, with the socket it
    closes at its bottom. The values of an object are those of decoded JSON and others.
  \<^item> \<open>Listener_Contract\<close>: what every opener promises of the open sockets (locale
    \<open>opener_contract\<close>, interpreted on \<open>Open\<close>), and from it alone \<^verbatim>\<open>OpenAll\<close> and
    \<^verbatim>\<open>CloseAll\<close>. \<open>Listener_Syntax\<close>: the documented string syntax as a datatype with a meaning,
    which \<^verbatim>\<open>Open\<close> implements; when it panics; and what \<^verbatim>\<open>OpenJSON\<close> does with any object that
    has the parts of a specification, which is the same up to two kinds that it never opens.
    \<open>Listener_Builtin\<close>: TCP addresses, the protocols of the TLS listener, and the two parameters
    behind those kinds. \<open>Tls_Serving\<close>: from the specification of a TLS listener to the answers
    it gives to hellos.
  \<^item> \<open>Cert_KeyType\<close>, \<open>Cert_Load\<close>, \<open>Cert_Dir\<close>: \<^verbatim>\<open>cert/keytype.go\<close>, \<^verbatim>\<open>cert.go\<close>, \<^verbatim>\<open>dir.go\<close>.
    \<open>Cert_Cache\<close>: \<^verbatim>\<open>cache.go\<close> and \<^verbatim>\<open>globalcache.go\<close>, sequentially and, as the relation
    \<open>cache_step\<close>, with loads, cleaning and changes of files interleaved. \<open>Cert_Search\<close>: a
    search of a directory as a goroutine that makes such loads one after the other; it serves
    what was current during the call, in the documented order, and its own steps are
    deterministic and compute the sequential \<open>dir_GetCertificate\<close>. \<open>Cert_Getter\<close>:
    \<^verbatim>\<open>file.go\<close>, \<^verbatim>\<open>sni.go\<close>, \<^verbatim>\<open>auto.go\<close>; a closure is a value of \<open>GetCertificateFunc\<close> and
    \<open>getCertificate\<close> calls it, with the answer that \<open>served\<close> reads from the files without a
    cache. \<open>Cert_Eab\<close>: the account key of \<^verbatim>\<open>auto.go\<close>.
  \<^item> \<open>Tls_Hello\<close>: \<^verbatim>\<open>tlsutil/hello.go\<close>; a handshake is any program over its connection.
\<close>

text \<open>
  \<^bold>\<open>Termination.\<close> Recursion of the code that ends for a reason in its data is a total
  function: \<open>Open\<close> and its companions by the length of the specification or the size of the
  object, \<^verbatim>\<open>net.ParseIP\<close> by the length of the text. Loops that depend on an environment are
  \<^theory_text>\<open>partial_function (option)\<close>, where no result means that the call does not return:
  \<open>read_loop\<close> (\<^verbatim>\<open>io.ReadFull\<close>, which returns on every reader that keeps \<open>stream_reader\<close>,
  whose measure of empty reads bounds it), and \<open>load_loop\<close> (the PEM blocks of a file, which
  ends when the decoder makes progress, \<open>pem_progress\<close>). The step relations have no fuel: that
  goroutines end is \<open>draining\<close>, with the bound \<open>p_work\<close>, \<open>m_work\<close>, \<open>ws_work\<close>,
  \<open>over_work\<close> or \<open>mou_work\<close> on the number of their own steps in any order.

  \<^bold>\<open>Parameters.\<close> \<open>os_env\<close>: for each system call whether it fails in a given state, the
  random part of temporary names, the environment variables, the process and user id.
  \<open>crypto_env\<close>: the PEM decoder and the parsers of keys and certificates. \<open>manager_fun\<close>: the
  certificate manager of \<^verbatim>\<open>golang.org/x/crypto\<close>. \<open>handshake\<close>: the TLS server.
  \<open>oe_custom\<close>: openers that the program registers, with the contract \<open>custom_ok\<close>.
  \<open>oe_ALPNProto\<close>: a constant of the ACME package. \<open>Listen_env_ok\<close>: the temporary names can be
  removed again and are fresh. \<^verbatim>\<open>int\<close> is 64 bits wide. In \<open>cache_step\<close> every change of a file
  gives it a modification time it did not have before; the cache compares nothing else, and a
  change that keeps the time is not seen (\<open>fc_Load_hit\<close>). Reading a file is one step there, so
  that it sees one version.

  \<^bold>\<open>Not modelled.\<close> The TLS protocol, X.509, PEM and ACME, which are other packages. The
  length of time: deadlines and tickers occur as steps that may come at any moment, so that
  the 5 seconds of the watcher, the minute for a PROXY header and the day of the cache's
  cleaning are not stated. Symbolic links and races of other processes with the temporary
  directory. The text of errors after formatting: an error is its format and arguments. Data
  races inside one operation: a method that holds a mutex is one step, or one step from the
  lock to the unlock where others may wait.
\<close>

end
